(* ===== verification/Py_Prelude.thy ===== *)
theory Py_Prelude
  imports Complex_Main "HOL-Library.AList"
begin

text \<open>
  What the modelled Python code uses of the language and its standard library, and the
  generic lemmas about it that every component shares.

  A \<^verbatim>\<open>str\<close> is a \<^typ>\<open>string\<close> whose characters are the code points below 256.
  White space is \<^verbatim>\<open>str.isspace\<close> on that range. Lower-casing is exact on it.
  Upper-casing is exact except for the three code points whose capital leaves the range
  (181, 223 and 255): they stay as they are, and no test of the code can tell, because the
  code only compares upper-cased text with the ASCII prefixes \<^verbatim>\<open>GET;\<close> and \<^verbatim>\<open>SET;\<close> and
  upper-cases the constant \<^verbatim>\<open>A\<close>.
  A \<^verbatim>\<open>dict\<close> and an \<^verbatim>\<open>OrderedDict\<close> are association lists in insertion order:
  assignment is \<open>AList.update\<close> (a key keeps its place), \<^verbatim>\<open>del\<close> is \<open>AList.delete\<close>.
  A time stamp of \<^verbatim>\<open>time.monotonic\<close> is a \<^typ>\<open>real\<close>.
\<close>

named_theorems py_text \<open>rewriting of text built and taken apart again\<close>
named_theorems py_eval \<open>definitions unfolded to evaluate text functions on literals\<close>

type_synonym time = real
type_synonym ('k, 'v) dict = "('k \<times> 'v) list"

section \<open>Exceptions and outcomes\<close>

datatype exn =
    FileNotFoundError
  | OSError
  | ValueError
  | IndexError
  | AttributeError
  | ConnectionError
  | GaiError
  | JSONDecodeError
  | OtherError

text \<open>A statement either finishes or raises; what it changed before raising stays changed.\<close>

datatype outcome = Done | Raised exn

section \<open>Connections\<close>

text \<open>
  What one connection of a server delivers, line by line: a decoded line (with its line
  feed, if the peer sent one) together with whether writing the reply to it succeeds, or a
  read that raises (a reset connection, undecodable bytes). The end of the list is the end
  of the stream.
\<close>

datatype conn_event = Recv string bool | RecvError exn

section \<open>White space\<close>

abbreviation NL :: char where "NL \<equiv> CHR 0x0A"
abbreviation CR :: char where "CR \<equiv> CHR 0x0D"

definition py_isspace :: "char \<Rightarrow> bool" where
  "py_isspace c =
     (let n = (of_char c :: nat)
      in (9 \<le> n \<and> n \<le> 13) \<or> (28 \<le> n \<and> n \<le> 32) \<or> n = 133 \<or> n = 160)"

definition lstrip :: "string \<Rightarrow> string" where
  "lstrip s = dropWhile py_isspace s"

definition rstrip :: "string \<Rightarrow> string" where
  "rstrip s = rev (dropWhile py_isspace (rev s))"

definition strip :: "string \<Rightarrow> string" where
  "strip s = rstrip (lstrip s)"

text \<open>Text without white space at either end.\<close>

definition stripped :: "string \<Rightarrow> bool" where
  "stripped s \<longleftrightarrow> s = [] \<or> (\<not> py_isspace (hd s) \<and> \<not> py_isspace (last s))"

declare py_isspace_def [py_eval] lstrip_def [py_eval] rstrip_def [py_eval]
  strip_def [py_eval] stripped_def [py_eval]

lemma isspace_NL [simp]: "py_isspace NL"
  by (simp add: py_isspace_def)

lemma isspace_CR [simp]: "py_isspace CR"
  by (simp add: py_isspace_def)

lemma strip_Nil [simp]: "strip [] = []"
  by (simp add: strip_def rstrip_def lstrip_def)

lemma stripped_Nil [simp]: "stripped []"
  by (simp add: stripped_def)

lemma rstrip_Nil [simp]: "rstrip [] = []"
  by (simp add: rstrip_def)

lemma lstrip_Nil [simp]: "lstrip [] = []"
  by (simp add: lstrip_def)

lemma rstrip_snoc: "rstrip (s @ [c]) = (if py_isspace c then rstrip s else s @ [c])"
  by (simp add: rstrip_def)

lemma lstrip_Cons: "lstrip (c # s) = (if py_isspace c then lstrip s else c # s)"
  by (simp add: lstrip_def)

lemma rstrip_all_space: "(\<forall>c \<in> set s. py_isspace c) \<Longrightarrow> rstrip s = []"
  by (simp add: rstrip_def dropWhile_eq_Nil_conv)

lemma rstrip_hd: "s \<noteq> [] \<Longrightarrow> \<not> py_isspace (hd s) \<Longrightarrow> rstrip s \<noteq> [] \<and> hd (rstrip s) = hd s"
proof (induction s rule: rev_induct)
  case (snoc c s)
  then show ?case
    using rstrip_snoc [of "[]" c] by (cases "s = []") (auto simp: rstrip_snoc)
qed simp

lemma rstrip_last: "rstrip s \<noteq> [] \<Longrightarrow> \<not> py_isspace (last (rstrip s))"
  by (induction s rule: rev_induct) (auto simp: rstrip_snoc)

lemma lstrip_hd: "lstrip s \<noteq> [] \<Longrightarrow> \<not> py_isspace (hd (lstrip s))"
  by (induction s) (auto simp: lstrip_def split: if_splits)

lemma rstrip_id: "s = [] \<or> \<not> py_isspace (last s) \<Longrightarrow> rstrip s = s"
  by (cases s rule: rev_cases) (auto simp: rstrip_snoc)

lemma strip_id [py_text]: "stripped s \<Longrightarrow> strip s = s"
  by (cases s) (auto simp: stripped_def strip_def lstrip_Cons rstrip_id)

lemma stripped_strip [simp]: "stripped (strip s)"
proof (cases "lstrip s = []")
  case True
  then show ?thesis by (simp add: strip_def rstrip_def)
next
  case False
  then have "rstrip (lstrip s) \<noteq> [] \<and> hd (rstrip (lstrip s)) = hd (lstrip s)"
    by (intro rstrip_hd) (auto dest: lstrip_hd)
  with False show ?thesis
    by (simp add: strip_def stripped_def lstrip_hd rstrip_last)
qed

lemma strip_idem [simp]: "strip (strip s) = strip s"
  by (rule strip_id) simp

lemma strip_snoc_space [py_text]: "py_isspace c \<Longrightarrow> strip (s @ [c]) = strip s"
proof (cases "\<forall>d \<in> set s. py_isspace d")
  case True
  moreover assume "py_isspace c"
  ultimately have "lstrip (s @ [c]) = []" and "lstrip s = []"
    by (auto simp: lstrip_def dropWhile_eq_Nil_conv)
  then show ?thesis by (simp add: strip_def)
next
  case False
  then obtain d where d: "d \<in> set s" "\<not> py_isspace d" by blast
  assume "py_isspace c"
  then show ?thesis
    using d by (simp add: strip_def lstrip_def dropWhile_append1 rstrip_snoc)
qed

lemma set_lstrip: "set (lstrip s) \<subseteq> set s"
  by (auto simp: lstrip_def dest: set_dropWhileD)

lemma set_rstrip: "set (rstrip s) \<subseteq> set s"
  by (auto simp: rstrip_def dest: set_dropWhileD)

lemma set_strip: "set (strip s) \<subseteq> set s"
  using set_lstrip set_rstrip by (fastforce simp: strip_def)

lemma stripped_append:
  "stripped a \<Longrightarrow> stripped b \<Longrightarrow> a \<noteq> [] \<Longrightarrow> b \<noteq> [] \<Longrightarrow> stripped (a @ m @ b)"
  by (cases a) (auto simp: stripped_def)

section \<open>Case mapping, prefixes and suffixes\<close>

definition lower_char :: "char \<Rightarrow> char" where
  "lower_char c =
     (let n = (of_char c :: nat)
      in if (65 \<le> n \<and> n \<le> 90) \<or> (192 \<le> n \<and> n \<le> 222 \<and> n \<noteq> 215) then char_of (n + 32) else c)"

definition upper_char :: "char \<Rightarrow> char" where
  "upper_char c =
     (let n = (of_char c :: nat)
      in if (97 \<le> n \<and> n \<le> 122) \<or> (224 \<le> n \<and> n \<le> 254 \<and> n \<noteq> 247) then char_of (n - 32) else c)"

definition lower :: "string \<Rightarrow> string" where
  "lower s = map lower_char s"

definition upper :: "string \<Rightarrow> string" where
  "upper s = map upper_char s"

definition startswith :: "string \<Rightarrow> string \<Rightarrow> bool" where
  "startswith s p = (take (length p) s = p)"

definition endswith :: "string \<Rightarrow> string \<Rightarrow> bool" where
  "endswith s p = (length p \<le> length s \<and> drop (length s - length p) s = p)"

declare lower_char_def [py_eval] upper_char_def [py_eval] lower_def [py_eval] upper_def [py_eval]
  startswith_def [py_eval] endswith_def [py_eval]

lemma lower_char_idem [simp]: "lower_char (lower_char c) = lower_char c"
  by (auto simp: lower_char_def Let_def)

lemma lower_idem [simp]: "lower (lower s) = lower s"
  by (simp add: lower_def)

lemma startswith_append [simp]: "startswith (p @ s) p"
  by (simp add: startswith_def)

section \<open>Splitting and joining\<close>

text \<open>\<^verbatim>\<open>s.split(sep)\<close> for a separator of one character.\<close>

fun split_on :: "char \<Rightarrow> string \<Rightarrow> string list" where
  "split_on c [] = [[]]"
| "split_on c (x # xs) =
     (if x = c then [] # split_on c xs
      else (case split_on c xs of [] \<Rightarrow> [[x]] | y # ys \<Rightarrow> (x # y) # ys))"

text \<open>\<^verbatim>\<open>s.split(sep, n)\<close>: at most \<open>n\<close> cuts.\<close>

fun split_max :: "char \<Rightarrow> nat \<Rightarrow> string \<Rightarrow> string list" where
  "split_max c 0 s = [s]"
| "split_max c (Suc n) s =
     (if c \<in> set s
      then takeWhile (\<lambda>x. x \<noteq> c) s # split_max c n (tl (dropWhile (\<lambda>x. x \<noteq> c) s))
      else [s])"

lemma split_on_not_Nil [simp]: "split_on c s \<noteq> []"
  by (induction s) (auto split: list.splits)

lemma split_on_single [py_text]: "c \<notin> set s \<Longrightarrow> split_on c s = [s]"
  by (induction s) auto

lemma split_on_append [py_text]: "c \<notin> set a \<Longrightarrow> split_on c (a @ c # b) = a # split_on c b"
  by (induction a) auto

lemma split_on_sep_free: "f \<in> set (split_on c s) \<Longrightarrow> c \<notin> set f"
proof (induction s arbitrary: f)
  case (Cons x xs)
  obtain y ys where sp: "split_on c xs = y # ys"
    using split_on_not_Nil by (cases "split_on c xs") blast+
  with Cons show ?case by (cases "x = c") auto
qed simp

lemma split_on_set: "f \<in> set (split_on c s) \<Longrightarrow> set f \<subseteq> set s"
proof (induction s arbitrary: f)
  case (Cons x xs)
  obtain y ys where sp: "split_on c xs = y # ys"
    using split_on_not_Nil by (cases "split_on c xs") blast+
  with Cons show ?case by (cases "x = c") fastforce+
qed simp

lemma takeWhile_sep: "c \<notin> set a \<Longrightarrow> takeWhile (\<lambda>x. x \<noteq> c) (a @ c # b) = a"
  by (induction a) auto

lemma dropWhile_sep: "c \<notin> set a \<Longrightarrow> dropWhile (\<lambda>x. x \<noteq> c) (a @ c # b) = c # b"
  by (induction a) auto

lemma split_max_append [py_text]:
  "c \<notin> set a \<Longrightarrow> split_max c (Suc n) (a @ c # b) = a # split_max c n b"
  by (simp add: takeWhile_sep dropWhile_sep)

section \<open>Decimal numbers\<close>

definition is_digit :: "char \<Rightarrow> bool" where
  "is_digit c = (let n = (of_char c :: nat) in 48 \<le> n \<and> n \<le> 57)"

definition digit_val :: "char \<Rightarrow> nat" where
  "digit_val c = of_char c - 48"

definition digit_char :: "nat \<Rightarrow> char" where
  "digit_char n = char_of (n + 48)"

fun str_nat :: "nat \<Rightarrow> string" where
  "str_nat n = (if n < 10 then [digit_char n] else str_nat (n div 10) @ [digit_char (n mod 10)])"

declare str_nat.simps [simp del]

text \<open>\<^verbatim>\<open>str(i)\<close> of an integer.\<close>

definition str_int :: "int \<Rightarrow> string" where
  "str_int i = (if i < 0 then CHR ''-'' # str_nat (nat (- i)) else str_nat (nat i))"

text \<open>
  \<^verbatim>\<open>int(s)\<close>: surrounding white space (the separators 28 to 31 do not count there), an
  optional sign, digits with single underscores between them, at most 4300 digits;
  \<^const>\<open>None\<close> is the \<^verbatim>\<open>ValueError\<close>.
\<close>

definition int_space :: "char \<Rightarrow> bool" where
  "int_space c = (let n = (of_char c :: nat) in (9 \<le> n \<and> n \<le> 13) \<or> n = 32 \<or> n = 133 \<or> n = 160)"

definition int_strip :: "string \<Rightarrow> string" where
  "int_strip s = rev (dropWhile int_space (rev (dropWhile int_space s)))"

fun int_digits :: "bool \<Rightarrow> nat \<Rightarrow> string \<Rightarrow> nat option" where
  "int_digits seen acc [] = (if seen then Some acc else None)"
| "int_digits seen acc (c # cs) =
     (if is_digit c then int_digits True (10 * acc + digit_val c) cs
      else if c = CHR ''_'' \<and> seen then int_digits False acc cs
      else None)"

definition int_max_str_digits :: nat where
  "int_max_str_digits = 4300"

definition int_unsigned :: "string \<Rightarrow> nat option" where
  "int_unsigned s =
     (if length (filter is_digit s) \<le> int_max_str_digits then int_digits False 0 s else None)"

definition py_int :: "string \<Rightarrow> int option" where
  "py_int s =
     (case int_strip s of
        [] \<Rightarrow> None
      | c # cs \<Rightarrow>
          if c = CHR ''-'' then map_option (\<lambda>n. - int n) (int_unsigned cs)
          else if c = CHR ''+'' then map_option int (int_unsigned cs)
          else map_option int (int_unsigned (c # cs)))"

declare is_digit_def [py_eval] digit_val_def [py_eval] digit_char_def [py_eval]
  str_int_def [py_eval] int_space_def [py_eval] int_strip_def [py_eval]
  int_unsigned_def [py_eval] py_int_def [py_eval] int_max_str_digits_def [py_eval]

lemma of_char_digit_char: "n < 10 \<Longrightarrow> of_char (digit_char n) = (n + 48 :: nat)"
  by (simp add: digit_char_def)

lemma is_digit_digit_char [simp]: "n < 10 \<Longrightarrow> is_digit (digit_char n)"
  by (simp add: is_digit_def of_char_digit_char)

lemma digit_val_digit_char [simp]: "n < 10 \<Longrightarrow> digit_val (digit_char n) = n"
  by (simp add: digit_val_def of_char_digit_char)

lemma digit_not_space: "is_digit c \<Longrightarrow> \<not> py_isspace c \<and> \<not> int_space c"
  by (auto simp: is_digit_def py_isspace_def int_space_def Let_def)

lemma digit_not_special: "is_digit c \<Longrightarrow> c \<notin> {CHR '';'', CHR '','', CHR ''-'', CHR ''+'', CHR ''_'', CHR ''.'', NL, CR}"
  by (auto simp: is_digit_def)

lemma str_nat_digits: "c \<in> set (str_nat n) \<Longrightarrow> is_digit c"
proof (induction n rule: str_nat.induct)
  case (1 n)
  then show ?case
    by (subst (asm) (2) str_nat.simps) (auto split: if_splits)
qed

lemma str_nat_not_Nil [simp]: "str_nat n \<noteq> []"
  by (subst str_nat.simps) simp

lemma int_digits_append:
  "(\<forall>c \<in> set a. is_digit c) \<Longrightarrow> a \<noteq> [] \<or> seen \<Longrightarrow>
   int_digits seen acc (a @ b) = int_digits True (the (int_digits seen acc a)) b"
  by (induction a arbitrary: seen acc) auto

lemma int_digits_str_nat: "int_digits False 0 (str_nat n) = Some n"
proof (induction n rule: str_nat.induct)
  case (1 n)
  show ?case
  proof (cases "n < 10")
    case True
    then show ?thesis by (subst str_nat.simps) simp
  next
    case False
    with "1" have "int_digits False 0 (str_nat (n div 10)) = Some (n div 10)" by blast
    with False show ?thesis
      by (subst str_nat.simps) (simp add: int_digits_append str_nat_digits)
  qed
qed

lemma str_int_chars: "c \<in> set (str_int i) \<Longrightarrow> is_digit c \<or> c = CHR ''-''"
  by (auto simp: str_int_def dest: str_nat_digits split: if_splits)

lemma str_int_not_Nil [simp]: "str_int i \<noteq> []"
  by (simp add: str_int_def)

lemma int_strip_str_int: "int_strip (str_int i) = str_int i"
proof -
  have ns: "\<not> int_space c" if "c \<in> set (str_int i)" for c
    using str_int_chars [OF that] by (auto dest: digit_not_space simp: int_space_def)
  then have "dropWhile int_space (str_int i) = str_int i"
    by (cases "str_int i") auto
  moreover from ns have "dropWhile int_space (rev (str_int i)) = rev (str_int i)"
    by (metis dropWhile_eq_self_iff hd_in_set set_rev)
  ultimately show ?thesis by (simp add: int_strip_def)
qed

text \<open>Printing a number and parsing it back gives the number.\<close>

lemma py_int_str_int [py_text]:
  assumes "length (str_int i) \<le> int_max_str_digits"
  shows "py_int (str_int i) = Some i"
proof (cases "i < 0")
  case True
  with assms have "length (filter is_digit (str_nat (nat (- i)))) \<le> int_max_str_digits"
    by (intro order_trans [OF length_filter_le]) (simp add: str_int_def)
  with True show ?thesis
    unfolding py_int_def int_strip_str_int
    by (simp add: str_int_def int_unsigned_def int_digits_str_nat)
next
  case False
  obtain c cs where n: "str_nat (nat i) = c # cs"
    using str_nat_not_Nil by (cases "str_nat (nat i)") blast+
  then have "is_digit c" by (metis list.set_intros(1) str_nat_digits)
  then have "c \<noteq> CHR ''-''" and "c \<noteq> CHR ''+''" by (auto dest: digit_not_special)
  moreover have "length (filter is_digit (c # cs)) \<le> int_max_str_digits"
    using assms False n by (intro order_trans [OF length_filter_le]) (simp add: str_int_def)
  then have "int_unsigned (c # cs) = Some (nat i)"
    using int_digits_str_nat [of "nat i"] n by (simp add: int_unsigned_def)
  ultimately show ?thesis
    using False n unfolding py_int_def int_strip_str_int by (simp add: str_int_def)
qed

lemma py_int_str_int_cases: "0 \<le> i \<Longrightarrow> py_int (str_int i) = None \<or> py_int (str_int i) = Some i"
proof (cases "length (str_int i) \<le> int_max_str_digits")
  case False
  assume i: "0 \<le> i"
  obtain c cs where n: "str_nat (nat i) = c # cs"
    using str_nat_not_Nil by (cases "str_nat (nat i)") blast+
  have all: "\<forall>x \<in> set (str_nat (nat i)). is_digit x" by (simp add: str_nat_digits)
  then have "filter is_digit (c # cs) = c # cs" unfolding n by (intro filter_True) simp
  moreover have "c \<noteq> CHR ''-''" "c \<noteq> CHR ''+''" using all n by (auto dest: digit_not_special)
  ultimately show ?thesis
    using i False n unfolding py_int_def int_strip_str_int
    by (simp add: str_int_def int_unsigned_def)
qed (simp add: py_int_str_int)

lemma str_int_stripped [simp]: "stripped (str_int i)"
proof -
  have "\<not> py_isspace c" if "c \<in> set (str_int i)" for c
    using str_int_chars [OF that] by (auto dest: digit_not_space simp: py_isspace_def)
  then show ?thesis by (simp add: stripped_def)
qed

section \<open>Text files\<close>

text \<open>
  A text stream opened with the default \<^verbatim>\<open>newline\<close> argument turns \<^verbatim>\<open>CR LF\<close> and a lone \<^verbatim>\<open>CR\<close>
  into \<^verbatim>\<open>LF\<close>, and iterating over it gives the lines with their line feed; only the last
  line can lack one.
\<close>

fun univ_nl :: "string \<Rightarrow> string" where
  "univ_nl [] = []"
| "univ_nl [c] = [if c = CR then NL else c]"
| "univ_nl (c # d # s) =
     (if c = CR then NL # (if d = NL then univ_nl s else univ_nl (d # s))
      else c # univ_nl (d # s))"

fun keep_lines :: "string \<Rightarrow> string list" where
  "keep_lines [] = []"
| "keep_lines (c # s) =
     (if c = NL then [NL] # keep_lines s
      else (case keep_lines s of [] \<Rightarrow> [[c]] | l # ls \<Rightarrow> (c # l) # ls))"

definition file_lines :: "string \<Rightarrow> string list" where
  "file_lines content = keep_lines (univ_nl content)"

declare file_lines_def [py_eval]

definition full_line :: "string \<Rightarrow> bool" where
  "full_line l \<longleftrightarrow> (\<exists>t. l = t @ [NL] \<and> NL \<notin> set t \<and> CR \<notin> set t)"

lemma univ_nl_id: "CR \<notin> set s \<Longrightarrow> univ_nl s = s"
  by (induction s rule: univ_nl.induct) auto

lemma univ_nl_no_CR: "CR \<notin> set (univ_nl s)"
  by (induction s rule: univ_nl.induct) auto

lemma concat_keep_lines [simp]: "concat (keep_lines s) = s"
  by (induction s) (auto split: list.splits)

lemma keep_lines_line: "NL \<notin> set t \<Longrightarrow> keep_lines (t @ NL # s) = (t @ [NL]) # keep_lines s"
  by (induction t) auto

lemma keep_lines_concat: "\<forall>l \<in> set ls. full_line l \<Longrightarrow> keep_lines (concat ls) = ls"
  by (induction ls) (auto simp: full_line_def keep_lines_line)

lemma full_line_no_CR: "\<forall>l \<in> set ls. full_line l \<Longrightarrow> CR \<notin> set (concat ls)"
  by (fastforce simp: full_line_def)

lemma file_lines_concat [py_text]: "\<forall>l \<in> set ls. full_line l \<Longrightarrow> file_lines (concat ls) = ls"
  using full_line_no_CR [of ls] by (simp add: file_lines_def univ_nl_id keep_lines_concat)

lemma keep_lines_parts: "l \<in> set (keep_lines s) \<Longrightarrow> l \<noteq> [] \<and> NL \<notin> set (butlast l) \<and> set l \<subseteq> set s"
proof (induction s arbitrary: l)
  case (Cons c s)
  show ?case
  proof (cases "c = NL")
    case True
    with Cons show ?thesis by auto
  next
    case False
    show ?thesis
    proof (cases "keep_lines s")
      case Nil
      with False Cons.prems show ?thesis by simp
    next
      case (Cons k ks)
      with False Cons.prems Cons.IH [of k] Cons.IH [of l] show ?thesis by auto
    qed
  qed
qed simp

text \<open>A line of a file that ends with a line feed has no other.\<close>

lemma file_lines_full:
  assumes "l \<in> set (file_lines s)" and "last l = NL"
  shows "full_line l"
proof -
  have l: "l \<noteq> []" "NL \<notin> set (butlast l)" "CR \<notin> set l"
    using keep_lines_parts [of l "univ_nl s"] univ_nl_no_CR [of s] assms(1)
    by (auto simp: file_lines_def)
  then have "l = butlast l @ [NL]" using append_butlast_last_id [OF l(1)] assms(2) by simp
  with l show ?thesis unfolding full_line_def by (metis in_set_butlastD)
qed

lemma file_lines_set: "concat (file_lines s) = univ_nl s"
  by (simp add: file_lines_def)

section \<open>Ordered dictionaries\<close>

abbreviation dkeys :: "('k, 'v) dict \<Rightarrow> 'k list" where
  "dkeys d \<equiv> map fst d"

abbreviation dset :: "'k \<Rightarrow> 'v \<Rightarrow> ('k, 'v) dict \<Rightarrow> ('k, 'v) dict" where
  "dset \<equiv> AList.update"

abbreviation ddel :: "'k \<Rightarrow> ('k, 'v) dict \<Rightarrow> ('k, 'v) dict" where
  "ddel \<equiv> AList.delete"

text \<open>\<^verbatim>\<open>OrderedDict.move_to_end(key)\<close> for a key that is present.\<close>

definition move_to_end :: "'k \<Rightarrow> ('k, 'v) dict \<Rightarrow> ('k, 'v) dict" where
  "move_to_end k d = (case map_of d k of None \<Rightarrow> d | Some v \<Rightarrow> ddel k d @ [(k, v)])"

lemma ddel_not_in [simp]: "k \<notin> fst ` set d \<Longrightarrow> ddel k d = d"
  by (simp add: AList.delete_eq) (induction d, auto)

lemma dset_not_in: "k \<notin> fst ` set d \<Longrightarrow> dset k v d = d @ [(k, v)]"
  by (induction d) auto

lemma dset_append_in:
  "k \<notin> fst ` set d \<Longrightarrow> dset k v (d @ [(k, w)]) = d @ [(k, v)]"
  by (induction d) auto

lemma dkeys_dset: "dkeys (dset k v d) = (if k \<in> fst ` set d then dkeys d else dkeys d @ [k])"
  by (induction d) auto

lemma length_dset: "length (dset k v d) = (if k \<in> fst ` set d then length d else Suc (length d))"
  by (induction d) auto

lemma dkeys_ddel: "dkeys (ddel k d) = filter (\<lambda>x. x \<noteq> k) (dkeys d)"
  by (induction d) auto

lemma length_ddel_in:
  "distinct (dkeys d) \<Longrightarrow> k \<in> fst ` set d \<Longrightarrow> Suc (length (ddel k d)) = length d"
  by (induction d) auto

lemma distinct_ddel: "distinct (dkeys d) \<Longrightarrow> distinct (dkeys (ddel k d))"
  by (rule AList.distinct_delete)

end
