(* ===== verification/Node_State.thy ===== *)
theory Node_State
  imports Py_Prelude "HOL-Library.List_Lexorder" "HOL-Library.Char_ord"
begin

text \<open>
  The shared state of a data-plane node (\<^verbatim>\<open>data_plane/state.py\<close>, class \<^verbatim>\<open>States\<close>): discovery of
  the cluster from the \<^verbatim>\<open>self_ip_*.txt\<close> files, membership changes, and the assignment of
  letters of the alphabet (shards) to ranks. Ranks are Python integers, so \<^typ>\<open>int\<close>: they
  also arrive over the network, and the slice that picks a shard follows Python's rules for
  negative and out-of-range bounds. A set is iterated in an order Python does not fix;
  operations that iterate over \<open>selfRecords\<close> take that order as an argument, and the snapshot
  written to \<^verbatim>\<open>states.txt\<close> keeps it as a set.
\<close>

section \<open>Data\<close>

definition ALPHABET :: string where
  "ALPHABET = ''abcdefghijklmnopqrstuvwxyz''"

definition TOTAL_LETTERS :: int where
  "TOTAL_LETTERS = int (length ALPHABET)"

text \<open>What \<^verbatim>\<open>to_state_dict\<close> puts into \<^verbatim>\<open>states.txt\<close>.\<close>

record state_dict =
  d_selfIp :: string
  d_nodes :: "(string, int) dict"
  d_rank :: int
  d_lastRank :: int
  d_leader :: bool
  d_beatInterval :: time
  d_leaderDead :: time
  d_nodeCount :: int
  d_leaderIp :: string
  d_selfRecords :: "char set"

text \<open>
  The fields of \<^verbatim>\<open>States\<close>, the two files the class writes (\<open>None\<close>: never written), and
  whether \<^verbatim>\<open>states.txt\<close> can be opened for writing.
\<close>

record states =
  selfRecords :: "char set"
  selfIp :: string
  records :: "string \<times> string \<rightharpoonup> string"
  nodes :: "(string, int) dict"
  rank :: int
  lastRank :: int
  mLastRank :: int
  st_leader :: bool
  beatInterval :: time
  leaderDead :: time
  nodeCount :: int
  leaderIp :: string
  nodesTxt :: "string option"
  statesTxt :: "state_dict option"
  statesTxtOk :: bool

section \<open>Snapshot file\<close>

definition to_state_dict :: "states \<Rightarrow> state_dict" where
  "to_state_dict s =
     \<lparr>d_selfIp = selfIp s, d_nodes = nodes s, d_rank = rank s, d_lastRank = lastRank s,
      d_leader = st_leader s, d_beatInterval = beatInterval s, d_leaderDead = leaderDead s,
      d_nodeCount = nodeCount s, d_leaderIp = leaderIp s, d_selfRecords = selfRecords s\<rparr>"

definition updateState :: "states \<Rightarrow> states" where
  "updateState s = (if statesTxtOk s then s\<lparr>statesTxt := Some (to_state_dict s)\<rparr> else s)"

definition setLeaderIp :: "string \<Rightarrow> states \<Rightarrow> states" where
  "setLeaderIp ip s = updateState (s\<lparr>leaderIp := ip\<rparr>)"

section \<open>Shard assignment\<close>

text \<open>Python's \<^verbatim>\<open>xs[i:j]\<close>.\<close>

definition slice_index :: "int \<Rightarrow> int \<Rightarrow> nat" where
  "slice_index n i = nat (if i < 0 then max 0 (n + i) else min i n)"

definition py_slice :: "'a list \<Rightarrow> int \<Rightarrow> int \<Rightarrow> 'a list" where
  "py_slice xs i j =
     (let n = int (length xs); a = slice_index n i; b = slice_index n j in take (b - a) (drop a xs))"

definition shard_start :: "int \<Rightarrow> int \<Rightarrow> int" where
  "shard_start r n = (TOTAL_LETTERS div n) * (r - 1) + min (r - 1) (TOTAL_LETTERS mod n)"

definition shard_size :: "int \<Rightarrow> int \<Rightarrow> int" where
  "shard_size r n = TOTAL_LETTERS div n + (if r \<le> TOTAL_LETTERS mod n then 1 else 0)"

definition shard_slice :: "int \<Rightarrow> int \<Rightarrow> string" where
  "shard_slice r n = py_slice ALPHABET (shard_start r n) (shard_start r n + shard_size r n)"

definition updateRecordSet :: "states \<Rightarrow> states" where
  "updateRecordSet s =
     (if nodeCount s = 1 then s\<lparr>selfRecords := set ALPHABET\<rparr>
      else if lastRank s = 0 \<or> rank s = 0 then s\<lparr>selfRecords := {}\<rparr>
      else updateState (s\<lparr>selfRecords := set (shard_slice (rank s) (lastRank s))\<rparr>))"

definition updateRank :: "int \<Rightarrow> int \<Rightarrow> states \<Rightarrow> states" where
  "updateRank r n s = updateRecordSet (s\<lparr>rank := r, lastRank := n\<rparr>)"

section \<open>Membership\<close>

definition addNodes :: "string \<Rightarrow> states \<Rightarrow> states" where
  "addNodes ip s =
     (if ip \<in> set (dkeys (nodes s)) then s
      else let n = nodeCount s + 1; ns = dset ip n (nodes s)
        in updateRecordSet (s\<lparr>nodeCount := n, nodes := ns, lastRank := int (length ns)\<rparr>))"

text \<open>\<^verbatim>\<open>nodes.get(ip, 1)\<close>\<close>

definition rank_of :: "string \<Rightarrow> (string, int) dict \<Rightarrow> int" where
  "rank_of ip ns = (case map_of ns ip of None \<Rightarrow> 1 | Some r \<Rightarrow> r)"

text \<open>Renumbering the remaining nodes: \<^verbatim>\<open>for i, ip in enumerate(list(nodes), start=1)\<close>.\<close>

definition renumber :: "(string, int) dict \<Rightarrow> (string, int) dict" where
  "renumber ns = fold (\<lambda>(i, ip) d. dset ip (int i) d) (List.enumerate 1 (dkeys ns)) ns"

definition removeNode :: "string \<Rightarrow> states \<Rightarrow> states" where
  "removeNode ip s =
     (if ip \<notin> set (dkeys (nodes s)) then s
      else let ns = ddel ip (nodes s); ns' = renumber ns
        in updateRecordSet (s\<lparr>nodes := ns', nodeCount := int (length ns),
             rank := rank_of (selfIp s) ns', lastRank := int (length ns')\<rparr>))"

section \<open>Start-up\<close>

text \<open>
  What the class reads when it is built: the address of the outgoing interface
  (\<^verbatim>\<open>get_advertised_ip\<close>), the directory listing, the file contents, and whether its two output
  files can be opened.
\<close>

record boot_env =
  advertised_ip :: string
  listdir :: "string list"
  read_file :: "string \<Rightarrow> exn + string"
  nodesTxtOk :: bool
  stateTxtOk :: bool

definition ip_files :: "string list \<Rightarrow> string list" where
  "ip_files fns = sort (filter (\<lambda>fn. startswith fn ''self_ip_'' \<and> endswith fn ''.txt'') fns)"

definition is_OSError :: "exn \<Rightarrow> bool" where
  "is_OSError e \<longleftrightarrow> e = OSError \<or> e = FileNotFoundError \<or> e = ConnectionError \<or> e = GaiError"

fun load_ips ::
    "(string \<Rightarrow> exn + string) \<Rightarrow> string list \<Rightarrow> (string, int) dict \<Rightarrow> int \<Rightarrow> exn + (string, int) dict \<times> int"
where
  "load_ips rd [] ns cur = Inr (ns, cur)"
| "load_ips rd (fn # fns) ns cur =
     (case rd fn of
        Inl e \<Rightarrow> if is_OSError e then load_ips rd fns ns cur else Inl e
      | Inr txt \<Rightarrow>
          let ip = strip txt
          in if ip \<noteq> [] then load_ips rd fns (dset ip (cur + 1) ns) (cur + 1)
             else load_ips rd fns ns cur)"

record boot_nodes =
  b_nodes :: "(string, int) dict"
  b_rank :: int
  b_lastRank :: int
  b_nodesTxt :: string

definition register_and_load_nodes :: "boot_env \<Rightarrow> exn + boot_nodes" where
  "register_and_load_nodes env =
     (case load_ips (read_file env) (ip_files (listdir env)) [] 0 of
        Inl e \<Rightarrow> Inl e
      | Inr (ns0, cur0) \<Rightarrow>
          let (ns, cur) = (if ns0 = [] then ([(advertised_ip env, 1)], 1) else (ns0, cur0))
          in if nodesTxtOk env
             then Inr \<lparr>b_nodes = ns, b_rank = rank_of (advertised_ip env) ns, b_lastRank = cur,
                       b_nodesTxt = concat (map (\<lambda>ip. ip @ [NL]) (dkeys ns))\<rparr>
             else Inl OSError)"

definition States_init :: "boot_env \<Rightarrow> exn + states" where
  "States_init env =
     (case register_and_load_nodes env of
        Inl e \<Rightarrow> Inl e
      | Inr b \<Rightarrow>
          let s = \<lparr>selfRecords = {}, selfIp = advertised_ip env, records = Map.empty,
                   nodes = b_nodes b, rank = b_rank b, lastRank = b_lastRank b, mLastRank = b_lastRank b,
                   st_leader = True, beatInterval = 100, leaderDead = 300,
                   nodeCount = int (length (b_nodes b)), leaderIp = advertised_ip env,
                   nodesTxt = Some (b_nodesTxt b), statesTxt = None, statesTxtOk = stateTxtOk env\<rparr>
          in Inr (updateState (updateRecordSet s)))"

section \<open>The shards of ranks 1 to n partition the alphabet\<close>

lemma ALPHABET_distinct [simp]: "distinct ALPHABET"
  by (simp add: ALPHABET_def)

lemma length_ALPHABET [simp]: "length ALPHABET = 26"
  by (simp add: ALPHABET_def)

lemma TOTAL_LETTERS [simp]: "TOTAL_LETTERS = 26"
  by (simp add: TOTAL_LETTERS_def)

lemma shard_end: "shard_start r n + shard_size r n = shard_start (r + 1) n"
  by (simp add: shard_start_def shard_size_def algebra_simps)

lemma shard_start_1: "1 \<le> n \<Longrightarrow> shard_start 1 n = 0"
  by (simp add: shard_start_def)

lemma shard_start_last: "1 \<le> n \<Longrightarrow> shard_start (n + 1) n = 26"
proof -
  assume "1 \<le> n"
  then have "26 mod n < n" by simp
  then show ?thesis using mult_div_mod_eq [of n 26] by (simp add: shard_start_def min_def algebra_simps)
qed

lemma shard_size_nonneg: "1 \<le> n \<Longrightarrow> 0 \<le> shard_size r n"
  by (simp add: shard_size_def pos_imp_zdiv_nonneg_iff)

lemma shard_start_mono:
  assumes "1 \<le> n" and "r \<le> r'"
  shows "shard_start r n \<le> shard_start r' n"
  using assms(2)
proof (induction r' rule: int_ge_induct)
  case (step i)
  then show ?case using shard_end [of i n] shard_size_nonneg [OF assms(1), of i] by simp
qed simp

lemma shard_bounds:
  assumes "1 \<le> r" and "r \<le> n"
  shows "0 \<le> shard_start r n" and "shard_start (r + 1) n \<le> 26"
  using assms shard_start_mono [of n 1 r] shard_start_mono [of n "r + 1" "n + 1"]
  by (simp_all add: shard_start_1 shard_start_last)

lemma py_slice_inside:
  assumes "0 \<le> i" and "i \<le> j" and "j \<le> int (length xs)"
  shows "py_slice xs i j = take (nat j - nat i) (drop (nat i) xs)"
  using assms by (simp add: py_slice_def slice_index_def Let_def)

lemma shard_slice_eq:
  assumes "1 \<le> r" and "r \<le> n"
  shows "shard_slice r n =
    take (nat (shard_start (r + 1) n) - nat (shard_start r n)) (drop (nat (shard_start r n)) ALPHABET)"
  using assms shard_bounds [OF assms] shard_start_mono [of n r "r + 1"]
  by (simp add: shard_slice_def shard_end py_slice_inside)

lemma in_shard_slice:
  assumes "1 \<le> r" and "r \<le> n" and "i < 26"
  shows "ALPHABET ! i \<in> set (shard_slice r n) \<longleftrightarrow>
    shard_start r n \<le> int i \<and> int i < shard_start (r + 1) n"
proof -
  let ?a = "nat (shard_start r n)" and ?b = "nat (shard_start (r + 1) n)"
  have b: "?b \<le> 26" using shard_bounds(2) [OF assms(1,2)] by simp
  have "ALPHABET ! i \<in> set (take (?b - ?a) (drop ?a ALPHABET)) \<longleftrightarrow> ?a \<le> i \<and> i < ?b"
  proof
    assume "ALPHABET ! i \<in> set (take (?b - ?a) (drop ?a ALPHABET))"
    then obtain j where j: "j < ?b - ?a" "?a + j < 26" "ALPHABET ! (?a + j) = ALPHABET ! i"
      using b by (auto simp: in_set_conv_nth)
    then have "?a + j = i" using assms(3) nth_eq_iff_index_eq [of ALPHABET] by simp
    with j show "?a \<le> i \<and> i < ?b" by auto
  next
    assume "?a \<le> i \<and> i < ?b"
    then show "ALPHABET ! i \<in> set (take (?b - ?a) (drop ?a ALPHABET))"
      using assms(3) b by (auto simp: in_set_conv_nth intro!: exI [of _ "i - ?a"])
  qed
  then show ?thesis using shard_slice_eq [OF assms(1,2)] shard_bounds(1) [OF assms(1,2)] by auto
qed

lemma shard_slice_subset: "1 \<le> r \<Longrightarrow> r \<le> n \<Longrightarrow> set (shard_slice r n) \<subseteq> set ALPHABET"
  by (auto simp: shard_slice_eq dest!: in_set_takeD in_set_dropD)

lemma interval_unique:
  fixes f :: "int \<Rightarrow> int"
  assumes mono: "\<And>r r'. r \<le> r' \<Longrightarrow> f r \<le> f r'" and n: "1 \<le> n" and i: "f 1 \<le> i" "i < f (n + 1)"
  shows "\<exists>!r. 1 \<le> r \<and> r \<le> n \<and> f r \<le> i \<and> i < f (r + 1)"
proof -
  have "i < f (n + 1) \<longrightarrow> (\<exists>r. 1 \<le> r \<and> r \<le> n \<and> f r \<le> i \<and> i < f (r + 1))"
    using n
  proof (induction n rule: int_ge_induct)
    case base
    then show ?case using i(1) by auto
  next
    case (step m)
    then show ?case
      by (cases "i < f (m + 1)") (fastforce, intro impI exI [of _ "m + 1"], simp)
  qed
  moreover have "r = r'" if "f r \<le> i" "i < f (r + 1)" "f r' \<le> i" "i < f (r' + 1)" for r r'
    using that mono [of "r + 1" r'] mono [of "r' + 1" r] by (cases r r' rule: linorder_cases) auto
  ultimately show ?thesis using i(2) by blast
qed

lemma shard_unique:
  assumes "1 \<le> n" and "c \<in> set ALPHABET"
  shows "\<exists>!r. 1 \<le> r \<and> r \<le> n \<and> c \<in> set (shard_slice r n)"
proof -
  obtain i where i: "i < 26" "c = ALPHABET ! i" using assms(2) by (auto simp: in_set_conv_nth)
  have "\<exists>!r. 1 \<le> r \<and> r \<le> n \<and> shard_start r n \<le> int i \<and> int i < shard_start (r + 1) n"
    using assms(1) i(1)
    by (intro interval_unique) (simp_all add: shard_start_mono shard_start_1 shard_start_last)
  then show ?thesis using in_shard_slice [OF _ _ i(1)] i(2) by metis
qed

section \<open>Sharded clusters as an interface\<close>

text \<open>
  What readers rely on: among the members of a cluster every letter has exactly one owner,
  and nothing else is owned.
\<close>

locale sharded =
  fixes members :: "'n set" and own :: "'n \<Rightarrow> char set"
  assumes owner_unique: "c \<in> set ALPHABET \<Longrightarrow> \<exists>!m. m \<in> members \<and> c \<in> own m"
    and own_letters: "m \<in> members \<Longrightarrow> own m \<subseteq> set ALPHABET"
begin

lemma own_disjoint: "m \<in> members \<Longrightarrow> m' \<in> members \<Longrightarrow> m \<noteq> m' \<Longrightarrow> own m \<inter> own m' = {}"
  using owner_unique own_letters by blast

lemma own_covers: "(\<Union>m \<in> members. own m) = set ALPHABET"
proof (intro equalityI subsetI)
  fix c assume "c \<in> set ALPHABET"
  then show "c \<in> (\<Union>m \<in> members. own m)" using owner_unique [of c] by (auto dest: ex1_implies_ex)
qed (use own_letters in auto)

lemma other_not_owner: "m \<in> members \<Longrightarrow> c \<in> own m \<Longrightarrow> m' \<in> members \<Longrightarrow> m' \<noteq> m \<Longrightarrow> c \<notin> own m'"
  using own_disjoint by blast

end

interpretation shards: sharded "{1..int (Suc n)}" "\<lambda>r. set (shard_slice r (int (Suc n)))" for n
proof
  fix c assume "c \<in> set ALPHABET"
  then show "\<exists>!m. m \<in> {1..int (Suc n)} \<and> c \<in> set (shard_slice m (int (Suc n)))"
    using shard_unique [of "int (Suc n)" c] by (simp add: conj_assoc)
next
  fix m assume "m \<in> {1..int (Suc n)}"
  then show "set (shard_slice m (int (Suc n))) \<subseteq> set ALPHABET"
    by (simp add: shard_slice_subset)
qed

section \<open>Numbered members\<close>

text \<open>Members numbered \<open>k\<close>, \<open>k + 1\<close>, and so on, in order.\<close>

fun number_from :: "nat \<Rightarrow> string list \<Rightarrow> (string, int) dict" where
  "number_from k [] = []"
| "number_from k (ip # ips) = (ip, int k) # number_from (Suc k) ips"

lemma dkeys_number_from [simp]: "dkeys (number_from k ips) = ips"
  by (induction k ips rule: number_from.induct) simp_all

lemma length_number_from [simp]: "length (number_from k ips) = length ips"
  by (induction k ips rule: number_from.induct) simp_all

lemma fst_set_number_from [simp]: "fst ` set (number_from k ips) = set ips"
  by (metis dkeys_number_from list.set_map)

lemma rank_of_number_from_bounds:
  "ip \<in> set ips \<Longrightarrow>
   int k \<le> rank_of ip (number_from k ips) \<and> rank_of ip (number_from k ips) < int (k + length ips)"
  by (induction k ips rule: number_from.induct) (fastforce simp: rank_of_def)+

lemma rank_of_number_from_surj:
  "distinct ips \<Longrightarrow> int k \<le> r \<Longrightarrow> r < int (k + length ips) \<Longrightarrow>
   \<exists>ip \<in> set ips. rank_of ip (number_from k ips) = r"
proof (induction k ips rule: number_from.induct)
  case (2 k ip ips)
  show ?case
  proof (cases "r = int k")
    case False
    with 2 obtain x where "x \<in> set ips" "rank_of x (number_from (Suc k) ips) = r" by fastforce
    with 2 show ?thesis by (intro bexI [of _ x]) (auto simp: rank_of_def)
  qed (simp add: rank_of_def)
qed simp

lemma rank_of_number_from_inj:
  "distinct ips \<Longrightarrow> inj_on (\<lambda>ip. rank_of ip (number_from k ips)) (set ips)"
proof (induction k ips rule: number_from.induct)
  case (2 k ip ips)
  have tail: "rank_of x (number_from k (ip # ips)) = rank_of x (number_from (Suc k) ips)"
    if "x \<in> set ips" for x
    using 2 that by (auto simp: rank_of_def)
  have "rank_of ip (number_from k (ip # ips)) = int k" by (simp add: rank_of_def)
  moreover have "rank_of x (number_from (Suc k) ips) \<noteq> int k" if "x \<in> set ips" for x
    using rank_of_number_from_bounds [OF that, of "Suc k"] by simp
  moreover have "inj_on (\<lambda>x. rank_of x (number_from k (ip # ips))) (set ips)"
    using 2 tail by (simp cong: inj_on_cong del: number_from.simps)
  ultimately show ?case using 2(2) tail by (force simp del: number_from.simps)
qed simp

lemma renumber_fold:
  assumes "dkeys d = ips" and "distinct (dkeys pre @ ips)"
  shows "fold (\<lambda>(i, ip) d. dset ip (int i) d) (List.enumerate k ips) (pre @ d) = pre @ number_from k ips"
  using assms
proof (induction ips arbitrary: k pre d)
  case (Cons ip ips)
  then obtain w d' where d: "d = (ip, w) # d'" "dkeys d' = ips" by (cases d) auto
  have "dset ip (int k) (pre @ (ip, w) # d') = (pre @ [(ip, int k)]) @ d'"
    using Cons.prems by (induction pre) auto
  with Cons.IH [of d' "pre @ [(ip, int k)]" "Suc k"] Cons.prems d show ?case by simp
qed simp

lemma renumber_eq: "distinct (dkeys ns) \<Longrightarrow> renumber ns = number_from 1 (dkeys ns)"
  using renumber_fold [of ns "dkeys ns" "[]" 1] by (simp add: renumber_def)

section \<open>Clusters of nodes that agree on the membership\<close>

text \<open>
  A node sees the members \<open>ips\<close>: they are numbered in this order from 1, the node is one of
  them and uses its own number.
\<close>

definition sees :: "string list \<Rightarrow> states \<Rightarrow> bool" where
  "sees ips s \<longleftrightarrow> distinct ips \<and> nodes s = number_from 1 ips \<and> selfIp s \<in> set ips
     \<and> rank s = rank_of (selfIp s) (nodes s) \<and> lastRank s = int (length ips)
     \<and> nodeCount s = int (length ips)"

lemma sees_rank: "sees ips s \<Longrightarrow> 1 \<le> rank s \<and> rank s \<le> int (length ips)"
  using rank_of_number_from_bounds [of "selfIp s" ips 1] by (auto simp: sees_def)

lemma shard_slice_1: "shard_slice 1 1 = ALPHABET"
  by (simp add: shard_slice_def shard_start_def shard_size_def py_slice_def slice_index_def Let_def)

lemma updateState_fields [simp]:
  "selfRecords (updateState s) = selfRecords s" "selfIp (updateState s) = selfIp s"
  "records (updateState s) = records s" "nodes (updateState s) = nodes s" "rank (updateState s) = rank s"
  "lastRank (updateState s) = lastRank s" "mLastRank (updateState s) = mLastRank s"
  "st_leader (updateState s) = st_leader s" "beatInterval (updateState s) = beatInterval s"
  "leaderDead (updateState s) = leaderDead s" "nodeCount (updateState s) = nodeCount s"
  "leaderIp (updateState s) = leaderIp s" "nodesTxt (updateState s) = nodesTxt s"
  "statesTxtOk (updateState s) = statesTxtOk s"
  by (simp_all add: updateState_def)

lemma updateRecordSet_fields [simp]:
  "selfIp (updateRecordSet s) = selfIp s"
  "records (updateRecordSet s) = records s" "nodes (updateRecordSet s) = nodes s"
  "rank (updateRecordSet s) = rank s" "lastRank (updateRecordSet s) = lastRank s"
  "mLastRank (updateRecordSet s) = mLastRank s" "st_leader (updateRecordSet s) = st_leader s"
  "beatInterval (updateRecordSet s) = beatInterval s" "leaderDead (updateRecordSet s) = leaderDead s"
  "nodeCount (updateRecordSet s) = nodeCount s" "leaderIp (updateRecordSet s) = leaderIp s"
  "nodesTxt (updateRecordSet s) = nodesTxt s" "statesTxtOk (updateRecordSet s) = statesTxtOk s"
  by (simp_all add: updateRecordSet_def)

lemma selfRecords_sees:
  assumes "sees ips s"
  shows "selfRecords (updateRecordSet s) = set (shard_slice (rank s) (int (length ips)))"
proof (cases "length ips = 1")
  case True
  with sees_rank [OF assms] have "rank s = 1" by simp
  with True assms show ?thesis by (simp add: updateRecordSet_def sees_def shard_slice_1)
next
  case False
  with assms sees_rank [OF assms] show ?thesis by (auto simp: updateRecordSet_def sees_def)
qed

text \<open>A settled node also holds exactly the shard of its rank.\<close>

definition settled :: "string list \<Rightarrow> states \<Rightarrow> bool" where
  "settled ips s \<longleftrightarrow> sees ips s \<and> selfRecords s = set (shard_slice (rank s) (int (length ips)))"

lemma sees_updateState [simp]: "sees ips (updateState s) = sees ips s"
  by (simp add: sees_def)

lemma sees_updateRecordSet [simp]: "sees ips (updateRecordSet s) = sees ips s"
  by (simp add: sees_def)

lemma settled_updateState [simp]: "settled ips (updateState s) = settled ips s"
  by (simp add: settled_def)

lemma sees_settled: "sees ips s \<Longrightarrow> settled ips (updateRecordSet s)"
  by (simp add: settled_def selfRecords_sees)

text \<open>Members that hold the shards of their numbers own each letter once.\<close>

lemma ranks_sharded:
  assumes "ips \<noteq> []" and d: "distinct ips"
    and own: "\<And>ip. ip \<in> set ips \<Longrightarrow> own ip = set (shard_slice (rank_of ip (number_from 1 ips)) (int (length ips)))"
  shows "sharded (set ips) own"
proof
  let ?n = "int (length ips)"
  have bnd: "1 \<le> rank_of ip (number_from 1 ips) \<and> rank_of ip (number_from 1 ips) \<le> ?n"
    if "ip \<in> set ips" for ip
    using rank_of_number_from_bounds [OF that, of 1] by simp
  show "own ip \<subseteq> set ALPHABET" if "ip \<in> set ips" for ip
    using own [OF that] bnd [OF that] shard_slice_subset by simp
  fix c assume "c \<in> set ALPHABET"
  moreover have "1 \<le> ?n" using assms(1) by (cases ips) simp_all
  ultimately obtain r where r: "1 \<le> r" "r \<le> ?n" "c \<in> set (shard_slice r ?n)"
    and uniq: "\<And>r'. 1 \<le> r' \<Longrightarrow> r' \<le> ?n \<Longrightarrow> c \<in> set (shard_slice r' ?n) \<Longrightarrow> r' = r"
    using shard_unique by metis
  obtain ip where ip: "ip \<in> set ips" "rank_of ip (number_from 1 ips) = r"
    using rank_of_number_from_surj [OF d, of 1 r] r by auto
  show "\<exists>!m. m \<in> set ips \<and> c \<in> own m"
  proof (rule ex1I [of _ ip])
    show "ip \<in> set ips \<and> c \<in> own ip" using ip own r by simp
    fix m assume m: "m \<in> set ips \<and> c \<in> own m"
    then have "rank_of m (number_from 1 ips) = r" using own bnd by (intro uniq) auto
    with ip m show "m = ip" using rank_of_number_from_inj [OF d, of 1] by (auto simp: inj_on_def)
  qed
qed

lemma cluster_sharded:
  assumes "ips \<noteq> []" and "\<forall>ip \<in> set ips. settled ips (st ip) \<and> selfIp (st ip) = ip"
  shows "sharded (set ips) (\<lambda>ip. selfRecords (st ip))"
proof (rule ranks_sharded [OF assms(1)])
  show "distinct ips" using assms by (cases ips) (auto simp: settled_def sees_def)
qed (use assms(2) in \<open>auto simp: settled_def sees_def\<close>)

lemma settled_card:
  assumes "settled ips s"
  shows "int (card (selfRecords s)) = shard_size (rank s) (int (length ips))"
proof -
  let ?n = "int (length ips)"
  have r: "1 \<le> rank s" "rank s \<le> ?n" using assms sees_rank by (auto simp: settled_def)
  have "distinct (shard_slice (rank s) ?n)" by (simp add: shard_slice_eq [OF r])
  then have "card (selfRecords s) = length (shard_slice (rank s) ?n)"
    using assms by (simp add: settled_def distinct_card)
  then show ?thesis
    using shard_bounds [OF r] shard_end [of "rank s" ?n] shard_size_nonneg [of ?n "rank s"] r
    by (simp add: shard_slice_eq [OF r])
qed

section \<open>Membership changes\<close>

lemma addNodes_sees:
  assumes "sees ips s" and "ip \<notin> set ips"
  shows "settled (ips @ [ip]) (addNodes ip s)"
proof -
  have "number_from k ips @ [(ip, int (k + length ips))] = number_from k (ips @ [ip])" for k
    by (induction k ips rule: number_from.induct) simp_all
  from this [of 1] have ns: "dset ip (nodeCount s + 1) (nodes s) = number_from 1 (ips @ [ip])"
    using assms by (subst dset_not_in) (simp_all add: sees_def add.commute)
  have old: "rank_of x (number_from k (ips @ [ip])) = rank_of x (number_from k ips)" if "x \<in> set ips" for k x
    using that by (induction k ips rule: number_from.induct) (auto simp: rank_of_def)
  have "addNodes ip s = updateRecordSet (s\<lparr>nodeCount := nodeCount s + 1,
      nodes := number_from 1 (ips @ [ip]), lastRank := int (length (ips @ [ip]))\<rparr>)"
    using assms ns by (simp add: addNodes_def Let_def sees_def)
  with assms old [of "selfIp s" 1] show ?thesis
    by (simp add: sees_settled sees_def del: number_from.simps)
qed

lemma removeNode_sees:
  assumes "sees ips s" and "ip \<in> set ips" and "ip \<noteq> selfIp s"
  shows "settled (filter (\<lambda>x. x \<noteq> ip) ips) (removeNode ip s)"
proof -
  let ?ips = "filter (\<lambda>x. x \<noteq> ip) ips"
  have d: "dkeys (ddel ip (number_from 1 ips)) = ?ips"
    by (simp add: dkeys_ddel)
  have "distinct ips" using assms(1) by (simp add: sees_def)
  then have "renumber (ddel ip (number_from 1 ips)) = number_from 1 ?ips"
    using d by (simp add: renumber_eq)
  moreover have "length (ddel ip (number_from 1 ips)) = length ?ips"
    by (metis d length_map)
  ultimately have "removeNode ip s = updateRecordSet (s\<lparr>nodes := number_from 1 ?ips,
      nodeCount := int (length ?ips), rank := rank_of (selfIp s) (number_from 1 ?ips),
      lastRank := int (length ?ips)\<rparr>)"
    using assms by (simp add: removeNode_def Let_def sees_def)
  with assms show ?thesis by (auto simp: sees_def intro!: sees_settled)
qed

section \<open>Start-up and removal produce such clusters\<close>

text \<open>The addresses found in the given files, in order; unreadable and blank files are skipped.\<close>

fun file_ips :: "(string \<Rightarrow> exn + string) \<Rightarrow> string list \<Rightarrow> string list" where
  "file_ips rd [] = []"
| "file_ips rd (fn # fns) =
     (case rd fn of Inl e \<Rightarrow> [] | Inr txt \<Rightarrow> if strip txt = [] then [] else [strip txt]) @ file_ips rd fns"

lemma load_ips_eq:
  assumes "\<forall>fn \<in> set fns. \<forall>e. rd fn = Inl e \<longrightarrow> is_OSError e"
    and "distinct (dkeys ns @ file_ips rd fns)"
  shows "load_ips rd fns ns (int k) =
    Inr (ns @ number_from (Suc k) (file_ips rd fns), int (k + length (file_ips rd fns)))"
  using assms
proof (induction fns arbitrary: ns k)
  case (Cons fn fns)
  show ?case
  proof (cases "rd fn")
    case (Inl e)
    with Cons show ?thesis by simp
  next
    case (Inr body)
    show ?thesis
    proof (cases "strip body = []")
      case True
      with Inr Cons show ?thesis by simp
    next
      case False
      then have "dset (strip body) (int k + 1) ns = ns @ [(strip body, int (Suc k))]"
        using Cons.prems Inr by (subst dset_not_in) auto
      with False Inr Cons.prems Cons.IH [of "ns @ [(strip body, int (Suc k))]" "Suc k"] show ?thesis
        by (simp add: add.commute [of 1])
    qed
  qed
qed simp

text \<open>The state of a node that starts from a directory of distinct addresses.\<close>

definition booted_state :: "boot_env \<Rightarrow> string list \<Rightarrow> string \<Rightarrow> states" where
  "booted_state env ips ip = updateState (updateRecordSet
     \<lparr>selfRecords = {}, selfIp = ip, records = Map.empty, nodes = number_from 1 ips,
      rank = rank_of ip (number_from 1 ips), lastRank = int (length ips), mLastRank = int (length ips),
      st_leader = True, beatInterval = 100, leaderDead = 300, nodeCount = int (length ips), leaderIp = ip,
      nodesTxt = Some (concat (map (\<lambda>ip. ip @ [NL]) ips)), statesTxt = None, statesTxtOk = stateTxtOk env\<rparr>)"

lemma booted_state_settled:
  "distinct ips \<Longrightarrow> ip \<in> set ips \<Longrightarrow> settled ips (booted_state env ips ip)"
  "selfIp (booted_state env ips ip) = ip" "leaderIp (booted_state env ips ip) = ip"
  by (simp_all add: booted_state_def sees_settled sees_def)

lemma States_init_eq:
  assumes "ips = file_ips (read_file env) (ip_files (listdir env))"
    and "distinct ips" and "ips \<noteq> []" and "nodesTxtOk env"
    and "\<forall>fn \<in> set (ip_files (listdir env)). \<forall>e. read_file env fn = Inl e \<longrightarrow> is_OSError e"
  shows "States_init (env\<lparr>advertised_ip := ip\<rparr>) = Inr (booted_state env ips ip)"
proof -
  have "load_ips (read_file env) (ip_files (listdir env)) [] 0 = Inr (number_from 1 ips, int (length ips))"
    using load_ips_eq [of "ip_files (listdir env)" "read_file env" "[]" 0] assms by simp
  moreover have "number_from 1 ips \<noteq> []" using assms(3) by (cases ips) simp_all
  ultimately show ?thesis
    using assms(4) by (simp add: States_init_def register_and_load_nodes_def booted_state_def Let_def del: map_map)
qed

text \<open>
  C11: start-up gives every letter exactly one owner. Nodes that start from the same directory,
  in which every readable \<^verbatim>\<open>self_ip_*.txt\<close> holds a different address and each node's own
  address is among them, all start, and each letter of the alphabet is in \<open>selfRecords\<close> of
  exactly one of them.
\<close>

theorem boot_partitions_alphabet:
  assumes "ips = file_ips (read_file env) (ip_files (listdir env))"
    and "distinct ips" and "ips \<noteq> []" and "nodesTxtOk env"
    and "\<forall>fn \<in> set (ip_files (listdir env)). \<forall>e. read_file env fn = Inl e \<longrightarrow> is_OSError e"
    and "c \<in> set ALPHABET"
  shows "\<exists>!ip. ip \<in> set ips \<and>
    (\<exists>s. States_init (env\<lparr>advertised_ip := ip\<rparr>) = Inr s \<and> c \<in> selfRecords s)"
proof -
  have "sharded (set ips) (\<lambda>ip. selfRecords (booted_state env ips ip))"
    using assms(2,3) by (intro cluster_sharded) (simp_all add: booted_state_settled)
  from sharded.owner_unique [OF this assms(6)] show ?thesis by (simp add: States_init_eq [OF assms(1-5)])
qed

definition example_env :: boot_env where
  "example_env = \<lparr>advertised_ip = [], listdir = [''self_ip_node2.txt'', ''nodes.txt'', ''self_ip_node1.txt''],
     read_file = (\<lambda>fn. if fn = ''self_ip_node1.txt'' then Inr ''10.0.0.7''
       else if fn = ''self_ip_node2.txt'' then Inr (''10.0.0.3'' @ [NL]) else Inl FileNotFoundError),
     nodesTxtOk = True, stateTxtOk = True\<rparr>"

theorem boot_partitions_alphabet_witness:
  "\<exists>!ip. ip \<in> set [''10.0.0.7'', ''10.0.0.3''] \<and>
    (\<exists>s. States_init (example_env\<lparr>advertised_ip := ip\<rparr>) = Inr s \<and> CHR ''q'' \<in> selfRecords s)"
proof (rule boot_partitions_alphabet)
  have files: "ip_files (listdir example_env) = [''self_ip_node1.txt'', ''self_ip_node2.txt'']"
    by code_simp
  show "[''10.0.0.7'', ''10.0.0.3''] = file_ips (read_file example_env) (ip_files (listdir example_env))"
    unfolding files by code_simp
  show "\<forall>fn \<in> set (ip_files (listdir example_env)). \<forall>e. read_file example_env fn = Inl e \<longrightarrow> is_OSError e"
    unfolding files by (simp add: example_env_def)
qed (simp_all add: example_env_def ALPHABET_def)

text \<open>
  Shards are balanced: a settled node of a cluster of \<open>n\<close> members holds
  \<open>26 div n\<close> letters, one more exactly when its rank is at most \<open>26 mod n\<close>; so the loads of
  two members of the same cluster differ by at most one letter.
\<close>

theorem shards_balanced:
  assumes "settled ips s" and "settled ips s'"
  shows "int (card (selfRecords s)) = 26 div int (length ips) + (if rank s \<le> 26 mod int (length ips) then 1 else 0)
    \<and> \<bar>int (card (selfRecords s)) - int (card (selfRecords s'))\<bar> \<le> 1"
  using settled_card [OF assms(1)] settled_card [OF assms(2)] by (simp add: shard_size_def)

text \<open>A member of the given cluster, right after start-up.\<close>

definition member_state :: "string list \<Rightarrow> string \<Rightarrow> states" where
  "member_state ips ip = updateState (updateRecordSet
     \<lparr>selfRecords = {}, selfIp = ip, records = Map.empty, nodes = number_from 1 ips,
      rank = rank_of ip (number_from 1 ips), lastRank = int (length ips), mLastRank = int (length ips),
      st_leader = True, beatInterval = 100, leaderDead = 300, nodeCount = int (length ips), leaderIp = ip,
      nodesTxt = Some (concat (map (\<lambda>ip. ip @ [NL]) ips)), statesTxt = None, statesTxtOk = True\<rparr>)"

lemma member_state_settled:
  "distinct ips \<Longrightarrow> ip \<in> set ips \<Longrightarrow> settled ips (member_state ips ip) \<and> selfIp (member_state ips ip) = ip"
  by (simp add: member_state_def sees_settled sees_def)

theorem shards_balanced_witness:
  "int (card (selfRecords (member_state [''10.0.0.1'', ''10.0.0.2'', ''10.0.0.3''] ''10.0.0.3''))) = 8"
proof -
  let ?ips = "[''10.0.0.1'', ''10.0.0.2'', ''10.0.0.3'']"
  have s: "settled ?ips (member_state ?ips ''10.0.0.3'')"
    using member_state_settled [of ?ips "''10.0.0.3''"] by simp
  have "rank (member_state ?ips ''10.0.0.3'') = 3"
    by (simp add: member_state_def updateState_def rank_of_def)
  then show ?thesis using shards_balanced [OF s s] by simp
qed

text \<open>Membership changes as operations, on a node and on the list of members.\<close>

datatype member_op = Join string | Leave string

fun member_step :: "member_op \<Rightarrow> states \<Rightarrow> states" where
  "member_step (Join ip) s = addNodes ip s"
| "member_step (Leave ip) s = removeNode ip s"

fun member_spec :: "member_op \<Rightarrow> string list \<Rightarrow> string list" where
  "member_spec (Join ip) ips = (if ip \<in> set ips then ips else ips @ [ip])"
| "member_spec (Leave ip) ips = filter (\<lambda>x. x \<noteq> ip) ips"

lemma member_step_settled:
  assumes "settled ips s" and "op \<noteq> Leave (selfIp s)"
  shows "settled (member_spec op ips) (member_step op s)"
proof (cases op)
  case (Join ip)
  with assms show ?thesis
    by (cases "ip \<in> set ips") (simp_all add: settled_def [of ips] addNodes_sees, simp add: settled_def addNodes_def sees_def)
next
  case (Leave ip)
  show ?thesis
  proof (cases "ip \<in> set ips")
    case True
    with Leave assms show ?thesis by (simp add: settled_def [of ips] removeNode_sees)
  next
    case False
    then have "filter (\<lambda>x. x \<noteq> ip) ips = ips" by (auto intro: filter_True)
    moreover have "removeNode ip s = s" using False assms(1) by (simp add: removeNode_def settled_def sees_def)
    ultimately show ?thesis using Leave assms(1) by simp
  qed
qed

lemma member_step_selfIp [simp]: "selfIp (member_step op s) = selfIp s"
  by (cases op) (simp_all add: addNodes_def removeNode_def Let_def)

lemma member_run_settled:
  "settled ips s \<Longrightarrow> Leave (selfIp s) \<notin> set ops \<Longrightarrow>
   settled (fold member_spec ops ips) (fold member_step ops s) \<and> selfIp (fold member_step ops s) = selfIp s"
proof (induction ops arbitrary: ips s)
  case (Cons op ops)
  have "settled (member_spec op ips) (member_step op s)"
    using Cons.prems by (intro member_step_settled) auto
  from Cons.IH [OF this] Cons.prems(2) show ?case by simp
qed simp

text \<open>
  Membership changes refine the list of members and keep the partition. If every member of
  a cluster is settled and all apply the same sequence of \<^verbatim>\<open>addNodes\<close> and \<^verbatim>\<open>removeNode\<close>
  operations, then among the old members that were not removed each is settled on the resulting
  member list, that is, numbered by position with the shard of that number; and if nobody
  joined, each letter has exactly one owner among them.
\<close>

theorem membership_keeps_partition:
  assumes "\<forall>ip \<in> set ips. settled ips (st ip) \<and> selfIp (st ip) = ip"
    and "final = fold member_spec ops ips" and "final \<noteq> []"
    and "\<forall>ip \<in> set final. ip \<in> set ips \<and> Leave ip \<notin> set ops" and "c \<in> set ALPHABET"
  shows "\<exists>!ip. ip \<in> set final \<and> settled final (fold member_step ops (st ip))
    \<and> c \<in> selfRecords (fold member_step ops (st ip))"
proof -
  have all: "settled final (fold member_step ops (st ip)) \<and> selfIp (fold member_step ops (st ip)) = ip"
    if "ip \<in> set final" for ip
    using member_run_settled [of ips "st ip" ops] assms(1,2,4) that by auto
  then have "sharded (set final) (\<lambda>ip. selfRecords (fold member_step ops (st ip)))"
    using assms(3) by (intro cluster_sharded) simp_all
  from sharded.owner_unique [OF this assms(5)] all show ?thesis by (metis (no_types, lifting))
qed

theorem membership_keeps_partition_witness:
  "\<exists>!ip. ip \<in> set [''10.0.0.1'', ''10.0.0.3''] \<and>
    settled [''10.0.0.1'', ''10.0.0.3''] (fold member_step [Leave ''10.0.0.2'']
      (member_state [''10.0.0.1'', ''10.0.0.2'', ''10.0.0.3''] ip))
    \<and> CHR ''m'' \<in> selfRecords (fold member_step [Leave ''10.0.0.2'']
      (member_state [''10.0.0.1'', ''10.0.0.2'', ''10.0.0.3''] ip))"
proof (rule membership_keeps_partition)
  show "\<forall>ip \<in> set [''10.0.0.1'', ''10.0.0.2'', ''10.0.0.3''].
      settled [''10.0.0.1'', ''10.0.0.2'', ''10.0.0.3''] (member_state [''10.0.0.1'', ''10.0.0.2'', ''10.0.0.3''] ip)
      \<and> selfIp (member_state [''10.0.0.1'', ''10.0.0.2'', ''10.0.0.3''] ip) = ip"
    using member_state_settled by fastforce
qed (simp_all add: ALPHABET_def)

end
