(* ===== verification/Ipv4.thy ===== *)
theory Ipv4
  imports Py_Prelude
begin

text \<open>
  What the election uses of the standard library's \<^verbatim>\<open>ipaddress.IPv4Address\<close>: construction
  from text (four decimal octets without leading zeros, anything else a \<^verbatim>\<open>ValueError\<close>) and
  the order of addresses, as an instance of \<open>linorder\<close>. Text and address determine each
  other.
\<close>

datatype ipv4 = IPv4 (ip_value: nat)

instantiation ipv4 :: linorder
begin

definition less_eq_ipv4 :: "ipv4 \<Rightarrow> ipv4 \<Rightarrow> bool" where
  "less_eq_ipv4 a b \<longleftrightarrow> ip_value a \<le> ip_value b"

definition less_ipv4 :: "ipv4 \<Rightarrow> ipv4 \<Rightarrow> bool" where
  "less_ipv4 a b \<longleftrightarrow> ip_value a < ip_value b"

instance
  by standard (auto simp: less_eq_ipv4_def less_ipv4_def ipv4.expand)

end

definition parse_octet :: "string \<Rightarrow> nat option" where
  "parse_octet s =
     (if s = [] \<or> \<not> list_all is_digit s \<or> length s > 3 \<or> (s \<noteq> ''0'' \<and> hd s = CHR ''0'') then None
      else (case int_digits False 0 s of
              None \<Rightarrow> None
            | Some n \<Rightarrow> if n > 255 then None else Some n))"

definition IPv4Address :: "string \<Rightarrow> ipv4 option" where
  "IPv4Address s =
     (case map parse_octet (split_on (CHR ''.'') s) of
        [Some a, Some b, Some c, Some d] \<Rightarrow> Some (IPv4 (((a * 256 + b) * 256 + c) * 256 + d))
      | _ \<Rightarrow> None)"

section \<open>Text and address determine each other\<close>

lemma digit_char_val: "is_digit c \<Longrightarrow> digit_char (digit_val c) = c"
  by (auto simp: is_digit_def digit_char_def digit_val_def Let_def)

lemma digit_val_less: "is_digit c \<Longrightarrow> digit_val c < 10"
  by (auto simp: is_digit_def digit_val_def Let_def)

lemma digit_val_0: "is_digit c \<Longrightarrow> digit_val c = 0 \<longleftrightarrow> c = CHR ''0''"
proof
  assume "is_digit c" and "digit_val c = 0"
  then have "c = digit_char 0" using digit_char_val [of c] by simp
  moreover have "digit_char 0 = CHR ''0''" by code_simp
  ultimately show "c = CHR ''0''" by simp
qed (simp add: digit_val_def)

lemma int_digits_value:
  "\<forall>c \<in> set s. is_digit c \<Longrightarrow> s \<noteq> [] \<or> seen \<Longrightarrow> \<exists>n. int_digits seen acc s = Some n \<and> acc \<le> n"
proof (induction s arbitrary: seen acc)
  case (Cons c s)
  from Cons.IH [of True "10 * acc + digit_val c"] Cons.prems
  obtain n where "int_digits True (10 * acc + digit_val c) s = Some n" "10 * acc + digit_val c \<le> n"
    by auto
  moreover from this(2) have "acc \<le> n" by linarith
  ultimately show ?case using Cons.prems by simp
qed simp

lemma str_nat_int_digits:
  assumes "\<forall>c \<in> set s. is_digit c" and "s \<noteq> []" and "hd s \<noteq> CHR ''0'' \<or> s = ''0''"
    and "int_digits False 0 s = Some n"
  shows "str_nat n = s"
  using assms
proof (induction s arbitrary: n rule: rev_induct)
  case (snoc c s)
  then have dc: "is_digit c" by simp
  show ?case
  proof (cases "s = []")
    case True
    with snoc.prems dc have "n = digit_val c" by simp
    with True dc show ?thesis by (subst str_nat.simps) (simp add: digit_val_less digit_char_val)
  next
    case False
    from False snoc.prems have h: "hd s \<noteq> CHR ''0''" and ds: "\<forall>c \<in> set s. is_digit c"
      by (auto simp: neq_Nil_conv)
    then obtain m where m: "int_digits False 0 s = Some m"
      using int_digits_value [of s False 0] False by auto
    then have "str_nat m = s" using snoc.IH [of m] False h ds by simp
    moreover have "n = 10 * m + digit_val c"
      using snoc.prems(4) int_digits_append [of s False 0 "[c]"] ds False m dc by simp
    moreover have "m \<noteq> 0"
    proof
      assume "m = 0"
      obtain x xs where s: "s = x # xs" using False by (cases s) auto
      then have "\<exists>k. int_digits True (digit_val x) xs = Some k \<and> digit_val x \<le> k"
        using int_digits_value [of xs True "digit_val x"] ds by simp
      with m \<open>m = 0\<close> s ds have "digit_val x = 0" by auto
      with s h ds show False by (simp add: digit_val_0)
    qed
    ultimately show ?thesis
      using digit_val_less [OF dc] dc by (subst str_nat.simps) (simp add: digit_char_val)
  qed
qed simp

lemma parse_octet_Some:
  assumes "parse_octet s = Some n"
  shows "s = str_nat n \<and> n < 256"
  using assms str_nat_int_digits [of s n]
  by (auto simp: parse_octet_def list_all_iff split: if_splits option.splits)

fun join_with :: "char \<Rightarrow> string list \<Rightarrow> string" where
  "join_with c [] = []"
| "join_with c [x] = x"
| "join_with c (x # y # xs) = x @ c # join_with c (y # xs)"

lemma join_split [simp]: "join_with c (split_on c s) = s"
proof (induction s)
  case (Cons x xs)
  obtain y ys where sp: "split_on c xs = y # ys"
    using split_on_not_Nil by (cases "split_on c xs") blast+
  with Cons show ?case by (cases ys) auto
qed simp

definition dotted :: "nat \<Rightarrow> nat \<Rightarrow> nat \<Rightarrow> nat \<Rightarrow> string" where
  "dotted a b c d = join_with (CHR ''.'') [str_nat a, str_nat b, str_nat c, str_nat d]"

lemma IPv4Address_Some:
  assumes "IPv4Address s = Some ip"
  obtains a b c d where "a < 256" "b < 256" "c < 256" "d < 256" "s = dotted a b c d"
    "ip = IPv4 (((a * 256 + b) * 256 + c) * 256 + d)"
proof -
  from assms obtain a b c d where
    m: "map parse_octet (split_on (CHR ''.'') s) = [Some a, Some b, Some c, Some d]"
    and ip: "ip = IPv4 (((a * 256 + b) * 256 + c) * 256 + d)"
    by (auto simp: IPv4Address_def split: list.splits option.splits)
  then obtain sa sb sc sd where sp: "split_on (CHR ''.'') s = [sa, sb, sc, sd]"
    and p: "parse_octet sa = Some a" "parse_octet sb = Some b" "parse_octet sc = Some c" "parse_octet sd = Some d"
    by (auto simp: map_eq_Cons_conv)
  note o = p [THEN parse_octet_Some]
  have "s = join_with (CHR ''.'') [sa, sb, sc, sd]"
    by (metis join_split sp)
  then have "s = dotted a b c d" using o unfolding dotted_def by simp
  with o ip show thesis by (intro that [of a b c d]) auto
qed

lemma base_256:
  assumes "x * 256 + d = y * 256 + e" and "d < 256" and "e < (256 :: nat)"
  shows "x = y \<and> d = e"
proof -
  have "(x * 256 + d) mod 256 = d" and "(y * 256 + e) mod 256 = e" using assms(2,3) by simp_all
  with assms(1) have "d = e" by simp
  with assms(1) show ?thesis by simp
qed

text \<open>Two texts that denote the same address are the same text.\<close>

lemma IPv4Address_inj:
  assumes "IPv4Address s = Some ip" and "IPv4Address t = Some ip"
  shows "s = t"
proof -
  obtain a b c d where s: "a < 256" "b < 256" "c < 256" "d < 256" "s = dotted a b c d"
    "ip = IPv4 (((a * 256 + b) * 256 + c) * 256 + d)"
    using assms(1) by (rule IPv4Address_Some)
  obtain a' b' c' d' where t: "a' < 256" "b' < 256" "c' < 256" "d' < 256" "t = dotted a' b' c' d'"
    "ip = IPv4 (((a' * 256 + b') * 256 + c') * 256 + d')"
    using assms(2) by (rule IPv4Address_Some)
  from s(6) t(6) have "((a * 256 + b) * 256 + c) * 256 + d = ((a' * 256 + b') * 256 + c') * 256 + d'"
    by simp
  from base_256 [OF this s(4) t(4)]
  have d: "d = d'" and "(a * 256 + b) * 256 + c = (a' * 256 + b') * 256 + c'" by simp_all
  from base_256 [OF this(2) s(3) t(3)]
  have c: "c = c'" and "a * 256 + b = a' * 256 + b'" by simp_all
  from base_256 [OF this(2) s(2) t(2)] c d have "a = a' \<and> b = b' \<and> c = c' \<and> d = d'" by simp
  with s(5) t(5) show ?thesis by simp
qed

lemma IPv4Address_chars:
  assumes "IPv4Address s = Some ip"
  shows "s \<noteq> []" and "c \<in> set s \<Longrightarrow> is_digit c \<or> c = CHR ''.''"
proof -
  obtain a b e d where "s = dotted a b e d" using assms by (rule IPv4Address_Some)
  then show "s \<noteq> []" and "c \<in> set s \<Longrightarrow> is_digit c \<or> c = CHR ''.''"
    by (auto simp: dotted_def dest: str_nat_digits)
qed

lemma IPv4Address_stripped: "IPv4Address s = Some ip \<Longrightarrow> stripped s"
proof -
  assume ip: "IPv4Address s = Some ip"
  have "\<not> py_isspace c" if "c \<in> set s" for c
    using IPv4Address_chars(2) [OF ip that] by (auto dest: digit_not_space simp: py_isspace_def)
  then show ?thesis by (auto simp: stripped_def)
qed

text \<open>Every address has a text: printing four octets and parsing them back.\<close>

lemma hd_str_nat: "0 < n \<Longrightarrow> hd (str_nat n) \<noteq> CHR ''0''"
proof (induction n rule: str_nat.induct)
  case (1 n)
  show ?case
  proof (cases "n < 10")
    case True
    then show ?thesis
      using 1(2) digit_val_0 [of "digit_char n"] by (subst str_nat.simps) auto
  next
    case False
    then show ?thesis using 1 by (subst str_nat.simps) simp
  qed
qed

lemma length_str_nat: "n < 1000 \<Longrightarrow> length (str_nat n) \<le> 3"
proof -
  assume "n < 1000"
  have one: "length (str_nat m) = 1" if "m < 10" for m
    using that by (subst str_nat.simps) simp
  have two: "length (str_nat m) \<le> 2" if "m < 100" for m
    using that one [of m] one [of "m div 10"] by (cases "m < 10") (simp, subst str_nat.simps, simp)
  from \<open>n < 1000\<close> two [of "n div 10"] one [of n] show ?thesis
    by (cases "n < 10") (simp, subst str_nat.simps, simp)
qed

lemma parse_octet_str_nat:
  assumes "n < 256"
  shows "parse_octet (str_nat n) = Some n"
proof -
  have "str_nat 0 = ''0''" by code_simp
  then have "str_nat n = ''0'' \<or> hd (str_nat n) \<noteq> CHR ''0''" using hd_str_nat by (cases "n = 0") auto
  with assms show ?thesis
    using length_str_nat [of n] str_nat_digits
    by (auto simp: parse_octet_def list_all_iff int_digits_str_nat)
qed

lemma IPv4Address_dotted:
  assumes "a < 256" and "b < 256" and "c < 256" and "d < 256"
  shows "IPv4Address (dotted a b c d) = Some (IPv4 (((a * 256 + b) * 256 + c) * 256 + d))"
proof -
  have dot: "CHR ''.'' \<notin> set (str_nat n)" for n
    using str_nat_digits digit_not_special by fastforce
  have "split_on (CHR ''.'') (dotted a b c d) = [str_nat a, str_nat b, str_nat c, str_nat d]"
    by (simp add: dotted_def split_on_append split_on_single dot)
  with assms show ?thesis by (simp add: IPv4Address_def parse_octet_str_nat)
qed

end
