(* ===== verification/Raft.thy ===== *)
theory Raft
  imports Node_State Ipv4
begin

text \<open>
  The coordinator of a data-plane node (\<^verbatim>\<open>data_plane/raft/_raft.py\<close>, class \<^verbatim>\<open>Raft\<close>): the
  handling of incoming heartbeats, one round of the heart thread \<^verbatim>\<open>raftHeart\<close>, and the
  sending side. Clock readings are arguments. A fire-and-forget send never fails for the
  caller (the code swallows every exception), so it only appends to the list \<open>net\<close> of
  packets the node tried to send. The answers of other nodes to a synchronous read are a
  parameter \<open>ask\<close> of \<^verbatim>\<open>sendRead\<close>, where \<open>None\<close> is an unreachable or failing peer.

  The record \<open>core\<close> holds what \<^verbatim>\<open>Raft\<close> reads and writes; the other components extend it.
\<close>

section \<open>Data\<close>

record raft =
  currLogNum :: int
  followerCount :: int
  leader :: bool
  rf_beatInterval :: time
  rf_leaderDead :: time
  beatSent :: bool
  last_beat_received :: time

type_synonym packet = "string \<times> nat \<times> string"

record core =
  st :: states
  rf :: raft
  net :: "packet list"

definition raft_init :: "time \<Rightarrow> states \<Rightarrow> raft" where
  "raft_init now s =
     \<lparr>currLogNum = 0, followerCount = max (int (length (nodes s)) - 1) 0, leader = True,
      rf_beatInterval = beatInterval s, rf_leaderDead = leaderDead s, beatSent = False,
      last_beat_received = now\<rparr>"

section \<open>Sending\<close>

definition send_raw :: "string \<Rightarrow> nat \<Rightarrow> string \<Rightarrow> 'a core_scheme \<Rightarrow> 'a core_scheme" where
  "send_raw ip port msg n = n\<lparr>net := net n @ [(ip, port, msg)]\<rparr>"

text \<open>The heartbeat text \<^verbatim>\<open>selfIp;rank;lastRank\<close> with its line feed.\<close>

definition beat_msg :: "string \<Rightarrow> int \<Rightarrow> int \<Rightarrow> string" where
  "beat_msg ip r n = ip @ CHR '';'' # str_int r @ CHR '';'' # str_int n @ [NL]"

definition sendBeat :: "'a core_scheme \<Rightarrow> 'a core_scheme" where
  "sendBeat n =
     fold (\<lambda>(ip, r) m.
         if ip = selfIp (st m) then m
         else send_raw ip 7001 (beat_msg (selfIp (st m)) r (lastRank (st m))) m)
       (nodes (st n)) (n\<lparr>rf := (rf n)\<lparr>beatSent := True\<rparr>\<rparr>)"

definition sendToFollower :: "nat \<Rightarrow> string \<Rightarrow> 'a core_scheme \<Rightarrow> 'a core_scheme" where
  "sendToFollower port msg n =
     fold (\<lambda>ip m. if ip = selfIp (st m) then m else send_raw ip port (msg @ [NL]) m)
       (dkeys (nodes (st n))) n"

definition sendLog :: "string \<Rightarrow> string \<Rightarrow> 'a core_scheme \<Rightarrow> outcome \<times> 'a core_scheme" where
  "sendLog entry num n =
     (case py_int num of
        None \<Rightarrow> (Raised ValueError, n)
      | Some i \<Rightarrow> (Done, sendToFollower 9000 (''2;'' @ entry) (n\<lparr>rf := (rf n)\<lparr>currLogNum := i\<rparr>\<rparr>)))"

definition sendAck :: "string \<Rightarrow> 'a core_scheme \<Rightarrow> 'a core_scheme" where
  "sendAck num n =
     (if leader (rf n) then n else send_raw (leaderIp (st n)) 9000 (''3;'' @ num @ [NL]) n)"

fun ask_peers :: "(string \<Rightarrow> string \<Rightarrow> string option) \<Rightarrow> string \<Rightarrow> string \<Rightarrow> string list \<Rightarrow> string" where
  "ask_peers ask self domain [] = ''N/A''"
| "ask_peers ask self domain (ip # ips) =
     (if ip = self then ask_peers ask self domain ips
      else (case ask ip (''PEER:'' @ domain @ [NL]) of
              None \<Rightarrow> ask_peers ask self domain ips
            | Some raw \<Rightarrow>
                let response = strip raw
                in if response \<noteq> [] \<and> response \<noteq> ''N/A'' then response
                   else ask_peers ask self domain ips))"

definition sendRead :: "(string \<Rightarrow> string \<Rightarrow> string option) \<Rightarrow> string \<Rightarrow> 'a core_scheme \<Rightarrow> string" where
  "sendRead ask domain n =
     (if \<not> leader (rf n) then ''N/A''
      else ask_peers ask (selfIp (st n)) domain (dkeys (nodes (st n))))"

section \<open>Incoming heartbeats\<close>

definition parse_beat :: "string \<Rightarrow> (string \<times> int \<times> int) option" where
  "parse_beat beat =
     (case split_on (CHR '';'') (strip beat) of
        ip # a # b # _ \<Rightarrow>
          (case py_int a of
             None \<Rightarrow> None
           | Some r \<Rightarrow> (case py_int b of None \<Rightarrow> None | Some n \<Rightarrow> Some (ip, r, n)))
      | _ \<Rightarrow> None)"

definition register_sender :: "string \<Rightarrow> 'a core_scheme \<Rightarrow> 'a core_scheme" where
  "register_sender ip n =
     (let s = st n;
          s' = (if ip \<notin> set (dkeys (nodes s))
                then s\<lparr>mLastRank := mLastRank s + 1, nodes := dset ip (mLastRank s + 1) (nodes s)\<rparr>
                else s)
      in n\<lparr>st := s', rf := (rf n)\<lparr>followerCount := max (int (length (nodes s')) - 1) 0\<rparr>\<rparr>)"

definition beatHandler :: "time \<Rightarrow> string \<Rightarrow> 'a core_scheme \<Rightarrow> 'a core_scheme" where
  "beatHandler now beat n0 =
     (let n = n0\<lparr>rf := (rf n0)\<lparr>last_beat_received := now\<rparr>\<rparr>
      in case parse_beat beat of
           None \<Rightarrow> n
         | Some (ip, r, lr) \<Rightarrow>
             let n1 = register_sender ip n
             in case (IPv4Address ip, IPv4Address (leaderIp (st n1))) of
                  (Some ldIp, Some myIp) \<Rightarrow>
                    let n2 = (if ldIp > myIp
                              then n1\<lparr>rf := (rf n1)\<lparr>leader := False\<rparr>, st := (st n1)\<lparr>leaderIp := ip\<rparr>\<rparr>
                              else n1)
                    in if rank (st n2) \<noteq> r \<or> lastRank (st n2) \<noteq> lr
                       then n2\<lparr>st := updateRank r lr (st n2)\<rparr> else n2
                | _ \<Rightarrow> n1)"

section \<open>The heart thread\<close>

definition promote :: "time \<Rightarrow> 'a core_scheme \<Rightarrow> 'a core_scheme" where
  "promote now n =
     (let s1 = removeNode (leaderIp (st n)) (st n);
          s2 = s1\<lparr>leaderIp := selfIp s1\<rparr>;
          s3 = updateRank (rank_of (selfIp s2) (nodes s2)) (lastRank s2) s2;
          n' = sendBeat (n\<lparr>st := s3, rf := (rf n)\<lparr>leader := True\<rparr>\<rparr>)
      in n'\<lparr>rf := (rf n')\<lparr>last_beat_received := now\<rparr>\<rparr>)"

text \<open>One round of the loop, at clock reading \<open>now\<close>, with the loop's \<^verbatim>\<open>next_beat_time\<close>.\<close>

definition raftHeart_round :: "time \<Rightarrow> time \<times> 'a core_scheme \<Rightarrow> time \<times> 'a core_scheme" where
  "raftHeart_round now c =
     (let (next, n) = c;
          (next1, n1) = (if now \<ge> next
                         then (now + beatInterval (st n), if leader (rf n) then sendBeat n else n)
                         else (next, n))
      in if \<not> leader (rf n1) \<and> now - last_beat_received (rf n1) \<ge> leaderDead (st n1)
         then (now + beatInterval (st (promote now n1)), promote now n1)
         else (next1, n1))"

definition raftHeart :: "time list \<Rightarrow> time \<times> 'a core_scheme \<Rightarrow> time \<times> 'a core_scheme" where
  "raftHeart nows c = fold raftHeart_round nows c"

definition heart_start :: "time \<Rightarrow> 'a core_scheme \<Rightarrow> time \<times> 'a core_scheme" where
  "heart_start now n = (now + rf_beatInterval (rf n), n)"

section \<open>What the operations do\<close>

lemma send_raw_fields [simp]:
  "st (send_raw ip p m n) = st n" "rf (send_raw ip p m n) = rf n"
  "net (send_raw ip p m n) = net n @ [(ip, p, m)]" "core.more (send_raw ip p m n) = core.more n"
  by (simp_all add: send_raw_def)

text \<open>The heartbeats a node sends: one to every other node it knows.\<close>

definition beats_of :: "states \<Rightarrow> packet list" where
  "beats_of s = map (\<lambda>(ip, r). (ip, 7001, beat_msg (selfIp s) r (lastRank s)))
     (filter (\<lambda>(ip, r). ip \<noteq> selfIp s) (nodes s))"

lemma sendBeat_eq: "sendBeat n = n\<lparr>rf := (rf n)\<lparr>beatSent := True\<rparr>, net := net n @ beats_of (st n)\<rparr>"
proof -
  let ?f = "\<lambda>(ip, r) m. if ip = selfIp (st m) then m
    else send_raw ip 7001 (beat_msg (selfIp (st m)) r (lastRank (st m))) m"
  have "fold ?f ns m = m\<lparr>net := net m @ map (\<lambda>(ip, r). (ip, 7001, beat_msg (selfIp (st m)) r (lastRank (st m))))
     (filter (\<lambda>(ip, r). ip \<noteq> selfIp (st m)) ns)\<rparr>" for ns and m :: "'a core_scheme"
    by (induction ns arbitrary: m) (auto simp: send_raw_def)
  then show ?thesis by (simp add: sendBeat_def beats_of_def)
qed

lemma sendToFollower_eq:
  "sendToFollower port msg n = n\<lparr>net := net n @
     map (\<lambda>ip. (ip, port, msg @ [NL])) (filter (\<lambda>ip. ip \<noteq> selfIp (st n)) (dkeys (nodes (st n))))\<rparr>"
proof -
  let ?f = "\<lambda>ip m. if ip = selfIp (st m) then m else send_raw ip port (msg @ [NL]) m"
  have "fold ?f ips m = m\<lparr>net := net m @ map (\<lambda>ip. (ip, port, msg @ [NL])) (filter (\<lambda>ip. ip \<noteq> selfIp (st m)) ips)\<rparr>"
    for ips and m :: "'a core_scheme"
    by (induction ips arbitrary: m) (auto simp: send_raw_def)
  then show ?thesis by (simp add: sendToFollower_def)
qed

lemma sendBeat_fields [simp]:
  "st (sendBeat n) = st n" "leader (rf (sendBeat n)) = leader (rf n)"
  "last_beat_received (rf (sendBeat n)) = last_beat_received (rf n)"
  "currLogNum (rf (sendBeat n)) = currLogNum (rf n)"
  "net (sendBeat n) = net n @ beats_of (st n)"
  by (simp_all add: sendBeat_eq)

text \<open>A number whose decimal text \<^verbatim>\<open>int\<close> accepts.\<close>

definition printable :: "int \<Rightarrow> bool" where
  "printable i \<longleftrightarrow> length (str_int i) \<le> int_max_str_digits"

lemma semi_free_int: "CHR '';'' \<notin> set (str_int i)"
  using str_int_chars [of "CHR '';''" i] digit_not_special [of "CHR '';''"] by auto

lemma split_beat_msg:
  assumes "IPv4Address ip = Some a"
  shows "split_on (CHR '';'') (strip (beat_msg ip r lr)) = [ip, str_int r, str_int lr]"
proof -
  let ?m = "CHR '';'' # str_int r @ [CHR '';'']"
  have semi: "CHR '';'' \<notin> set ip"
    using IPv4Address_chars(2) [OF assms, of "CHR '';''"] digit_not_special [of "CHR '';''"] by auto
  have "stripped (ip @ ?m @ str_int lr)"
    using IPv4Address_stripped [OF assms] IPv4Address_chars(1) [OF assms]
    by (intro stripped_append) simp_all
  then have "strip (beat_msg ip r lr) = ip @ ?m @ str_int lr"
    using strip_snoc_space [of NL "ip @ ?m @ str_int lr"] by (simp add: beat_msg_def strip_id)
  then show ?thesis using semi semi_free_int by (simp add: split_on_append split_on_single)
qed

text \<open>A heartbeat survives the trip: what is printed is what is parsed.\<close>

lemma parse_beat_msg:
  assumes "IPv4Address ip = Some a" and "printable r" and "printable lr"
  shows "parse_beat (beat_msg ip r lr) = Some (ip, r, lr)"
  using split_beat_msg [OF assms(1), of r lr] assms(2,3)
  by (simp add: parse_beat_def py_int_str_int printable_def)

text \<open>The effect of a well-formed heartbeat, and of any other.\<close>

definition after_beat :: "time \<Rightarrow> string \<Rightarrow> ipv4 \<Rightarrow> ipv4 \<Rightarrow> int \<Rightarrow> int \<Rightarrow> 'a core_scheme \<Rightarrow> 'a core_scheme" where
  "after_beat now ip ldIp myIp r lr n =
     (let n1 = register_sender ip (n\<lparr>rf := (rf n)\<lparr>last_beat_received := now\<rparr>\<rparr>);
          n2 = (if ldIp > myIp
                then n1\<lparr>rf := (rf n1)\<lparr>leader := False\<rparr>, st := (st n1)\<lparr>leaderIp := ip\<rparr>\<rparr> else n1)
      in if rank (st n2) \<noteq> r \<or> lastRank (st n2) \<noteq> lr
         then n2\<lparr>st := updateRank r lr (st n2)\<rparr> else n2)"

lemma register_sender_fields [simp]:
  "leader (rf (register_sender ip n)) = leader (rf n)"
  "last_beat_received (rf (register_sender ip n)) = last_beat_received (rf n)"
  "currLogNum (rf (register_sender ip n)) = currLogNum (rf n)"
  "leaderIp (st (register_sender ip n)) = leaderIp (st n)"
  "selfIp (st (register_sender ip n)) = selfIp (st n)"
  "selfRecords (st (register_sender ip n)) = selfRecords (st n)"
  "nodeCount (st (register_sender ip n)) = nodeCount (st n)"
  "rank (st (register_sender ip n)) = rank (st n)"
  "lastRank (st (register_sender ip n)) = lastRank (st n)"
  "statesTxt (st (register_sender ip n)) = statesTxt (st n)"
  "leaderDead (st (register_sender ip n)) = leaderDead (st n)"
  "net (register_sender ip n) = net n"
  by (simp_all add: register_sender_def Let_def)

lemma register_known: "ip \<in> set (dkeys (nodes (st n))) \<Longrightarrow> nodes (st (register_sender ip n)) = nodes (st n)"
  by (simp add: register_sender_def)

lemma beatHandler_parsed:
  assumes "parse_beat beat = Some (ip, r, lr)" and "IPv4Address ip = Some a"
    and "IPv4Address (leaderIp (st n)) = Some b"
  shows "beatHandler now beat n = after_beat now ip a b r lr n"
  using assms by (simp add: beatHandler_def after_beat_def Let_def)

text \<open>The address a heartbeat stands for, if it is well formed.\<close>

definition beat_addr :: "string \<Rightarrow> ipv4 option" where
  "beat_addr beat = (case parse_beat beat of None \<Rightarrow> None | Some (ip, r, lr) \<Rightarrow> IPv4Address ip)"

lemma updateRank_fields [simp]:
  "leaderIp (updateRank r lr s) = leaderIp s" "selfIp (updateRank r lr s) = selfIp s"
  "nodes (updateRank r lr s) = nodes s" "nodeCount (updateRank r lr s) = nodeCount s"
  "rank (updateRank r lr s) = r" "lastRank (updateRank r lr s) = lr"
  "beatInterval (updateRank r lr s) = beatInterval s" "leaderDead (updateRank r lr s) = leaderDead s"
  "records (updateRank r lr s) = records s"
  by (simp_all add: updateRank_def)

lemma after_beat_fields:
  "leader (rf (after_beat now ip a b r lr n)) \<longleftrightarrow> leader (rf n) \<and> a \<le> b"
  "leaderIp (st (after_beat now ip a b r lr n)) = (if a > b then ip else leaderIp (st n))"
  "selfIp (st (after_beat now ip a b r lr n)) = selfIp (st n)"
  "rank (st (after_beat now ip a b r lr n)) = r"
  "lastRank (st (after_beat now ip a b r lr n)) = lr"
  "nodeCount (st (after_beat now ip a b r lr n)) = nodeCount (st n)"
  "last_beat_received (rf (after_beat now ip a b r lr n)) = now"
  "leaderDead (st (after_beat now ip a b r lr n)) = leaderDead (st n)"
  by (auto simp: after_beat_def Let_def)

lemma beat_step:
  assumes "IPv4Address (leaderIp (st n)) = Some b"
  shows "IPv4Address (leaderIp (st (beatHandler now beat n))) =
      Some (case beat_addr beat of None \<Rightarrow> b | Some a \<Rightarrow> max a b)
    \<and> (leader (rf (beatHandler now beat n)) \<longleftrightarrow>
        leader (rf n) \<and> (case beat_addr beat of None \<Rightarrow> True | Some a \<Rightarrow> a \<le> b))"
proof (cases "parse_beat beat")
  case None
  then show ?thesis using assms by (simp add: beatHandler_def beat_addr_def)
next
  case (Some p)
  obtain ip r lr where p: "p = (ip, r, lr)" by (cases p)
  show ?thesis
  proof (cases "IPv4Address ip")
    case None
    then show ?thesis using assms Some p by (simp add: beatHandler_def beat_addr_def Let_def)
  next
    case ip: (Some a)
    have "beat_addr beat = Some a" using Some p ip by (simp add: beat_addr_def)
    moreover have "beatHandler now beat n = after_beat now ip a b r lr n"
      using Some p ip assms by (simp add: beatHandler_parsed)
    ultimately show ?thesis
      using assms ip by (auto simp: after_beat_fields max_def)
  qed
qed

section \<open>Properties of the election\<close>

definition beats_run :: "(time \<times> string) list \<Rightarrow> 'a core_scheme \<Rightarrow> 'a core_scheme" where
  "beats_run bs n = fold (\<lambda>(t, b). beatHandler t b) bs n"

definition beat_addrs :: "(time \<times> string) list \<Rightarrow> ipv4 list" where
  "beat_addrs bs = List.map_filter (\<lambda>(t, b). beat_addr b) bs"

lemma beat_addrs_Cons:
  "beat_addrs ((t, b) # bs) = (case beat_addr b of None \<Rightarrow> [] | Some a \<Rightarrow> [a]) @ beat_addrs bs"
  by (simp add: beat_addrs_def List.map_filter_simps split: option.split)

lemma beats_run_Cons: "beats_run ((t, b) # bs) n = beats_run bs (beatHandler t b n)"
  by (simp add: beats_run_def)

text \<open>
  The highest address wins. Whatever heartbeats arrive in whatever order, malformed ones
  included, a node whose \<open>leaderIp\<close> is a valid address ends up following the greatest address
  among it and all well-formed heartbeats, and it is still leader exactly when it was leader
  and none of them was greater than the address it followed at the start.
\<close>

theorem highest_address_wins:
  assumes "IPv4Address (leaderIp (st n)) = Some a0"
  shows "IPv4Address (leaderIp (st (beats_run bs n))) = Some (fold max (beat_addrs bs) a0)
    \<and> (leader (rf (beats_run bs n)) \<longleftrightarrow> leader (rf n) \<and> (\<forall>a \<in> set (beat_addrs bs). a \<le> a0))"
  using assms
proof (induction bs arbitrary: n a0)
  case Nil
  then show ?case by (simp add: beats_run_def beat_addrs_def List.map_filter_simps)
next
  case (Cons tb bs)
  obtain t b where tb: "tb = (t, b)" by (cases tb)
  note step = beat_step [OF Cons.prems, of t b]
  show ?case
  proof (cases "beat_addr b")
    case None
    with step Cons.IH [of "beatHandler t b n" a0] show ?thesis
      by (simp add: tb beats_run_Cons beat_addrs_Cons)
  next
    case (Some a)
    with step Cons.IH [of "beatHandler t b n" "max a a0"] show ?thesis
      by (auto simp: tb beats_run_Cons beat_addrs_Cons max_def)
  qed
qed

lemma example_addresses:
  "IPv4Address ''10.0.0.3'' = Some (IPv4 167772163)" "IPv4Address ''10.0.0.9'' = Some (IPv4 167772169)"
  "IPv4Address ''10.0.0.7'' = Some (IPv4 167772167)"
proof -
  have "''10.0.0.3'' = dotted 10 0 0 3" "''10.0.0.9'' = dotted 10 0 0 9" "''10.0.0.7'' = dotted 10 0 0 7" by code_simp+
  then show "IPv4Address ''10.0.0.3'' = Some (IPv4 167772163)" "IPv4Address ''10.0.0.9'' = Some (IPv4 167772169)"
    "IPv4Address ''10.0.0.7'' = Some (IPv4 167772167)"
    using IPv4Address_dotted [of 10 0 0 3] IPv4Address_dotted [of 10 0 0 9] IPv4Address_dotted [of 10 0 0 7] by simp_all
qed

text \<open>A node right after start-up, at time 0.\<close>

definition booted_node :: "string list \<Rightarrow> string \<Rightarrow> core" where
  "booted_node ips ip =
     \<lparr>st = member_state ips ip, rf = raft_init 0 (member_state ips ip), net = []\<rparr>"

theorem highest_address_wins_witness:
  "IPv4Address (leaderIp (st (beats_run [(1, ''10.0.0.9;2;2''), (2, ''junk'')]
      (booted_node [''10.0.0.3'', ''10.0.0.9''] ''10.0.0.3'')))) = Some (IPv4 167772169)
   \<and> \<not> leader (rf (beats_run [(1, ''10.0.0.9;2;2''), (2, ''junk'')]
      (booted_node [''10.0.0.3'', ''10.0.0.9''] ''10.0.0.3'')))"
proof -
  let ?n = "booted_node [''10.0.0.3'', ''10.0.0.9''] ''10.0.0.3''"
  have "leaderIp (st ?n) = ''10.0.0.3''" by (simp add: booted_node_def member_state_def)
  then have a: "IPv4Address (leaderIp (st ?n)) = Some (IPv4 167772163)" by (simp add: example_addresses)
  have "parse_beat ''10.0.0.9;2;2'' = Some (''10.0.0.9'', 2, 2)" and "parse_beat ''junk'' = None"
    by code_simp+
  then have "beat_addr ''10.0.0.9;2;2'' = Some (IPv4 167772169)" and "beat_addr ''junk'' = None"
    by (simp_all add: beat_addr_def example_addresses)
  then have "beat_addrs [(1, ''10.0.0.9;2;2''), (2, ''junk'')] = [IPv4 167772169]"
    by (simp add: beat_addrs_def List.map_filter_simps)
  with highest_address_wins [OF a, of "[(1, ''10.0.0.9;2;2''), (2, ''junk'')]"] show ?thesis
    by (simp add: max_def less_eq_ipv4_def)
qed

text \<open>
  A heartbeat carries the sender's view to the receiver. Every packet a node sends in a
  round of heartbeats, handled by the node it is addressed to, installs the rank the sender
  has for the receiver and the sender's \<open>lastRank\<close>; if the sender's address is above the one
  the receiver follows, the receiver steps down and follows the sender. (Addresses valid,
  numbers of at most 4300 digits.)
\<close>

theorem heartbeat_installs_view:
  assumes "IPv4Address (selfIp (st l)) = Some a" and "IPv4Address (leaderIp (st f)) = Some b"
    and "printable (lastRank (st l))" and "\<forall>(ip, r) \<in> set (nodes (st l)). printable r"
    and "distinct (dkeys (nodes (st l)))"
    and "(ip, port, msg) \<in> set (drop (length (net l)) (net (sendBeat l)))"
  shows "port = 7001 \<and> ip \<noteq> selfIp (st l)
    \<and> map_of (nodes (st l)) ip = Some (rank (st (beatHandler now msg f)))
    \<and> lastRank (st (beatHandler now msg f)) = lastRank (st l)
    \<and> leaderIp (st (beatHandler now msg f)) = (if a > b then selfIp (st l) else leaderIp (st f))
    \<and> (leader (rf (beatHandler now msg f)) \<longleftrightarrow> leader (rf f) \<and> a \<le> b)"
proof -
  from assms(6) obtain r where r: "(ip, r) \<in> set (nodes (st l))" "ip \<noteq> selfIp (st l)" "port = 7001"
    and m: "msg = beat_msg (selfIp (st l)) r (lastRank (st l))"
    by (auto simp: beats_of_def)
  then have "parse_beat msg = Some (selfIp (st l), r, lastRank (st l))"
    using assms(1,3,4) by (auto simp: parse_beat_msg)
  then have "beatHandler now msg f = after_beat now (selfIp (st l)) a b r (lastRank (st l)) f"
    using assms(1,2) by (rule beatHandler_parsed)
  with r assms(5) show ?thesis by (simp add: after_beat_fields)
qed

theorem heartbeat_installs_view_witness:
  "rank (st (beatHandler 1 (beat_msg ''10.0.0.9'' 1 2) (booted_node [''10.0.0.3'', ''10.0.0.9''] ''10.0.0.3''))) = 1"
proof -
  let ?l = "booted_node [''10.0.0.3'', ''10.0.0.9''] ''10.0.0.9''"
  let ?f = "booted_node [''10.0.0.3'', ''10.0.0.9''] ''10.0.0.3''"
  have n: "nodes (st ?l) = [(''10.0.0.3'', 1), (''10.0.0.9'', 2)]" "lastRank (st ?l) = 2"
    "selfIp (st ?l) = ''10.0.0.9''" "leaderIp (st ?f) = ''10.0.0.3''"
    by (simp_all add: booted_node_def member_state_def)
  have pr: "printable 1" "printable 2" by code_simp+
  have "(''10.0.0.3'', 7001, beat_msg ''10.0.0.9'' 1 2) \<in> set (drop (length (net ?l)) (net (sendBeat ?l)))"
    by (simp add: beats_of_def n)
  from heartbeat_installs_view [OF _ _ _ _ _ this, of _ ?f _ 1] n example_addresses pr show ?thesis
    by simp
qed

text \<open>
  A malformed heartbeat (fewer than three fields, or a rank that is no integer) changes
  nothing but the time of the last heartbeat.
\<close>

theorem malformed_beat_only_resets_timer:
  assumes "length (split_on (CHR '';'') (strip beat)) < 3
    \<or> py_int (split_on (CHR '';'') (strip beat) ! 1) = None
    \<or> py_int (split_on (CHR '';'') (strip beat) ! 2) = None"
  shows "beatHandler now beat n = n\<lparr>rf := (rf n)\<lparr>last_beat_received := now\<rparr>\<rparr>"
proof -
  have "parse_beat beat = None"
    using assms by (auto simp: parse_beat_def split: list.splits option.splits)
  then show ?thesis by (simp add: beatHandler_def)
qed

theorem malformed_beat_only_resets_timer_witness:
  "beatHandler 7 ''10.0.0.9;x;3'' (booted_node [''10.0.0.3''] ''10.0.0.3'') =
    (booted_node [''10.0.0.3''] ''10.0.0.3'')
      \<lparr>rf := (rf (booted_node [''10.0.0.3''] ''10.0.0.3''))\<lparr>last_beat_received := 7\<rparr>\<rparr>"
proof (rule malformed_beat_only_resets_timer)
  have "py_int (split_on (CHR '';'') (strip ''10.0.0.9;x;3'') ! 1) = None" by code_simp
  then show "length (split_on (CHR '';'') (strip ''10.0.0.9;x;3'')) < 3
    \<or> py_int (split_on (CHR '';'') (strip ''10.0.0.9;x;3'') ! 1) = None
    \<or> py_int (split_on (CHR '';'') (strip ''10.0.0.9;x;3'') ! 2) = None" by blast
qed

section \<open>Properties of failure detection\<close>

lemma round_quiet:
  assumes "\<not> leader (rf n)" and "now - last_beat_received (rf n) < leaderDead (st n)"
  shows "snd (raftHeart_round now (nxt, n)) = n"
  using assms by (auto simp: raftHeart_round_def Let_def)

lemma round_leader:
  assumes "leader (rf n)"
  shows "raftHeart_round now (nxt, n) =
    (if now \<ge> nxt then (now + beatInterval (st n), sendBeat n) else (nxt, n))"
  using assms by (simp add: raftHeart_round_def Let_def)

lemma round_timeout:
  assumes "\<not> leader (rf n)" and "now - last_beat_received (rf n) \<ge> leaderDead (st n)"
  shows "raftHeart_round now (nxt, n) = (now + beatInterval (st (promote now n)), promote now n)"
  using assms by (simp add: raftHeart_round_def Let_def)

lemma promote_leader: "leader (rf (promote now n))"
  by (simp add: promote_def Let_def)

lemma heart_stays_leader: "leader (rf n) \<Longrightarrow> leader (rf (snd (raftHeart ts (nxt, n))))"
proof (induction ts arbitrary: nxt n)
  case (Cons t ts)
  then show ?case by (auto simp: raftHeart_def round_leader)
qed (simp add: raftHeart_def)

text \<open>
  C40: a silent leader is replaced. If no heartbeat arrives, a follower's heart thread promotes
  it to leader by the first round at which \<open>leaderDead\<close> seconds have passed since the last
  heartbeat, and until then its rounds change nothing.
\<close>

theorem silent_leader_replaced:
  assumes "\<not> leader (rf n)"
  shows "if \<exists>t \<in> set ts. t - last_beat_received (rf n) \<ge> leaderDead (st n)
    then leader (rf (snd (raftHeart ts (nxt, n)))) else snd (raftHeart ts (nxt, n)) = n"
proof (induction ts arbitrary: nxt)
  case (Cons t ts)
  show ?case
  proof (cases "t - last_beat_received (rf n) \<ge> leaderDead (st n)")
    case True
    then have "leader (rf (snd (raftHeart ts (raftHeart_round t (nxt, n)))))"
      using assms by (simp add: round_timeout heart_stays_leader promote_leader)
    with True show ?thesis by (auto simp: raftHeart_def)
  next
    case False
    then obtain nxt' where "raftHeart_round t (nxt, n) = (nxt', n)"
      using round_quiet [OF assms, of t nxt] by (metis not_le prod.collapse)
    with False Cons.IH [of nxt'] show ?thesis by (auto simp: raftHeart_def split: if_splits)
  qed
qed (simp add: raftHeart_def)

theorem silent_leader_replaced_witness:
  "leader (rf (snd (raftHeart [100, 250, 301]
     (200, (booted_node [''10.0.0.3''] ''10.0.0.3'')\<lparr>rf := \<lparr>currLogNum = 0, followerCount = 0, leader = False,
        rf_beatInterval = 100, rf_leaderDead = 300, beatSent = False, last_beat_received = 0\<rparr>\<rparr>))))"
  using silent_leader_replaced [of "(booted_node [''10.0.0.3''] ''10.0.0.3'')\<lparr>rf := \<lparr>currLogNum = 0,
      followerCount = 0, leader = False, rf_beatInterval = 100, rf_leaderDead = 300, beatSent = False,
      last_beat_received = 0\<rparr>\<rparr>" "[100, 250, 301]" 200]
  by (simp add: booted_node_def member_state_def)

lemma beats_numbered:
  "distinct vs \<Longrightarrow>
   map (\<lambda>(ip, r). (ip, p, g r)) (filter (\<lambda>(ip, r). ip \<noteq> self) (number_from k vs)) =
   map (\<lambda>ip. (ip, p, g (rank_of ip (number_from k vs)))) (filter (\<lambda>ip. ip \<noteq> self) vs)"
proof (induction k vs rule: number_from.induct)
  case (2 k v vs)
  have tail: "rank_of ip ((v, int k) # number_from (Suc k) vs) = rank_of ip (number_from (Suc k) vs)"
    if "ip \<in> set vs" for ip
    using 2(2) that by (auto simp: rank_of_def)
  show ?case using 2 by (auto simp: tail) (simp_all add: rank_of_def)
qed simp

lemma sees_leaderIp [simp]: "sees ips (s\<lparr>leaderIp := ip\<rparr>) = sees ips s"
  by (simp add: sees_def)

lemma sees_updateRank: "sees ips s \<Longrightarrow> settled ips (updateRank (rank_of (selfIp s) (nodes s)) (lastRank s) s)"
proof -
  assume s: "sees ips s"
  then have "s\<lparr>rank := rank_of (selfIp s) (nodes s), lastRank := lastRank s\<rparr> = s"
    by (simp add: sees_def)
  then show ?thesis using sees_settled [OF s] by (simp add: updateRank_def)
qed

lemma removeNode_fields [simp]:
  "selfIp (removeNode ip s) = selfIp s" "leaderIp (removeNode ip s) = leaderIp s"
  "leaderDead (removeNode ip s) = leaderDead s" "beatInterval (removeNode ip s) = beatInterval s"
  by (simp_all add: removeNode_def Let_def)

lemma promote_fields:
  "leaderIp (st (promote now n)) = selfIp (st n)" "selfIp (st (promote now n)) = selfIp (st n)"
  "net (promote now n) = net n @ beats_of (st (promote now n))"
  "last_beat_received (rf (promote now n)) = now"
  by (simp_all add: promote_def Let_def)

text \<open>A node that drops the leader it followed is settled on the others and tells them their ranks.\<close>

lemma promote_settled:
  assumes "sees ips (st n)" and "leaderIp (st n) \<in> set ips" and "leaderIp (st n) \<noteq> selfIp (st n)"
  shows "settled (filter (\<lambda>x. x \<noteq> leaderIp (st n)) ips) (st (promote now n))"
proof -
  let ?s = "(removeNode (leaderIp (st n)) (st n))\<lparr>leaderIp := selfIp (st n)\<rparr>"
  have "sees (filter (\<lambda>x. x \<noteq> leaderIp (st n)) ips) ?s"
    using removeNode_sees [OF assms] by (simp add: settled_def)
  from sees_updateRank [OF this] show ?thesis by (simp add: promote_def Let_def)
qed

lemma promote_net:
  assumes "sees ips (st n)" and "leaderIp (st n) \<in> set ips" and "leaderIp (st n) \<noteq> selfIp (st n)"
    and "others = filter (\<lambda>x. x \<noteq> leaderIp (st n)) ips"
  shows "net (promote now n) = net n @ map (\<lambda>ip. (ip, 7001, beat_msg (selfIp (st n))
        (rank_of ip (number_from 1 others)) (int (length others)))) (filter (\<lambda>ip. ip \<noteq> selfIp (st n)) others)"
proof -
  have "distinct others" "nodes (st (promote now n)) = number_from 1 others"
    "lastRank (st (promote now n)) = int (length others)"
    using promote_settled [OF assms(1-3)] assms(4) by (simp_all add: settled_def sees_def)
  then show ?thesis by (simp add: promote_fields beats_of_def beats_numbered del: One_nat_def)
qed

text \<open>
  C10: failover. When a follower that sees the members \<open>ips\<close>, with the dead leader among them,
  times out, it becomes leader, follows itself, drops exactly the dead leader, is settled on
  the remaining members (renumbered, with the shard of its new rank), and sends one heartbeat
  to every other remaining member carrying that member's new rank.
\<close>

theorem failover:
  assumes "sees ips (st n)" and "leaderIp (st n) \<in> set ips" and "leaderIp (st n) \<noteq> selfIp (st n)"
    and "\<not> leader (rf n)" and "now - last_beat_received (rf n) \<ge> leaderDead (st n)"
    and "survivors = filter (\<lambda>x. x \<noteq> leaderIp (st n)) ips" and "n' = snd (raftHeart_round now (nxt, n))"
  shows "leader (rf n') \<and> leaderIp (st n') = selfIp (st n) \<and> settled survivors (st n')
    \<and> net n' = net n @ map (\<lambda>ip. (ip, 7001, beat_msg (selfIp (st n))
          (rank_of ip (number_from 1 survivors)) (int (length survivors))))
        (filter (\<lambda>ip. ip \<noteq> selfIp (st n)) survivors)"
proof -
  have n': "n' = promote now n" using assms(4,5,7) by (simp add: round_timeout)
  show ?thesis
    unfolding n' promote_net [OF assms(1-3,6)]
    using promote_settled [OF assms(1-3)] assms(6) by (simp add: promote_leader promote_fields)
qed

definition booted_follower :: core where
  "booted_follower =
     (let n = booted_node [''10.0.0.3'', ''10.0.0.9''] ''10.0.0.3''
      in n\<lparr>st := (st n)\<lparr>leaderIp := ''10.0.0.9''\<rparr>, rf := (rf n)\<lparr>leader := False\<rparr>\<rparr>)"

lemma booted_follower_sees:
  "sees [''10.0.0.3'', ''10.0.0.9''] (st booted_follower)"
  "leaderIp (st booted_follower) = ''10.0.0.9''" "selfIp (st booted_follower) = ''10.0.0.3''"
  "\<not> leader (rf booted_follower)" "last_beat_received (rf booted_follower) = 0"
  "leaderDead (st booted_follower) = 300" "net booted_follower = []"
  using member_state_settled [of "[''10.0.0.3'', ''10.0.0.9'']" "''10.0.0.3''"]
  by (simp_all add: booted_follower_def booted_node_def settled_def raft_init_def Let_def)
    (simp_all add: member_state_def)

theorem failover_witness:
  "leader (rf (snd (raftHeart_round 300 (0, booted_follower))))
   \<and> settled [''10.0.0.3''] (st (snd (raftHeart_round 300 (0, booted_follower))))
   \<and> net (snd (raftHeart_round 300 (0, booted_follower))) = []"
  using failover [OF booted_follower_sees(1), of 300 "[''10.0.0.3'']" _ 0]
  by (simp add: booted_follower_sees)

text \<open>
  A failover that leaves a single node does not update \<^verbatim>\<open>states.txt\<close>. In a cluster of two,
  the survivor becomes leader and follows itself, but the snapshot on disk stays what it was
  before the failover, so readers of the file still see the dead leader.
\<close>

theorem failover_to_single_node_keeps_snapshot:
  assumes "sees ips (st n)" and "length ips = 2" and "leaderIp (st n) \<in> set ips"
    and "leaderIp (st n) \<noteq> selfIp (st n)"
    and "\<not> leader (rf n)" and "now - last_beat_received (rf n) \<ge> leaderDead (st n)"
    and "n' = snd (raftHeart_round now (nxt, n))"
  shows "leader (rf n') \<and> leaderIp (st n') = selfIp (st n) \<and> statesTxt (st n') = statesTxt (st n)"
proof -
  have n': "n' = promote now n" using assms(5-7) by (simp add: round_timeout)
  have keys: "fst ` set (nodes (st n)) = set ips" "length (nodes (st n)) = 2" "distinct (dkeys (nodes (st n)))"
    using assms(1,2) by (simp_all add: sees_def)
  then have "length (ddel (leaderIp (st n)) (nodes (st n))) = 1"
    using length_ddel_in [of "nodes (st n)" "leaderIp (st n)"] assms(3) by simp
  then have "nodeCount (removeNode (leaderIp (st n)) (st n)) = 1"
    and "statesTxt (removeNode (leaderIp (st n)) (st n)) = statesTxt (st n)"
    using keys assms(3) by (simp_all add: removeNode_def Let_def updateRecordSet_def)
  then have "statesTxt (st (promote now n)) = statesTxt (st n)"
    by (simp add: promote_def Let_def updateRank_def updateRecordSet_def)
  then show ?thesis by (simp add: n' promote_leader promote_fields)
qed

theorem failover_to_single_node_keeps_snapshot_witness:
  "leaderIp (st (snd (raftHeart_round 300 (0, booted_follower)))) = ''10.0.0.3''
   \<and> statesTxt (st (snd (raftHeart_round 300 (0, booted_follower)))) = statesTxt (st booted_follower)"
  using failover_to_single_node_keeps_snapshot [OF booted_follower_sees(1), of 300 _ 0]
  by (simp add: booted_follower_sees)

text \<open>
  Heartbeats never update \<open>nodeCount\<close>, so a node that started alone keeps all 26 shards
  whatever ranks the heartbeats of other nodes assign to it.
\<close>

theorem lone_node_keeps_all_shards:
  assumes "nodeCount (st n) = 1" and "selfRecords (st n) = set ALPHABET"
  shows "nodeCount (st (beats_run bs n)) = 1 \<and> selfRecords (st (beats_run bs n)) = set ALPHABET"
  using assms
proof (induction bs arbitrary: n)
  case (Cons tb bs)
  obtain t b where tb: "tb = (t, b)" by (cases tb)
  have "nodeCount (st (beatHandler t b n)) = 1 \<and> selfRecords (st (beatHandler t b n)) = set ALPHABET"
    using Cons.prems
    by (auto simp: beatHandler_def Let_def updateRank_def updateRecordSet_def split: option.splits prod.splits)
  then show ?case using Cons.IH by (simp add: tb beats_run_Cons)
qed (simp add: beats_run_def)

theorem lone_node_keeps_all_shards_witness:
  "selfRecords (st (beats_run [(1, ''10.0.0.9;1;2'')] (booted_node [''10.0.0.3''] ''10.0.0.3''))) = set ALPHABET"
proof -
  have "nodeCount (st (booted_node [''10.0.0.3''] ''10.0.0.3'')) = 1"
    "selfRecords (st (booted_node [''10.0.0.3''] ''10.0.0.3'')) = set ALPHABET"
    by (simp_all add: booted_node_def member_state_def updateRecordSet_def)
  from lone_node_keeps_all_shards [OF this] show ?thesis by simp
qed

end
