(* ===== verification/Reader.thy ===== *)
theory Reader
  imports Node_State
begin

text \<open>
  The record files and the read side of a node (\<^verbatim>\<open>data_plane/read/_read.py\<close>, class \<^verbatim>\<open>Reader\<close>):
  loading the shard files into \<open>records\<close> at start-up and answering look-ups. The disk is a map
  from paths to text, together with the exceptions that opening a path for reading or writing
  raises, if any. The order in which Python iterates over the set \<open>selfRecords\<close> is an argument.
\<close>

section \<open>Disk\<close>

record disk =
  files :: "string \<rightharpoonup> string"
  read_fault :: "string \<Rightarrow> exn option"
  write_fault :: "string \<Rightarrow> exn option"

definition open_read :: "string \<Rightarrow> disk \<Rightarrow> exn + string" where
  "open_read path d =
     (case read_fault d path of
        Some e \<Rightarrow> Inl e
      | None \<Rightarrow> (case files d path of None \<Rightarrow> Inl FileNotFoundError | Some c \<Rightarrow> Inr c))"

definition open_write :: "string \<Rightarrow> string \<Rightarrow> disk \<Rightarrow> exn + disk" where
  "open_write path content d =
     (case write_fault d path of Some e \<Rightarrow> Inl e | None \<Rightarrow> Inr (d\<lparr>files := (files d)(path \<mapsto> content)\<rparr>))"

definition shard_path :: "char \<Rightarrow> string" where
  "shard_path c = ''../records/'' @ [c] @ ''.txt''"

section \<open>class Reader\<close>

abbreviation comma :: char where "comma \<equiv> CHR '',''"

type_synonym record_map = "string \<times> string \<rightharpoonup> string"

definition load_line :: "string \<Rightarrow> record_map \<Rightarrow> record_map" where
  "load_line line0 m =
     (let line = strip line0
      in if line = [] \<or> startswith line ''#'' then m
         else (case split_on comma line of
                 [domain, rtype, val] \<Rightarrow> m((strip domain, strip rtype) \<mapsto> strip val)
               | _ \<Rightarrow> m))"

definition load_text :: "string \<Rightarrow> record_map \<Rightarrow> record_map" where
  "load_text content m = fold load_line (file_lines content) m"

fun load_shards :: "disk \<Rightarrow> char list \<Rightarrow> record_map \<Rightarrow> exn + record_map" where
  "load_shards d [] m = Inr m"
| "load_shards d (c # cs) m =
     (case open_read (shard_path c) d of
        Inr content \<Rightarrow> load_shards d cs (load_text content m)
      | Inl e \<Rightarrow> if e = FileNotFoundError then load_shards d cs m else Inl e)"

definition Reader_init :: "char list \<Rightarrow> disk \<Rightarrow> states \<Rightarrow> exn + states" where
  "Reader_init order d s =
     (case load_shards d order Map.empty of Inl e \<Rightarrow> Inl e | Inr m \<Rightarrow> Inr (s\<lparr>records := m\<rparr>))"

definition recordResponse :: "string \<Rightarrow> string \<Rightarrow> states \<Rightarrow> string" where
  "recordResponse domain rtype s =
     (case domain of
        [] \<Rightarrow> ''N/A''
      | c # _ \<Rightarrow>
          if lower_char c \<notin> selfRecords s then ''N/A''
          else (case records s (lower (strip domain), upper (strip rtype)) of
                  None \<Rightarrow> ''N/A'' | Some v \<Rightarrow> v))"

section \<open>What a file means\<close>

text \<open>The key and value a line stores, if it is a record.\<close>

definition line_record :: "string \<Rightarrow> ((string \<times> string) \<times> string) option" where
  "line_record line0 =
     (let line = strip line0
      in if line = [] \<or> startswith line ''#'' then None
         else (case split_on comma line of
                 [domain, rtype, val] \<Rightarrow> Some ((strip domain, strip rtype), strip val)
               | _ \<Rightarrow> None))"

lemma load_line_eq: "load_line l m = (case line_record l of None \<Rightarrow> m | Some (k, v) \<Rightarrow> m(k \<mapsto> v))"
  by (auto simp: load_line_def line_record_def Let_def split: list.splits)

text \<open>The last line for a key decides.\<close>

fun last_record :: "string \<times> string \<Rightarrow> string list \<Rightarrow> string option" where
  "last_record k [] = None"
| "last_record k (l # ls) =
     (case last_record k ls of
        Some v \<Rightarrow> Some v
      | None \<Rightarrow> (case line_record l of None \<Rightarrow> None | Some (k', v) \<Rightarrow> if k' = k then Some v else None))"

lemma last_record_append:
  "last_record k (a @ b) = (case last_record k b of Some v \<Rightarrow> Some v | None \<Rightarrow> last_record k a)"
  by (induction a) (auto split: option.splits)

lemma fold_load_line:
  "fold load_line ls m k = (case last_record k ls of Some v \<Rightarrow> Some v | None \<Rightarrow> m k)"
proof (induction ls arbitrary: m)
  case (Cons l ls)
  then show ?case by (auto simp: load_line_eq split: option.splits)
qed simp

text \<open>The first field of a line, the way the writer looks for a domain.\<close>

definition line_domain :: "string \<Rightarrow> string" where
  "line_domain l = strip (hd (split_on comma (strip l)))"

lemma line_record_domain: "line_record l = Some ((d, t), v) \<Longrightarrow> line_domain l = d"
  by (auto simp: line_record_def line_domain_def Let_def split: if_splits list.splits)

text \<open>A well-formed record: trimmed fields without separators, a real domain.\<close>

definition field_ok :: "string \<Rightarrow> bool" where
  "field_ok f \<longleftrightarrow> f \<noteq> [] \<and> stripped f \<and> comma \<notin> set f \<and> CHR '';'' \<notin> set f \<and> NL \<notin> set f \<and> CR \<notin> set f"

definition update_text :: "string \<Rightarrow> string \<Rightarrow> string \<Rightarrow> string" where
  "update_text d t v = d @ comma # t @ comma # v"

definition update_ok :: "string \<Rightarrow> string \<Rightarrow> string \<Rightarrow> bool" where
  "update_ok d t v \<longleftrightarrow> field_ok d \<and> field_ok t \<and> field_ok v \<and> hd d \<noteq> CHR ''#''"

lemma update_stripped: "update_ok d t v \<Longrightarrow> stripped (update_text d t v)"
  using stripped_append [of d v "comma # t @ [comma]"]
  by (simp add: update_ok_def field_ok_def update_text_def)

lemma update_split: "update_ok d t v \<Longrightarrow> split_on comma (update_text d t v) = [d, t, v]"
  by (simp add: update_ok_def field_ok_def update_text_def split_on_append split_on_single)

lemma update_chars:
  "update_ok d t v \<Longrightarrow> CHR '';'' \<notin> set (update_text d t v) \<and> NL \<notin> set (update_text d t v)
     \<and> CR \<notin> set (update_text d t v) \<and> update_text d t v \<noteq> []"
  by (auto simp: update_ok_def field_ok_def update_text_def)

lemma update_strip [simp]:
  assumes "update_ok d t v"
  shows "strip (update_text d t v) = update_text d t v" "strip (update_text d t v @ [NL]) = update_text d t v"
  using update_stripped [OF assms] by (simp_all add: strip_id strip_snoc_space)

lemma field_strip: "field_ok f \<Longrightarrow> strip f = f"
  by (simp add: field_ok_def strip_id)

lemma line_record_update:
  assumes "update_ok d t v"
  shows "line_record (update_text d t v @ [NL]) = Some ((d, t), v)"
proof -
  have "\<not> startswith (update_text d t v) ''#''"
    using assms by (cases d) (auto simp: update_ok_def field_ok_def update_text_def startswith_def)
  with assms show ?thesis
    using update_chars [OF assms] by (simp add: line_record_def update_split)
      (simp add: update_ok_def field_strip)
qed

lemma full_line_update: "update_ok d t v \<Longrightarrow> full_line (update_text d t v @ [NL])"
  using update_chars by (auto simp: full_line_def)

section \<open>Properties\<close>

text \<open>The lines of a shard file; a missing file has none.\<close>

definition shard_lines :: "disk \<Rightarrow> char \<Rightarrow> string list" where
  "shard_lines d c = (case files d (shard_path c) of None \<Rightarrow> [] | Some content \<Rightarrow> file_lines content)"

text \<open>Every record line of a shard file is about a domain of that shard.\<close>

definition clean_shard :: "disk \<Rightarrow> char \<Rightarrow> bool" where
  "clean_shard d c \<longleftrightarrow>
     (\<forall>l \<in> set (shard_lines d c). \<forall>host t v. line_record l = Some ((host, t), v) \<longrightarrow> host \<noteq> [] \<and> hd host = c)"

lemma last_record_Some: "last_record k ls = Some v \<Longrightarrow> \<exists>l \<in> set ls. line_record l = Some (k, v)"
  by (induction ls) (auto split: option.splits if_splits)

lemma clean_last:
  "clean_shard d c \<Longrightarrow> last_record (host, t) (shard_lines d c) = Some v \<Longrightarrow> host \<noteq> [] \<and> hd host = c"
  using last_record_Some unfolding clean_shard_def by blast

lemma option_case_id: "(case x of None \<Rightarrow> None | Some v \<Rightarrow> Some v) = x"
  by (cases x) simp_all

lemma load_shards_eq:
  assumes "\<forall>c \<in> set cs. read_fault d (shard_path c) = None" and "distinct cs"
    and "\<forall>c \<in> set cs. clean_shard d c"
  shows "\<exists>m'. load_shards d cs m = Inr m' \<and> (\<forall>host t. m' (host, t) =
    (if host \<noteq> [] \<and> hd host \<in> set cs
     then (case last_record (host, t) (shard_lines d (hd host)) of Some v \<Rightarrow> Some v | None \<Rightarrow> m (host, t))
     else m (host, t)))"
  using assms
proof (induction cs arbitrary: m)
  case (Cons c cs)
  let ?m = "fold load_line (shard_lines d c) m"
  have "load_shards d (c # cs) m = load_shards d cs ?m"
    using Cons.prems(1)
    by (simp add: open_read_def shard_lines_def load_text_def split: option.split)
  moreover obtain m' where "load_shards d cs ?m = Inr m'" and m': "\<forall>host t. m' (host, t) =
    (if host \<noteq> [] \<and> hd host \<in> set cs
     then (case last_record (host, t) (shard_lines d (hd host)) of Some v \<Rightarrow> Some v | None \<Rightarrow> ?m (host, t))
     else ?m (host, t))"
    using Cons.IH [of ?m] Cons.prems by auto
  moreover have "?m (host, t) = (if host \<noteq> [] \<and> hd host = c
     then (case last_record (host, t) (shard_lines d c) of Some v \<Rightarrow> Some v | None \<Rightarrow> m (host, t))
     else m (host, t))" for host t
    using clean_last [of d c host t] Cons.prems(3)
    by (cases "last_record (host, t) (shard_lines d c)") (simp_all add: fold_load_line)
  ultimately show ?case using Cons.prems(2) by (auto split: option.split)
qed auto

lemma reader_loads:
  assumes "distinct order" and "set order = selfRecords s"
    and "\<forall>c \<in> selfRecords s. read_fault d (shard_path c) = None \<and> clean_shard d c"
    and "stripped host" and "lower host = host" and "host \<noteq> []"
  shows "\<exists>s'. Reader_init order d s = Inr s' \<and> recordResponse host ''A'' s' =
    (if hd host \<in> selfRecords s
     then (case last_record (host, ''A'') (shard_lines d (hd host)) of Some v \<Rightarrow> v | None \<Rightarrow> ''N/A'')
     else ''N/A'')"
proof -
  obtain m where m: "load_shards d order Map.empty = Inr m" "\<forall>host t. m (host, t) =
    (if host \<noteq> [] \<and> hd host \<in> set order then last_record (host, t) (shard_lines d (hd host)) else None)"
    using load_shards_eq [of order d Map.empty] assms(1-3) by (auto simp: option_case_id)
  obtain c cs where host: "host = c # cs" using assms(6) by (cases host) auto
  have "lower_char c = c" using assms(5) by (simp add: host lower_def)
  moreover have "upper (strip ''A'') = ''A''" by code_simp
  ultimately have "recordResponse host ''A'' (s\<lparr>records := m\<rparr>) =
    (if hd host \<in> selfRecords s
     then (case last_record (host, ''A'') (shard_lines d (hd host)) of Some v \<Rightarrow> v | None \<Rightarrow> ''N/A'')
     else ''N/A'')"
    using m(2) assms(2,4,5) by (simp add: recordResponse_def strip_id host split: option.split)
  with m(1) show ?thesis by (simp add: Reader_init_def)
qed

text \<open>
  A restarted node answers from its files. If the shard files of a node are readable (or
  missing) and each holds only domains of its letter, the reader starts whatever the iteration
  order, and a look-up of a trimmed lower-case domain answers the value of the last line stored
  for it, in the file of its first letter, when the node owns that letter, and \<^verbatim>\<open>N/A\<close>
  otherwise.
\<close>

theorem reader_answers_from_files:
  assumes "distinct order" and "set order = selfRecords s"
    and "\<forall>c \<in> selfRecords s. read_fault d (shard_path c) = None \<and> clean_shard d c"
    and "stripped host" and "lower host = host" and "host \<noteq> []"
  shows "\<exists>s'. Reader_init order d s = Inr s' \<and> recordResponse host ''A'' s' =
    (if hd host \<in> selfRecords s
     then (case last_record (host, ''A'') (shard_lines d (hd host)) of Some v \<Rightarrow> v | None \<Rightarrow> ''N/A'')
     else ''N/A'')"
  using assms by (rule reader_loads)

definition example_disk :: disk where
  "example_disk = \<lparr>files = [''../records/a.txt'' \<mapsto> ''a.com,A,1.1.1.1'' @ [NL] @ ''a.com,A,2.2.2.2'' @ [NL]],
     read_fault = (\<lambda>_. None), write_fault = (\<lambda>_. None)\<rparr>"

definition example_state :: states where
  "example_state = member_state [''10.0.0.3''] ''10.0.0.3''"

lemma example_state_fields: "selfRecords example_state = set ALPHABET" "records example_state = Map.empty"
  by (simp_all add: example_state_def member_state_def updateRecordSet_def)

lemma example_lines: "shard_lines example_disk (CHR ''a'') = [''a.com,A,1.1.1.1'' @ [NL], ''a.com,A,2.2.2.2'' @ [NL]]"
  "c \<noteq> CHR ''a'' \<Longrightarrow> shard_lines example_disk c = []"
proof -
  have "file_lines (''a.com,A,1.1.1.1'' @ [NL] @ ''a.com,A,2.2.2.2'' @ [NL]) =
      [''a.com,A,1.1.1.1'' @ [NL], ''a.com,A,2.2.2.2'' @ [NL]]" by code_simp
  then show "shard_lines example_disk (CHR ''a'') = [''a.com,A,1.1.1.1'' @ [NL], ''a.com,A,2.2.2.2'' @ [NL]]"
    by (simp add: shard_lines_def example_disk_def shard_path_def)
qed (simp add: shard_lines_def example_disk_def shard_path_def)

theorem reader_answers_from_files_witness:
  "\<exists>s'. Reader_init ALPHABET example_disk example_state = Inr s'
     \<and> recordResponse ''a.com'' ''A'' s' = ''2.2.2.2''"
proof -
  have l: "line_record (''a.com,A,1.1.1.1'' @ [NL]) = Some ((''a.com'', ''A''), ''1.1.1.1'')"
    "line_record (''a.com,A,2.2.2.2'' @ [NL]) = Some ((''a.com'', ''A''), ''2.2.2.2'')"
    by code_simp+
  have "clean_shard example_disk c" for c
    using l by (cases "c = CHR ''a''") (simp_all add: clean_shard_def example_lines)
  moreover have "stripped ''a.com''" "lower ''a.com'' = ''a.com''" by code_simp+
  moreover have "CHR ''a'' \<in> set ALPHABET" by code_simp
  ultimately show ?thesis
    using reader_answers_from_files [of ALPHABET example_state example_disk "''a.com''"] l
    by (auto simp: example_state_fields example_lines) (simp add: example_disk_def)
qed

lemma py_slice_subset: "set (py_slice xs i j) \<subseteq> set xs"
  by (auto simp: py_slice_def Let_def dest!: in_set_takeD in_set_dropD)

lemma updateRecordSet_letters: "selfRecords (updateRecordSet s) \<subseteq> set ALPHABET"
  using py_slice_subset [of ALPHABET] by (auto simp: updateRecordSet_def shard_slice_def dest!: subsetD)

lemma States_init_letters: "States_init env = Inr s \<Longrightarrow> selfRecords s \<subseteq> set ALPHABET"
  by (auto simp: States_init_def Let_def split: sum.splits dest!: subsetD [OF updateRecordSet_letters])

text \<open>
  Names that do not start with a letter are never answered locally. On a node that started
  and loaded its files, the look-up of any domain whose first character is not an ASCII letter
  (a digit, for instance) answers \<^verbatim>\<open>N/A\<close>, whatever the files contain.
\<close>

theorem non_letter_never_local:
  assumes "States_init env = Inr s" and "Reader_init order d s = Inr s'"
    and "lower_char c \<notin> set ALPHABET"
  shows "recordResponse (c # cs) rtype s' = ''N/A''"
  using States_init_letters [OF assms(1)] assms(2,3)
  by (auto simp: recordResponse_def Reader_init_def split: sum.splits)

theorem non_letter_never_local_witness:
  "\<exists>s s'. States_init (example_env\<lparr>advertised_ip := ''10.0.0.7''\<rparr>) = Inr s
     \<and> Reader_init [] example_disk s = Inr s' \<and> recordResponse ''1and1.com'' ''A'' s' = ''N/A''"
proof -
  have files: "ip_files (listdir example_env) = [''self_ip_node1.txt'', ''self_ip_node2.txt'']"
    by code_simp
  have "load_ips (read_file example_env) (ip_files (listdir example_env)) [] 0 =
      Inr ([(''10.0.0.7'', 1), (''10.0.0.3'', 2)], 2)"
    unfolding files by code_simp
  then obtain s where s: "States_init (example_env\<lparr>advertised_ip := ''10.0.0.7''\<rparr>) = Inr s"
    by (auto simp: States_init_def register_and_load_nodes_def Let_def split: prod.splits)
      (auto simp: example_env_def)
  have "lower_char (CHR ''1'') \<notin> set ALPHABET" by code_simp
  with s non_letter_never_local [OF s, of "[]" example_disk _ "CHR ''1''" "''and1.com''"] show ?thesis
    by (auto simp: Reader_init_def)
qed

end
