(* ===== verification/Record_Store.thy ===== *)
theory Record_Store
  imports Reader
begin

text \<open>
  The contract between the write side, which stores updates, and everything that reads the
  records afterwards: the abstract effect of an update on a table of records, and the locale
  \<open>record_store\<close> of the stores that implement it. The proofs about sequences of updates (last
  write wins, only the order per domain matters, refreshing) are done once here.
\<close>

section \<open>Updates on a table\<close>

type_synonym update = "string \<times> string \<times> string"

definition valid_update :: "update \<Rightarrow> bool" where
  "valid_update u = (case u of (d, t, v) \<Rightarrow> update_ok d t v)"

text \<open>An update replaces everything known about its domain.\<close>

definition replace :: "update \<Rightarrow> record_map \<Rightarrow> record_map" where
  "replace u m = (case u of (d, t, v) \<Rightarrow>
     (\<lambda>(d', t'). if d' = d then (if t' = t then Some v else None) else m (d', t')))"

text \<open>The last update of a domain in a sequence.\<close>

definition last_update :: "string \<Rightarrow> update list \<Rightarrow> (string \<times> string) option" where
  "last_update d us =
     (let own = filter (\<lambda>u. fst u = d) us in if own = [] then None else Some (snd (last own)))"

lemma replace_apply:
  "replace (d, t, v) m (d', t') = (if d' = d then (if t' = t then Some v else None) else m (d', t'))"
  by (simp add: replace_def)

lemma last_update_simps [simp]:
  "last_update d [] = None"
  "last_update d (us @ [u]) = (if fst u = d then Some (snd u) else last_update d us)"
  by (simp_all add: last_update_def Let_def)

lemma last_update_None: "last_update d us = None \<longleftrightarrow> d \<notin> fst ` set us"
  by (induction us rule: rev_induct) auto

lemma last_update_Some: "last_update d us = Some (t, v) \<Longrightarrow> (d, t, v) \<in> set us"
  by (induction us rule: rev_induct) (auto split: if_splits)

lemma last_update_filter: "last_update d (filter (\<lambda>u. fst u = d) us) = last_update d us"
  by (simp add: last_update_def)

lemma fold_replace:
  "fold replace us m (d, t) =
     (case last_update d us of None \<Rightarrow> m (d, t) | Some (t', v) \<Rightarrow> if t = t' then Some v else None)"
proof (induction us rule: rev_induct)
  case (snoc u us)
  then show ?case by (cases u) (auto simp: replace_apply split: option.split)
qed simp

section \<open>Stores\<close>

text \<open>
  A store \<open>'s\<close> with room for a number of further updates, whose table changes by
  \<open>replace\<close> at each of them.
\<close>

locale record_store =
  fixes room :: "nat \<Rightarrow> 's \<Rightarrow> bool"
    and look :: "'s \<Rightarrow> record_map"
    and put :: "update \<Rightarrow> 's \<Rightarrow> 's"
  assumes room_put: "valid_update u \<Longrightarrow> room (Suc k) s \<Longrightarrow> room k (put u s)"
    and look_put: "valid_update u \<Longrightarrow> room (Suc k) s \<Longrightarrow> look (put u s) = replace u (look s)"
begin

lemma look_run:
  "room (length us) s \<Longrightarrow> \<forall>u \<in> set us. valid_update u \<Longrightarrow> look (fold put us s) = fold replace us (look s)"
proof (induction us arbitrary: s)
  case (Cons u us)
  have "look (put u s) = replace u (look s)" "room (length us) (put u s)"
    using Cons.prems by (auto intro: look_put room_put)
  then show ?case using Cons by simp
qed simp

lemma last_write_wins:
  assumes "room (length us) s" and "\<forall>u \<in> set us. valid_update u"
  shows "look (fold put us s) (d, t) =
    (case last_update d us of None \<Rightarrow> look s (d, t) | Some (t', v) \<Rightarrow> if t = t' then Some v else None)"
  by (simp add: look_run [OF assms] fold_replace)

lemma order_per_domain:
  assumes "room (length us) s" and "room (length us') s'"
    and "\<forall>u \<in> set us. valid_update u" and "\<forall>u \<in> set us'. valid_update u"
    and "look s = look s'"
    and "\<And>d. filter (\<lambda>u. fst u = d) us = filter (\<lambda>u. fst u = d) us'"
  shows "look (fold put us s) = look (fold put us' s')"
proof
  fix k :: "string \<times> string"
  obtain d t where k: "k = (d, t)" by (cases k)
  have "last_update d us = last_update d us'"
    using last_update_filter [of d us] last_update_filter [of d us'] assms(6) [of d] by simp
  then show "look (fold put us s) k = look (fold put us' s') k"
    using assms(5) by (simp add: k last_write_wins [OF assms(1,3)] last_write_wins [OF assms(2,4)] split: option.split)
qed

text \<open>
  Applying the corrections \<open>(d, t, live d)\<close> for all records that differ from a live source
  leaves no record of a single-type domain that differs from it.
\<close>

lemma corrected:
  assumes "room (length us) s" and "\<forall>u \<in> set us. valid_update u"
    and "\<And>d t v. (d, t, v) \<in> set us \<Longrightarrow> live d = Some v"
    and "\<And>d t v w. look s (d, t) = Some v \<Longrightarrow> live d = Some w \<Longrightarrow> v \<noteq> w \<Longrightarrow> d \<in> fst ` set us"
    and "look (fold put us s) (d, t) = Some v" and "live d = Some w"
  shows "v = w"
proof (cases "last_update d us")
  case None
  then have "look s (d, t) = Some v" "d \<notin> fst ` set us"
    using assms(5) by (simp_all add: last_write_wins [OF assms(1,2)] last_update_None [symmetric])
  then show ?thesis using assms(4) [of d t v w] assms(6) by blast
next
  case (Some p)
  obtain t' v' where p: "p = (t', v')" by (cases p)
  have "(d, t', v') \<in> set us" using Some p by (simp add: last_update_Some)
  then have "live d = Some v'" using assms(3) by blast
  then show ?thesis using assms(5,6) Some p
    by (auto simp: last_write_wins [OF assms(1,2)] split: if_splits)
qed

end

end
