(* ===== verification/Writer.thy ===== *)
theory Writer
  imports Raft Record_Store
begin

text \<open>
  The write pipeline of a node (\<^verbatim>\<open>data_plane/write/_writer.py\<close>, class \<^verbatim>\<open>Writer\<close>): the four
  message types, replication through the coordinator, and the commit that rewrites a shard
  file. A handler returns how it ended and the node it leaves behind: what it changed before an
  exception stays changed. \<open>raft_set\<close> says whether \<^verbatim>\<open>self._raft\<close> has been assigned yet; the
  live name resolution \<^verbatim>\<open>socket.gethostbyname\<close> is the parameter \<open>dns\<close> (\<open>None\<close>: it raises).
\<close>

section \<open>Data\<close>

record writer =
  logs :: "string \<rightharpoonup> string"
  logAck :: "string \<rightharpoonup> int"
  raft_set :: bool

record node = core +
  wr :: writer
  dsk :: disk

definition writer_init :: writer where
  "writer_init = \<lparr>logs = Map.empty, logAck = Map.empty, raft_set = False\<rparr>"

section \<open>Commit\<close>

text \<open>The loop over the old file: lines of the domain are replaced, the rest is kept.\<close>

definition rewrite_lines :: "string \<Rightarrow> string \<Rightarrow> string list \<Rightarrow> string list" where
  "rewrite_lines domain update ls =
     (let hit = (\<lambda>l. strip (hd (split_on comma (strip l))) = domain);
          ls' = map (\<lambda>l. if hit l then update @ [NL] else l) ls
      in if \<exists>l \<in> set ls. hit l then ls' else ls' @ [update @ [NL]])"

definition commitHandler :: "string \<Rightarrow> node \<Rightarrow> outcome \<times> node" where
  "commitHandler num n =
     (case logs (wr n) num of
        None \<Rightarrow> (Done, n)
      | Some update \<Rightarrow>
          if update = [] then (Done, n)
          else (case split_on comma (strip update) of
                  p0 # p1 # p2 # _ \<Rightarrow>
                    let domain = strip p0; rtype = strip p1; ip = strip p2
                    in (case domain of
                          [] \<Rightarrow> (Raised IndexError, n)
                        | c # _ \<Rightarrow>
                            let path = shard_path (lower_char c);
                                old = (case open_read path (dsk n) of
                                         Inr content \<Rightarrow> Inr (file_lines content)
                                       | Inl e \<Rightarrow> if e = FileNotFoundError then Inr [] else Inl e)
                            in (case old of
                                  Inl e \<Rightarrow> if is_OSError e then (Done, n) else (Raised e, n)
                                | Inr ls \<Rightarrow>
                                    (case open_write path (concat (rewrite_lines domain update ls)) (dsk n) of
                                       Inl e \<Rightarrow> if is_OSError e then (Done, n) else (Raised e, n)
                                     | Inr d' \<Rightarrow>
                                         (Done, n\<lparr>dsk := d',
                                            st := (st n)\<lparr>records := (records (st n))((domain, rtype) \<mapsto> ip)\<rparr>\<rparr>))))
                | _ \<Rightarrow> (Done, n)))"

section \<open>Handlers\<close>

definition writeStarter :: "string \<Rightarrow> string \<Rightarrow> node \<Rightarrow> outcome \<times> node" where
  "writeStarter update num n =
     (let n1 = n\<lparr>wr := (wr n)\<lparr>logs := (logs (wr n))(num \<mapsto> update)\<rparr>\<rparr>
      in case sendLog (num @ CHR '';'' # update) num n1 of
           (Raised e, n2) \<Rightarrow> (Raised e, n2)
         | (Done, n2) \<Rightarrow> commitHandler num n2)"

definition ackHandler :: "string \<Rightarrow> node \<Rightarrow> node" where
  "ackHandler num n =
     (let k = (case logAck (wr n) num of None \<Rightarrow> 0 | Some k \<Rightarrow> k)
      in n\<lparr>wr := (wr n)\<lparr>logAck := (logAck (wr n))(num \<mapsto> k + 1)\<rparr>\<rparr>)"

text \<open>The quorum test of \<^verbatim>\<open>ackHandler\<close>, which only prints.\<close>

definition quorum_reached :: "string \<Rightarrow> node \<Rightarrow> bool" where
  "quorum_reached num n \<longleftrightarrow>
     followerCount (rf n) > 0 \<and> (case logAck (wr n) num of None \<Rightarrow> 0 | Some k \<Rightarrow> k) \<ge> followerCount (rf n)"

text \<open>The next log number and its text; \<^verbatim>\<open>str\<close> raises on a number of more than 4300 digits.\<close>

definition next_num :: "node \<Rightarrow> node \<times> string option" where
  "next_num n =
     (let k = currLogNum (rf n) + 1
      in (n\<lparr>rf := (rf n)\<lparr>currLogNum := k\<rparr>\<rparr>, if printable k then Some (str_int k) else None))"

definition replicate_in :: "string \<Rightarrow> string \<Rightarrow> node \<Rightarrow> node" where
  "replicate_in num update n =
     (let n1 = n\<lparr>wr := (wr n)\<lparr>logs := (logs (wr n))(num \<mapsto> update)\<rparr>\<rparr>;
          n2 = (case split_on comma (strip update) of
                  [host, t, ip] \<Rightarrow>
                    (case host of
                       [] \<Rightarrow> n1
                     | c # _ \<Rightarrow>
                         if lower_char c \<in> selfRecords (st n1)
                         then n1\<lparr>st := (st n1)\<lparr>records := (records (st n1))((strip host, strip t) \<mapsto> strip ip)\<rparr>\<rparr>
                         else n1)
                | _ \<Rightarrow> n1)
      in sendAck num n2)"

definition writeHandler :: "string \<Rightarrow> node \<Rightarrow> outcome \<times> node" where
  "writeHandler query n0 =
     (let n = n0\<lparr>wr := (wr n0)\<lparr>raft_set := True\<rparr>\<rparr>;
          parts = split_on (CHR '';'') (strip query);
          msg_type = hd parts
      in if msg_type = ''1'' then
           (case parts of
              _ # update # _ \<Rightarrow>
                (case next_num n of
                   (n1, None) \<Rightarrow> (Raised ValueError, n1)
                 | (n1, Some num) \<Rightarrow> writeStarter update num n1)
            | _ \<Rightarrow> (Done, n))
         else if msg_type = ''2'' then
           (case parts of
              _ # num # update # _ \<Rightarrow> (Done, replicate_in num update n)
            | _ \<Rightarrow> (Done, n))
         else if msg_type = ''3'' then
           (case parts of _ # num # _ \<Rightarrow> (Done, ackHandler num n) | _ \<Rightarrow> (Done, n))
         else if msg_type = ''4'' then
           (case parts of _ # num # _ \<Rightarrow> commitHandler num n | _ \<Rightarrow> (Done, n))
         else (Done, n))"

definition newRecord :: "(string \<Rightarrow> string option) \<Rightarrow> string \<Rightarrow> node \<Rightarrow> string \<times> node" where
  "newRecord dns domain n =
     (case dns domain of
        None \<Rightarrow> (''N/A'', n)
      | Some ip \<Rightarrow>
          if \<not> raft_set (wr n) then (''N/A'', n)
          else (case next_num n of
                  (n1, None) \<Rightarrow> (''N/A'', n1)
                | (n1, Some num) \<Rightarrow>
                    (case writeStarter (domain @ comma # ''A'' @ comma # ip) num n1 of
                       (Done, n2) \<Rightarrow> (ip, n2)
                     | (Raised e, n2) \<Rightarrow> (''N/A'', n2))))"

section \<open>What a commit does to a shard file\<close>

lemma rewrite_lines_domain:
  "rewrite_lines d u ls =
     (let ls' = map (\<lambda>l. if line_domain l = d then u @ [NL] else l) ls
      in if \<exists>l \<in> set ls. line_domain l = d then ls' else ls' @ [u @ [NL]])"
  by (simp add: rewrite_lines_def line_domain_def Let_def)

lemma last_record_map:
  assumes "update_ok d t v"
  shows "last_record (d', t') (map (\<lambda>l. if line_domain l = d then update_text d t v @ [NL] else l) ls) =
    (if d' = d then (if t' = t \<and> (\<exists>l \<in> set ls. line_domain l = d) then Some v else None)
     else last_record (d', t') ls)"
proof (induction ls)
  case (Cons l ls)
  note u = line_record_update [OF assms]
  show ?case
  proof (cases "line_domain l = d")
    case True
    then have "line_record l = Some ((d', t'), w) \<Longrightarrow> d' = d" for w
      using line_record_domain [of l d' t' w] by simp
    with True u Cons show ?thesis by (auto split: option.splits)
  next
    case False
    then have "line_record l \<noteq> Some ((d, t'), w)" for w using line_record_domain [of l d t' w] by auto
    with False Cons show ?thesis by (auto split: option.splits)
  qed
qed simp

text \<open>On the map a file stands for, a commit replaces everything stored for the domain.\<close>

lemma last_record_rewrite:
  assumes "update_ok d t v"
  shows "last_record (d', t') (rewrite_lines d (update_text d t v) ls) =
    (if d' = d then (if t' = t then Some v else None) else last_record (d', t') ls)"
proof -
  have one: "last_record (d', t') [update_text d t v @ [NL]] = (if d' = d \<and> t' = t then Some v else None)"
    by (simp add: line_record_update [OF assms])
  show ?thesis
  proof (cases "\<exists>l \<in> set ls. line_domain l = d")
    case True
    then show ?thesis by (simp add: rewrite_lines_domain Let_def last_record_map [OF assms])
  next
    case False
    have "rewrite_lines d (update_text d t v) ls =
        map (\<lambda>l. if line_domain l = d then update_text d t v @ [NL] else l) ls @ [update_text d t v @ [NL]]"
      using False by (simp only: rewrite_lines_domain Let_def if_False)
    then show ?thesis using False
      by (simp only: last_record_append one last_record_map [OF assms]) auto
  qed
qed

lemma rewrite_lines_full:
  "update_ok d t v \<Longrightarrow> \<forall>l \<in> set ls. full_line l \<Longrightarrow>
   \<forall>l \<in> set (rewrite_lines d (update_text d t v) ls). full_line l"
  by (auto simp: rewrite_lines_domain Let_def full_line_update)

definition update_path :: "string \<Rightarrow> string" where
  "update_path d = shard_path (lower_char (hd d))"

text \<open>A disk that can read and write the shard file of a domain.\<close>

definition disk_ok :: "disk \<Rightarrow> string \<Rightarrow> bool" where
  "disk_ok dk d \<longleftrightarrow> read_fault dk (update_path d) = None \<and> write_fault dk (update_path d) = None"

lemma commit_eq:
  assumes u: "update_ok d t v" and l: "logs (wr n) num = Some (update_text d t v)" and dk: "disk_ok (dsk n) d"
  shows "commitHandler num n = (Done, n\<lparr>
    dsk := (dsk n)\<lparr>files := (files (dsk n))(update_path d \<mapsto>
      concat (rewrite_lines d (update_text d t v) (shard_lines (dsk n) (lower_char (hd d)))))\<rparr>,
    st := (st n)\<lparr>records := (records (st n))((d, t) \<mapsto> v)\<rparr>\<rparr>)"
proof -
  obtain c cs where d: "d = c # cs" using u by (cases d) (auto simp: update_ok_def field_ok_def)
  have f: "strip d = d" "strip t = t" "strip v = v" using u by (simp_all add: update_ok_def field_strip)
  have old: "(case open_read (shard_path (lower_char c)) (dsk n) of Inr content \<Rightarrow> Inr (file_lines content)
      | Inl e \<Rightarrow> if e = FileNotFoundError then Inr [] else Inl e) = Inr (shard_lines (dsk n) (lower_char c))"
    using dk by (simp add: open_read_def shard_lines_def disk_ok_def update_path_def d split: option.split)
  show ?thesis
    using l dk update_chars [OF u] u f old
    by (simp add: commitHandler_def update_split update_path_def d disk_ok_def Let_def open_write_def)
qed

lemma shard_lines_written:
  assumes "\<forall>l \<in> set ls. full_line l"
  shows "shard_lines (dk\<lparr>files := (files dk)(shard_path c \<mapsto> concat ls)\<rparr>) c = ls"
  using assms by (simp add: shard_lines_def file_lines_concat)

text \<open>All lines of the shard file of a domain are complete.\<close>

definition file_complete :: "disk \<Rightarrow> string \<Rightarrow> bool" where
  "file_complete dk d \<longleftrightarrow> (\<forall>l \<in> set (shard_lines dk (lower_char (hd d))). last l = NL)"

lemma file_complete_full: "file_complete dk d \<Longrightarrow> \<forall>l \<in> set (shard_lines dk (lower_char (hd d))). full_line l"
  by (auto simp: file_complete_def shard_lines_def intro: file_lines_full split: option.splits)

lemma commit_lines:
  assumes "update_ok d t v" and "logs (wr n) num = Some (update_text d t v)" and "disk_ok (dsk n) d"
    and "file_complete (dsk n) d"
  shows "shard_lines (dsk (snd (commitHandler num n))) (lower_char (hd d)) =
    rewrite_lines d (update_text d t v) (shard_lines (dsk n) (lower_char (hd d)))"
  using rewrite_lines_full [OF assms(1) file_complete_full [OF assms(4)]]
  by (simp add: commit_eq [OF assms(1-3)] update_path_def shard_lines_written)

section \<open>What a message does\<close>

definition write_msg :: "update \<Rightarrow> string" where
  "write_msg u = (case u of (d, t, v) \<Rightarrow> ''1;'' @ update_text d t v)"

text \<open>The other nodes a node knows, and the packets that replicate an entry to them.\<close>

definition others :: "states \<Rightarrow> string list" where
  "others s = filter (\<lambda>ip. ip \<noteq> selfIp s) (dkeys (nodes s))"

definition log_msg :: "string \<Rightarrow> string \<Rightarrow> string" where
  "log_msg num update = ''2;'' @ num @ CHR '';'' # update @ [NL]"

definition log_packets :: "string \<Rightarrow> string \<Rightarrow> states \<Rightarrow> packet list" where
  "log_packets num update s = map (\<lambda>ip. (ip, 9000, log_msg num update)) (others s)"

lemma sendLog_eq:
  "py_int num = Some i \<Longrightarrow> sendLog (num @ CHR '';'' # update) num n =
     (Done, n\<lparr>rf := (rf n)\<lparr>currLogNum := i\<rparr>, net := net n @ log_packets num update (st n)\<rparr>)"
  by (simp add: sendLog_def sendToFollower_eq log_packets_def others_def log_msg_def)

lemma writeStarter_eq:
  assumes "printable k" and "num = str_int k"
  shows "writeStarter update num n = commitHandler num (n\<lparr>
    wr := (wr n)\<lparr>logs := (logs (wr n))(num \<mapsto> update)\<rparr>,
    rf := (rf n)\<lparr>currLogNum := k\<rparr>, net := net n @ log_packets num update (st n)\<rparr>)"
  using assms by (simp add: writeStarter_def printable_def py_int_str_int sendLog_eq)

lemma strip_typed:
  assumes "update_ok d t v" and "\<not> py_isspace c"
  shows "strip (c # CHR '';'' # p @ update_text d t v) = c # CHR '';'' # p @ update_text d t v"
proof -
  have "stripped [c]" using assms(2) by (simp add: stripped_def)
  then have "stripped ([c] @ (CHR '';'' # p) @ update_text d t v)"
    using update_stripped [OF assms(1)] update_chars [OF assms(1)] by (intro stripped_append) simp_all
  then show ?thesis by (simp add: strip_id)
qed

text \<open>The node a write leaves behind.\<close>

definition written :: "string \<Rightarrow> string \<Rightarrow> string \<Rightarrow> node \<Rightarrow> node" where
  "written d t v n =
     (let num = str_int (currLogNum (rf n) + 1); update = update_text d t v
      in n\<lparr>rf := (rf n)\<lparr>currLogNum := currLogNum (rf n) + 1\<rparr>,
           net := net n @ log_packets num update (st n),
           wr := (wr n)\<lparr>logs := (logs (wr n))(num \<mapsto> update), raft_set := True\<rparr>,
           dsk := (dsk n)\<lparr>files := (files (dsk n))(update_path d \<mapsto>
             concat (rewrite_lines d update (shard_lines (dsk n) (lower_char (hd d)))))\<rparr>,
           st := (st n)\<lparr>records := (records (st n))((d, t) \<mapsto> v)\<rparr>\<rparr>)"

lemma write_eq:
  assumes "update_ok d t v" and "printable (currLogNum (rf n) + 1)" and "disk_ok (dsk n) d"
  shows "writeHandler (write_msg (d, t, v)) n = (Done, written d t v n)"
proof -
  have "strip (CHR ''1'' # CHR '';'' # [] @ update_text d t v) = CHR ''1'' # CHR '';'' # [] @ update_text d t v"
    by (intro strip_typed [OF assms(1)]) code_simp
  then have "split_on (CHR '';'') (strip (write_msg (d, t, v))) = [''1'', update_text d t v]"
    using update_chars [OF assms(1)] by (simp add: write_msg_def split_on_single)
  then show ?thesis
    using assms by (simp add: writeHandler_def next_num_def Let_def writeStarter_eq commit_eq written_def)
qed

section \<open>The files as a record store\<close>

text \<open>The table the shard files of a disk stand for.\<close>

definition disk_look :: "disk \<Rightarrow> record_map" where
  "disk_look dk = (\<lambda>(d, t). last_record (d, t) (shard_lines dk (lower_char (hd d))))"

text \<open>Readable, writable shard files with complete lines, and log numbers left to print.\<close>

definition disk_sound :: "disk \<Rightarrow> bool" where
  "disk_sound dk \<longleftrightarrow> (\<forall>c. read_fault dk (shard_path c) = None \<and> write_fault dk (shard_path c) = None
     \<and> (\<forall>l \<in> set (shard_lines dk c). last l = NL))"

definition room :: "nat \<Rightarrow> node \<Rightarrow> bool" where
  "room k n \<longleftrightarrow> disk_sound (dsk n) \<and> (\<forall>i < k. printable (currLogNum (rf n) + 1 + int i))"

definition write_node :: "update \<Rightarrow> node \<Rightarrow> node" where
  "write_node u n = snd (writeHandler (write_msg u) n)"

lemma shard_path_inj [simp]: "shard_path c = shard_path c' \<longleftrightarrow> c = c'"
  by (simp add: shard_path_def)

lemma disk_sound_ok: "disk_sound dk \<Longrightarrow> disk_ok dk d" "disk_sound dk \<Longrightarrow> file_complete dk d"
  by (simp_all add: disk_sound_def disk_ok_def file_complete_def update_path_def)

lemma write_node_eq:
  assumes "update_ok d t v" and "room (Suc k) n"
  shows "write_node (d, t, v) n = written d t v n"
  using assms write_eq [OF assms(1), of n] disk_sound_ok
  by (fastforce simp: write_node_def room_def)

lemma written_lines:
  assumes "update_ok d t v" and "disk_sound (dsk n)"
  shows "shard_lines (dsk (written d t v n)) c =
    (if c = lower_char (hd d)
     then rewrite_lines d (update_text d t v) (shard_lines (dsk n) c) else shard_lines (dsk n) c)"
  using rewrite_lines_full [OF assms(1) file_complete_full [OF disk_sound_ok(2) [OF assms(2)]]]
  by (simp add: written_def Let_def update_path_def shard_lines_written) (simp add: shard_lines_def)

lemma written_look:
  assumes "update_ok d t v" and "disk_sound (dsk n)"
  shows "disk_look (dsk (written d t v n)) = replace (d, t, v) (disk_look (dsk n))"
  by (auto simp: disk_look_def replace_def written_lines [OF assms] last_record_rewrite [OF assms(1)])

lemma written_sound:
  assumes "update_ok d t v" and "disk_sound (dsk n)"
  shows "disk_sound (dsk (written d t v n))"
proof -
  have "\<forall>l \<in> set (rewrite_lines d (update_text d t v) (shard_lines (dsk n) (lower_char (hd d)))). last l = NL"
    using rewrite_lines_full [OF assms(1) file_complete_full [OF disk_sound_ok(2) [OF assms(2), of d]]]
    by (auto simp: full_line_def)
  moreover have "read_fault (dsk (written d t v n)) = read_fault (dsk n)"
    "write_fault (dsk (written d t v n)) = write_fault (dsk n)"
    by (simp_all add: written_def Let_def)
  ultimately show ?thesis using assms(2) by (auto simp: disk_sound_def written_lines [OF assms])
qed

lemma written_room:
  assumes "update_ok d t v" and "room (Suc k) n"
  shows "room k (written d t v n)"
proof -
  have "printable (currLogNum (rf n) + 1 + 1 + int i)" if "i < k" for i
    using assms(2) that unfolding room_def by (auto dest!: spec [of _ "Suc i"] simp: ac_simps)
  moreover have "currLogNum (rf (written d t v n)) = currLogNum (rf n) + 1" by (simp add: written_def Let_def)
  ultimately show ?thesis using assms written_sound by (simp add: room_def)
qed

interpretation disk_store: record_store room "\<lambda>n. disk_look (dsk n)" write_node
proof (unfold_locales, goal_cases)
  case (1 u k s)
  then show ?case by (cases u) (simp add: valid_update_def write_node_eq written_room)
next
  case (2 u k s)
  then have "disk_sound (dsk s)" by (simp add: room_def)
  with 2 show ?case by (cases u) (simp add: valid_update_def write_node_eq written_look)
qed

section \<open>Properties\<close>

text \<open>The node \<^verbatim>\<open>main\<close> assembles: a fresh writer beside the coordinator, over a disk.\<close>

definition with_disk :: "core \<Rightarrow> disk \<Rightarrow> node" where
  "with_disk c dk = \<lparr>st = st c, rf = rf c, net = net c, wr = writer_init, dsk = dk\<rparr>"

definition example_leader :: node where
  "example_leader = with_disk (booted_node [''10.0.0.3'', ''10.0.0.9''] ''10.0.0.9'') example_disk"

definition example_follower :: node where
  "example_follower = with_disk booted_follower example_disk"

lemma example_leader_fields:
  "currLogNum (rf example_leader) = 0" "dsk example_leader = example_disk" "net example_leader = []"
  "others (st example_leader) = [''10.0.0.3'']" "wr example_leader = writer_init"
  "leader (rf example_leader)"
  by (simp_all add: example_leader_def with_disk_def booted_node_def raft_init_def)
    (simp add: others_def member_state_def)

lemma example_disk_sound: "disk_sound example_disk"
proof -
  have "\<forall>l \<in> set (shard_lines example_disk c). last l = NL" for c
    by (cases "c = CHR ''a''") (simp_all add: example_lines)
  then show ?thesis unfolding disk_sound_def by (simp add: example_disk_def)
qed

lemma example_room: "room 2 example_leader" "room 1 example_leader"
proof -
  have "printable 1" "printable 2" by code_simp+
  then show "room 2 example_leader" "room 1 example_leader"
    by (auto simp: room_def example_leader_fields example_disk_sound less_2_cases_iff numeral_2_eq_2 less_Suc_eq)
qed

lemma example_updates: "update_ok ''a.com'' ''A'' ''3.3.3.3''" "update_ok ''b.com'' ''A'' ''4.4.4.4''"
  by code_simp+

text \<open>
  C3: a write is numbered, logged, replicated and committed in one go. For a well-formed update
  on a node whose files are sound, a type-1 message raises the log number by one, stores the
  update in the log under that number, sends the entry \<^verbatim>\<open>2;num;update\<close> to port 9000 of every
  other known node and to nobody else, stores the record in memory and in the shard file, and
  leaves every other file alone. No acknowledgement is awaited and leadership is not checked.
\<close>

theorem write_effect:
  assumes "update_ok d t v" and "room 1 n" and "num = str_int (currLogNum (rf n) + 1)"
  shows "\<exists>n'. writeHandler (''1;'' @ update_text d t v) n = (Done, n')
    \<and> rf n' = (rf n)\<lparr>currLogNum := currLogNum (rf n) + 1\<rparr>
    \<and> logs (wr n') = (logs (wr n))(num \<mapsto> update_text d t v) \<and> logAck (wr n') = logAck (wr n)
    \<and> net n' = net n @ map (\<lambda>ip. (ip, 9000, ''2;'' @ num @ '';'' @ update_text d t v @ [NL])) (others (st n))
    \<and> st n' = (st n)\<lparr>records := (records (st n))((d, t) \<mapsto> v)\<rparr>
    \<and> disk_look (dsk n') = replace (d, t, v) (disk_look (dsk n))
    \<and> (\<forall>p. p \<noteq> shard_path (lower_char (hd d)) \<longrightarrow> files (dsk n') p = files (dsk n) p)"
proof -
  have ds: "disk_sound (dsk n)" and p: "printable (currLogNum (rf n) + 1)"
    using assms(2) by (simp_all add: room_def)
  have "writeHandler (''1;'' @ update_text d t v) n = (Done, written d t v n)"
    using write_eq [OF assms(1) p disk_sound_ok(1) [OF ds]] by (simp add: write_msg_def)
  with written_look [OF assms(1) ds] show ?thesis
    by (simp add: assms(3)) (simp add: written_def Let_def log_packets_def log_msg_def update_path_def)
qed

theorem write_effect_witness:
  "\<exists>n'. writeHandler (''1;'' @ update_text ''b.com'' ''A'' ''4.4.4.4'') example_leader = (Done, n')
    \<and> net n' = [(''10.0.0.3'', 9000, ''2;1;b.com,A,4.4.4.4'' @ [NL])] \<and> currLogNum (rf n') = 1"
proof -
  have "str_int 1 = ''1''" by code_simp
  then show ?thesis
    using write_effect [OF example_updates(2) example_room(2)]
    by (auto simp: example_leader_fields update_text_def)
qed

text \<open>
  C4: the files implement a table in which the last write wins. Over any sequence of
  well-formed writes, the table the shard files stand for gives, for a domain, the record of
  the last update written for it (and no record of another type), and what it gave before for a
  domain that was not written.
\<close>

theorem last_write_wins_on_disk:
  assumes "room (length us) n" and "\<forall>u \<in> set us. valid_update u"
  shows "disk_look (dsk (fold write_node us n)) (d, t) =
    (case last_update d us of
       None \<Rightarrow> disk_look (dsk n) (d, t) | Some (t', v) \<Rightarrow> if t = t' then Some v else None)"
  using assms by (rule disk_store.last_write_wins)

theorem last_write_wins_on_disk_witness:
  "disk_look (dsk (fold write_node [(''a.com'', ''A'', ''3.3.3.3''), (''b.com'', ''A'', ''4.4.4.4'')]
     example_leader)) (''a.com'', ''A'') = Some ''3.3.3.3''"
proof -
  let ?us = "[(''a.com'', ''A'', ''3.3.3.3''), (''b.com'', ''A'', ''4.4.4.4'')]"
  have "room (length ?us) example_leader" using example_room(1) by (simp add: numeral_2_eq_2)
  moreover have "\<forall>u \<in> set ?us. valid_update u" using example_updates by (simp add: valid_update_def)
  ultimately show ?thesis
    using last_write_wins_on_disk [of ?us example_leader "''a.com''" "''A''"] by (simp add: last_update_def)
qed

text \<open>
  Nodes that commit the same updates agree. Two nodes whose files stand for the same table
  stand for the same table again after two sequences of writes that agree on the order of the
  updates of each domain, whatever the order between different domains and whatever the
  nodes' log numbers.
\<close>

theorem commits_agree:
  assumes "room (length us) n" and "room (length us') n'"
    and "\<forall>u \<in> set us. valid_update u" and "\<forall>u \<in> set us'. valid_update u"
    and "disk_look (dsk n) = disk_look (dsk n')"
    and "\<And>d. filter (\<lambda>u. fst u = d) us = filter (\<lambda>u. fst u = d) us'"
  shows "disk_look (dsk (fold write_node us n)) = disk_look (dsk (fold write_node us' n'))"
  using assms by (rule disk_store.order_per_domain)

theorem commits_agree_witness:
  "disk_look (dsk (fold write_node [(''a.com'', ''A'', ''3.3.3.3''), (''b.com'', ''A'', ''4.4.4.4'')] example_leader))
   = disk_look (dsk (fold write_node [(''b.com'', ''A'', ''4.4.4.4''), (''a.com'', ''A'', ''3.3.3.3'')] example_leader))"
  using example_room(1) example_updates
  by (intro commits_agree) (auto simp: numeral_2_eq_2 valid_update_def)

lemma rewrite_lines_set:
  "set (rewrite_lines d u ls) \<subseteq> insert (u @ [NL]) (set ls)"
  by (auto simp: rewrite_lines_domain Let_def)

lemma written_clean:
  assumes "update_ok d t v" and "disk_sound (dsk n)" and "hd d = lower_char (hd d)" and "clean_shard (dsk n) c"
  shows "clean_shard (dsk (written d t v n)) c"
proof -
  have "set (shard_lines (dsk (written d t v n)) c) \<subseteq>
      (if c = hd d then insert (update_text d t v @ [NL]) (set (shard_lines (dsk n) c)) else set (shard_lines (dsk n) c))"
    using rewrite_lines_set [of d "update_text d t v" "shard_lines (dsk n) c"] assms(3)
    by (auto simp: written_lines [OF assms(1,2)])
  moreover have "d \<noteq> []" using assms(1) by (auto simp: update_ok_def field_ok_def)
  ultimately show ?thesis
    using assms(4) line_record_update [OF assms(1)]
    unfolding clean_shard_def by (cases "c = hd d") fastforce+
qed

text \<open>
  A write survives a restart. After a well-formed write of an address record for a
  lower-case domain, a reader started on the files of the node (for any owner of the domain's
  letter whose shard files hold only domains of their letter) answers the value written.
\<close>

theorem write_survives_restart:
  assumes "update_ok d ''A'' v" and "lower d = d" and "room 1 n"
    and "\<forall>c \<in> selfRecords s. clean_shard (dsk n) c" and "hd d \<in> selfRecords s"
    and "distinct order" and "set order = selfRecords s"
  shows "\<exists>s'. Reader_init order (dsk (snd (writeHandler (''1;'' @ update_text d ''A'' v) n))) s = Inr s'
    \<and> recordResponse d ''A'' s' = v"
proof -
  let ?n = "written d ''A'' v n"
  have ds: "disk_sound (dsk n)" and p: "printable (currLogNum (rf n) + 1)"
    using assms(3) by (simp_all add: room_def)
  have n: "snd (writeHandler (''1;'' @ update_text d ''A'' v) n) = ?n"
    using write_eq [OF assms(1) p disk_sound_ok(1) [OF ds]] by (simp add: write_msg_def)
  have d: "d \<noteq> []" "stripped d" using assms(1) by (simp_all add: update_ok_def field_ok_def)
  then have c: "hd d = lower_char (hd d)" using assms(2) by (cases d) (simp_all add: lower_def)
  have "disk_look (dsk ?n) (d, ''A'') = Some v" by (simp add: written_look [OF assms(1) ds] replace_apply)
  then have "last_record (d, ''A'') (shard_lines (dsk ?n) (hd d)) = Some v"
    using c by (simp add: disk_look_def)
  moreover have "\<forall>c \<in> selfRecords s. read_fault (dsk ?n) (shard_path c) = None \<and> clean_shard (dsk ?n) c"
    using ds assms(4) by (auto simp: written_clean [OF assms(1) ds c]) (simp add: written_def Let_def disk_sound_def)
  ultimately show ?thesis
    using reader_loads [OF assms(6,7), of "dsk ?n" d] d assms(2,5) unfolding n by auto
qed

theorem write_survives_restart_witness:
  "\<exists>s'. Reader_init ALPHABET
      (dsk (snd (writeHandler (''1;'' @ update_text ''a.com'' ''A'' ''3.3.3.3'') example_leader))) example_state = Inr s'
    \<and> recordResponse ''a.com'' ''A'' s' = ''3.3.3.3''"
proof -
  have l: "line_record (''a.com,A,1.1.1.1'' @ [NL]) = Some ((''a.com'', ''A''), ''1.1.1.1'')"
    "line_record (''a.com,A,2.2.2.2'' @ [NL]) = Some ((''a.com'', ''A''), ''2.2.2.2'')"
    by code_simp+
  have "clean_shard example_disk c" for c
    using l by (cases "c = CHR ''a''") (simp_all add: clean_shard_def example_lines)
  moreover have "distinct ALPHABET" "lower ''a.com'' = ''a.com''" "hd ''a.com'' \<in> set ALPHABET"
    by code_simp+
  ultimately show ?thesis
    by (intro write_survives_restart [OF example_updates(1) _ example_room(2)])
      (simp_all add: example_state_fields example_leader_fields)
qed

section \<open>Replication\<close>

lemma split_log_msg:
  assumes "update_ok d t v"
  shows "split_on (CHR '';'') (strip (log_msg (str_int k) (update_text d t v))) =
    [''2'', str_int k, update_text d t v]"
proof -
  let ?m = "CHR ''2'' # CHR '';'' # (str_int k @ [CHR '';'']) @ update_text d t v"
  have "strip ?m = ?m" by (intro strip_typed [OF assms]) code_simp
  then have "strip (log_msg (str_int k) (update_text d t v)) = ?m"
    using strip_snoc_space [of NL ?m] by (simp add: log_msg_def)
  then show ?thesis
    using update_chars [OF assms] semi_free_int [of k]
    by (simp add: split_on_append split_on_single)
qed

definition ack_msg :: "string \<Rightarrow> string" where
  "ack_msg num = ''3;'' @ num @ [NL]"

lemma split_ack_msg: "split_on (CHR '';'') (strip (ack_msg (str_int k))) = [''3'', str_int k]"
proof -
  have "stripped ''3''" by code_simp
  then have "stripped (''3'' @ '';'' @ str_int k)" by (intro stripped_append) simp_all
  then have "strip (ack_msg (str_int k)) = ''3;'' @ str_int k"
    using strip_snoc_space [of NL "''3;'' @ str_int k"] by (simp add: ack_msg_def strip_id)
  then show ?thesis using semi_free_int [of k] by (simp add: split_on_single)
qed

lemma replicate_in_eq:
  assumes "update_ok d t v" and "\<not> leader (rf n)"
  shows "replicate_in num (update_text d t v) n = n\<lparr>
    wr := (wr n)\<lparr>logs := (logs (wr n))(num \<mapsto> update_text d t v)\<rparr>,
    st := (st n)\<lparr>records := (if lower_char (hd d) \<in> selfRecords (st n)
                            then (records (st n))((d, t) \<mapsto> v) else records (st n))\<rparr>,
    net := net n @ [(leaderIp (st n), 9000, ack_msg num)]\<rparr>"
proof -
  obtain c cs where d: "d = c # cs" using assms(1) by (cases d) (auto simp: update_ok_def field_ok_def)
  have f: "strip d = d" "strip t = t" "strip v = v" using assms(1) by (simp_all add: update_ok_def field_strip)
  have "split_on comma (strip (update_text d t v)) = [d, t, v]" using assms(1) by (simp add: update_split)
  then show ?thesis
    using f assms(2) unfolding replicate_in_def d by (simp add: Let_def sendAck_def send_raw_def ack_msg_def)
qed

text \<open>
  C6: a replicated entry is stored and acknowledged. When a follower handles a packet that a
  write of entry \<open>k\<close> sends, it logs the update under its number, takes the record into memory
  exactly when it owns the letter of the domain, leaves its files and its own log number alone,
  and sends one acknowledgement to its leader; and a node that handles that acknowledgement
  counts one more for entry \<open>k\<close> and does nothing else.
\<close>

theorem entry_replicated:
  assumes "update_ok d t v" and "\<not> leader (rf f)"
    and "(ip, port, msg) \<in> set (log_packets (str_int k) (update_text d t v) s)"
  shows "port = 9000 \<and> writeHandler msg f = (Done, f\<lparr>
      wr := (wr f)\<lparr>logs := (logs (wr f))(str_int k \<mapsto> update_text d t v), raft_set := True\<rparr>,
      st := (st f)\<lparr>records := (if lower_char (hd d) \<in> selfRecords (st f)
                              then (records (st f))((d, t) \<mapsto> v) else records (st f))\<rparr>,
      net := net f @ [(leaderIp (st f), 9000, ack_msg (str_int k))]\<rparr>)
    \<and> writeHandler (ack_msg (str_int k)) l = (Done, l\<lparr>wr := (wr l)\<lparr>raft_set := True,
        logAck := (logAck (wr l))(str_int k \<mapsto> (case logAck (wr l) (str_int k) of None \<Rightarrow> 0 | Some i \<Rightarrow> i) + 1)\<rparr>\<rparr>)"
proof -
  have msg: "port = 9000" "msg = log_msg (str_int k) (update_text d t v)"
    using assms(3) by (auto simp: log_packets_def)
  have "writeHandler (log_msg (str_int k) (update_text d t v)) f = (Done, f\<lparr>
      wr := (wr f)\<lparr>logs := (logs (wr f))(str_int k \<mapsto> update_text d t v), raft_set := True\<rparr>,
      st := (st f)\<lparr>records := (if lower_char (hd d) \<in> selfRecords (st f)
                              then (records (st f))((d, t) \<mapsto> v) else records (st f))\<rparr>,
      net := net f @ [(leaderIp (st f), 9000, ack_msg (str_int k))]\<rparr>)"
    by (simp add: writeHandler_def split_log_msg [OF assms(1)] replicate_in_eq [OF assms(1)] assms(2))
  moreover have "writeHandler (ack_msg (str_int k)) l = (Done, l\<lparr>wr := (wr l)\<lparr>raft_set := True,
        logAck := (logAck (wr l))(str_int k \<mapsto> (case logAck (wr l) (str_int k) of None \<Rightarrow> 0 | Some i \<Rightarrow> i) + 1)\<rparr>\<rparr>)"
    by (simp add: writeHandler_def split_ack_msg ackHandler_def Let_def)
  ultimately show ?thesis using msg by simp
qed

theorem entry_replicated_witness:
  "\<exists>f'. writeHandler (log_msg (str_int 1) (update_text ''b.com'' ''A'' ''4.4.4.4'')) example_follower = (Done, f')
    \<and> net f' = [(''10.0.0.9'', 9000, ack_msg (str_int 1))]"
proof -
  have f: "\<not> leader (rf example_follower)" "leaderIp (st example_follower) = ''10.0.0.9''" "net example_follower = []"
    using booted_follower_sees by (simp_all add: example_follower_def with_disk_def)
  have "(''10.0.0.3'', 9000, log_msg (str_int 1) (update_text ''b.com'' ''A'' ''4.4.4.4''))
      \<in> set (log_packets (str_int 1) (update_text ''b.com'' ''A'' ''4.4.4.4'') (st example_leader))"
    by (simp add: log_packets_def example_leader_fields)
  from entry_replicated [OF example_updates(2) f(1) this] show ?thesis by (simp add: f)
qed

lemma commit_keeps: "net (snd (commitHandler num n)) = net n" "rf (snd (commitHandler num n)) = rf n"
  by (simp_all add: commitHandler_def Let_def split: option.split list.split sum.split)

text \<open>What a node may send while it handles one message of the write port.\<close>

definition write_packet :: "node \<Rightarrow> packet \<Rightarrow> bool" where
  "write_packet n p = (case p of (ip, port, msg) \<Rightarrow> port = 9000 \<and>
     (ip \<in> set (others (st n)) \<and> startswith msg ''2;''
      \<or> ip = leaderIp (st n) \<and> \<not> leader (rf n) \<and> startswith msg ''3;''))"

lemma writeStarter_packets:
  assumes "st m = st n" and "net m = net n"
  shows "\<exists>ps. net (snd (writeStarter update num m)) = net n @ ps \<and> (\<forall>p \<in> set ps. write_packet n p)"
proof (cases "py_int num")
  case None
  then show ?thesis using assms by (simp add: writeStarter_def sendLog_def)
next
  case (Some i)
  have "\<forall>p \<in> set (log_packets num update (st n)). write_packet n p"
    by (auto simp: log_packets_def log_msg_def write_packet_def startswith_def)
  with Some assms show ?thesis by (auto simp: writeStarter_def sendLog_eq commit_keeps)
qed

lemma replicate_packets:
  "\<exists>ps. net (replicate_in num update n) = net n @ ps \<and> (\<forall>p \<in> set ps. write_packet n p)"
  by (auto simp: replicate_in_def Let_def sendAck_def write_packet_def startswith_def split: list.split)

text \<open>
  All a node ever sends while it handles a message of the write port, whatever the message,
  are replicated entries (type 2) to other nodes it knows and, on a follower, acknowledgements
  (type 3) to its leader, all to port 9000. So no commit signal (type 4) is ever sent, and a
  leader does not acknowledge.
\<close>

theorem write_port_traffic:
  "\<exists>ps. net (snd (writeHandler query n)) = net n @ ps \<and> (\<forall>(ip, port, msg) \<in> set ps. port = 9000 \<and>
     (ip \<in> set (others (st n)) \<and> startswith msg ''2;''
      \<or> ip = leaderIp (st n) \<and> \<not> leader (rf n) \<and> startswith msg ''3;''))"
proof -
  have "\<exists>ps. net (snd (writeHandler query n)) = net n @ ps \<and> (\<forall>p \<in> set ps. write_packet n p)"
    using writeStarter_packets [of "fst (next_num (n\<lparr>wr := (wr n)\<lparr>raft_set := True\<rparr>\<rparr>))" n]
      replicate_packets [of _ _ "n\<lparr>wr := (wr n)\<lparr>raft_set := True\<rparr>\<rparr>"]
    by (simp add: writeHandler_def Let_def next_num_def ackHandler_def commit_keeps write_packet_def
        split: list.split)
  then show ?thesis by (fastforce simp: write_packet_def)
qed

theorem write_port_traffic_witness:
  "\<exists>ps. net (snd (writeHandler ''4;1'' example_leader)) = ps \<and> (\<forall>(ip, port, msg) \<in> set ps. port = 9000)"
  using write_port_traffic [of "''4;1''" example_leader] by (fastforce simp: example_leader_fields)

section \<open>Log numbers\<close>

text \<open>A message that starts a write: type 1 with a body.\<close>

definition starts_write :: "string \<Rightarrow> bool" where
  "starts_write query = (case split_on (CHR '';'') (strip query) of m # _ # _ \<Rightarrow> m = ''1'' | _ \<Rightarrow> False)"

definition handle_all :: "string list \<Rightarrow> node \<Rightarrow> node" where
  "handle_all qs n = fold (\<lambda>q n. snd (writeHandler q n)) qs n"

lemma replicate_keeps: "rf (replicate_in num update n) = rf n"
  by (simp add: replicate_in_def Let_def sendAck_def split: list.split)

lemma write_number:
  assumes "printable (currLogNum (rf n) + 1)"
  shows "currLogNum (rf (snd (writeHandler query n))) = currLogNum (rf n) + (if starts_write query then 1 else 0)"
  using assms
  by (simp add: writeHandler_def starts_write_def next_num_def ackHandler_def Let_def commit_keeps replicate_keeps
      writeStarter_eq split: list.split)

text \<open>
  Log numbers count writes. Over any sequence of messages on the write port, malformed ones
  and those of other types included, the log number of the node grows by exactly the number of
  write requests (type 1 with a body); in particular replicated entries never advance it.
\<close>

theorem log_number_counts_writes:
  assumes "\<forall>i < length qs. printable (currLogNum (rf n) + 1 + int i)"
  shows "currLogNum (rf (handle_all qs n)) = currLogNum (rf n) + int (length (filter starts_write qs))"
  using assms
proof (induction qs rule: rev_induct)
  case (snoc q qs)
  have IH: "currLogNum (rf (handle_all qs n)) = currLogNum (rf n) + int (length (filter starts_write qs))"
    using snoc by simp
  have "length (filter starts_write qs) < length (qs @ [q])"
    using le_imp_less_Suc [OF length_filter_le [of starts_write qs]] by simp
  then have "printable (currLogNum (rf n) + 1 + int (length (filter starts_write qs)))"
    using snoc.prems by blast
  then have "printable (currLogNum (rf (handle_all qs n)) + 1)" by (simp add: IH algebra_simps)
  then show ?case using IH by (simp add: handle_all_def write_number)
qed (simp add: handle_all_def)

theorem log_number_counts_writes_witness:
  "currLogNum (rf (handle_all [''1;b.com,A,4.4.4.4'', ''2;7;x''] example_leader)) = 1"
proof -
  have "printable 1" "printable 2" by code_simp+
  then have "\<forall>i < 2. printable (currLogNum (rf example_leader) + 1 + int i)"
    by (auto simp: example_leader_fields less_2_cases_iff)
  moreover have "starts_write ''1;b.com,A,4.4.4.4''" "\<not> starts_write ''2;7;x''" by code_simp+
  ultimately show ?thesis
    using log_number_counts_writes [of "[''1;b.com,A,4.4.4.4'', ''2;7;x'']" example_leader]
    by (simp add: example_leader_fields numeral_2_eq_2)
qed

section \<open>Where writes and reads do not fit\<close>

text \<open>
  A domain written with an upper-case letter can never be looked up. The write stores it in
  memory under its own spelling, while a look-up folds the name to lower case: after the write,
  looking the domain up gives exactly what it gave before.
\<close>

theorem upper_case_unreachable:
  assumes "update_ok d t v" and "room 1 n" and "lower d \<noteq> d"
  shows "recordResponse d t' (st (snd (writeHandler (''1;'' @ update_text d t v) n))) = recordResponse d t' (st n)"
proof -
  have "strip d = d" using assms(1) by (simp add: update_ok_def field_strip)
  then show ?thesis
    using assms write_eq [OF assms(1), of n] disk_sound_ok(1) [of "dsk n" d]
    by (auto simp: room_def write_msg_def written_def Let_def recordResponse_def split: list.split)
qed

theorem upper_case_unreachable_witness:
  "recordResponse ''B.com'' ''A'' (st (snd (writeHandler (''1;'' @ update_text ''B.com'' ''A'' ''4.4.4.4'') example_leader)))
   = ''N/A''"
proof -
  have "update_ok ''B.com'' ''A'' ''4.4.4.4''" "lower ''B.com'' \<noteq> ''B.com''" by code_simp+
  moreover have "records (st example_leader) = Map.empty"
    by (simp add: example_leader_def with_disk_def booted_node_def member_state_def updateState_def updateRecordSet_def)
  moreover from this have "recordResponse ''B.com'' ''A'' (st example_leader) = ''N/A''"
    by (simp add: recordResponse_def)
  ultimately show ?thesis using upper_case_unreachable [OF _ example_room(2)] by simp
qed

lemma keep_lines_open: "s \<noteq> [] \<Longrightarrow> NL \<notin> set s \<Longrightarrow> keep_lines s = [s]"
proof (induction s)
  case (Cons c s)
  then show ?case by (cases "s = []") auto
qed simp

text \<open>Two records on one line have five fields and are no record.\<close>

lemma glued_line:
  assumes "update_ok d' t' v'" and "update_ok d t v"
  shows "line_record (update_text d' t' v' @ update_text d t v @ [NL]) = None"
proof -
  have "stripped (update_text d' t' v' @ [] @ update_text d t v)"
    using update_stripped [OF assms(1)] update_stripped [OF assms(2)] update_chars [OF assms(1)]
      update_chars [OF assms(2)] by (intro stripped_append) simp_all
  then have "strip (update_text d' t' v' @ update_text d t v @ [NL]) = update_text d' t' v' @ update_text d t v"
    using strip_snoc_space [of NL "update_text d' t' v' @ update_text d t v"] by (simp add: strip_id)
  moreover have "split_on comma (update_text d' t' v' @ update_text d t v) = [d', t', v' @ d, t, v]"
    using assms split_on_append [of comma "v' @ d" "t @ comma # v"]
    by (simp add: update_ok_def field_ok_def update_text_def split_on_append split_on_single)
  ultimately show ?thesis by (simp add: line_record_def Let_def)
qed

text \<open>
  A file without a final line feed loses two records at the next new domain. If the shard file
  ends in a record of one domain without a line feed, a write of another domain of the shard is
  appended to that very line, and a reader started afterwards finds neither of the two (unless
  an earlier line has them).
\<close>

theorem unterminated_file_loses_records:
  assumes "update_ok d t v" and "update_ok d' t' v'" and "d \<noteq> d'" and "hd d = hd d'"
    and "printable (currLogNum (rf n) + 1)" and "disk_ok (dsk n) d"
    and "files (dsk n) (shard_path (lower_char (hd d))) = Some (update_text d' t' v')"
  shows "disk_look (dsk n) (d', t') = Some v'
    \<and> disk_look (dsk (snd (writeHandler (''1;'' @ update_text d t v) n))) (d', t') = None
    \<and> disk_look (dsk (snd (writeHandler (''1;'' @ update_text d t v) n))) (d, t) = None"
proof -
  let ?u = "update_text d t v" and ?u' = "update_text d' t' v'"
  note c = update_chars [OF assms(1)] update_chars [OF assms(2)]
  have one: "file_lines ?u' = [?u']" "file_lines (?u' @ ?u @ [NL]) = [?u' @ ?u @ [NL]]"
    using c keep_lines_line [of "?u' @ ?u" "[]"] by (simp_all add: file_lines_def univ_nl_id keep_lines_open)
  have dom': "line_domain ?u' = d'" and rec': "line_record ?u' = Some ((d', t'), v')"
    using line_record_update [OF assms(2)] line_record_domain [of ?u' d' t' v'] assms(2)
    by (auto simp: line_record_def)
  have w: "writeHandler (''1;'' @ ?u) n = (Done, written d t v n)"
    using write_eq [OF assms(1,5,6)] by (simp add: write_msg_def)
  have old: "shard_lines (dsk n) (lower_char (hd d)) = [?u']" using assms(7) one by (simp add: shard_lines_def)
  have "rewrite_lines d ?u [?u'] = [?u', ?u @ [NL]]" using dom' assms(3) by (simp add: rewrite_lines_domain)
  then have new: "shard_lines (dsk (written d t v n)) (lower_char (hd d)) = [?u' @ ?u @ [NL]]"
    using one old by (simp add: written_def Let_def update_path_def shard_lines_def)
  have "line_record (?u' @ ?u @ [NL]) = None"
    using glued_line [OF assms(2,1)] by simp
  with old new rec' w assms(4) show ?thesis by (simp add: disk_look_def)
qed

definition unterminated_disk :: disk where
  "unterminated_disk = example_disk\<lparr>files := [''../records/b.txt'' \<mapsto> update_text ''bb.com'' ''A'' ''1.1.1.1'']\<rparr>"

theorem unterminated_file_loses_records_witness:
  "disk_look (dsk (snd (writeHandler (''1;'' @ update_text ''b.com'' ''A'' ''4.4.4.4'')
     (example_leader\<lparr>dsk := unterminated_disk\<rparr>)))) (''bb.com'', ''A'') = None"
proof -
  have "update_ok ''bb.com'' ''A'' ''1.1.1.1''" "printable 1" "lower_char (CHR ''b'') = CHR ''b''" by code_simp+
  then show ?thesis
    using unterminated_file_loses_records [OF example_updates(2), of "''bb.com''" "''A''" "''1.1.1.1''"
        "example_leader\<lparr>dsk := unterminated_disk\<rparr>"]
    by (simp add: example_leader_fields unterminated_disk_def disk_ok_def example_disk_def shard_path_def)
qed

end
