(* ===== verification/Server.thy ===== *)
theory Server
  imports Writer
begin

text \<open>
  The three TCP servers of a data-plane node (\<^verbatim>\<open>data_plane/server.py\<close>, class \<^verbatim>\<open>Server\<close>): reads
  on port 8000, writes on port 9000, heartbeats on port 7001. A handler is run on what one
  connection delivers and gives the replies it wrote and the node it leaves. What the rest of
  the world answers while a line is handled is the record \<open>remote\<close>: other nodes
  (\<open>ask\<close>, for \<^verbatim>\<open>sendRead\<close>; \<open>forward\<close>, the first line the leader sends back), and the live
  name resolution. \<open>None\<close> is an operation that raises.
\<close>

section \<open>Data\<close>

record remote =
  ask :: "string \<Rightarrow> string \<Rightarrow> string option"
  forward :: "string \<Rightarrow> string \<Rightarrow> string option"
  dns :: "string \<Rightarrow> string option"

section \<open>READ (port 8000)\<close>

definition local_lookup :: "string \<Rightarrow> states \<Rightarrow> string" where
  "local_lookup domain s =
     (case domain of
        [] \<Rightarrow> ''N/A''
      | c # _ \<Rightarrow> if lower_char c \<in> selfRecords s then recordResponse domain ''A'' s else ''N/A'')"

definition forward_to_leader :: "remote \<Rightarrow> string \<Rightarrow> states \<Rightarrow> string" where
  "forward_to_leader r domain s =
     (case forward r (leaderIp s) (domain @ [NL]) of
        None \<Rightarrow> ''N/A''
      | Some line \<Rightarrow> let response = strip line in if response \<noteq> [] then response else ''N/A'')"

definition resolve :: "remote \<Rightarrow> string \<Rightarrow> node \<Rightarrow> string \<times> node" where
  "resolve r domain n =
     (let rec1 = local_lookup domain (st n)
      in if rec1 \<noteq> ''N/A'' then (rec1, n)
         else if leader (rf n) then
           (let rec2 = sendRead (ask r) domain n
            in if rec2 \<noteq> ''N/A'' then (rec2, n) else newRecord (dns r) domain n)
         else (forward_to_leader r domain (st n), n))"

text \<open>One request line that is not blank.\<close>

definition read_request :: "remote \<Rightarrow> string \<Rightarrow> node \<Rightarrow> string \<times> node" where
  "read_request r line n =
     (if startswith line ''PEER:'' then (local_lookup (drop 5 line) (st n), n) else resolve r line n)"

fun handle_read :: "(remote \<times> conn_event) list \<Rightarrow> node \<Rightarrow> string list \<times> node" where
  "handle_read [] n = ([], n)"
| "handle_read ((r, RecvError e) # es) n = ([], n)"
| "handle_read ((r, Recv data ok) # es) n =
     (if data = [] then ([], n)
      else let line = strip data;
               (record, n') = (if line = [] then (''N/A'', n) else read_request r line n)
        in if ok then let (rs, n'') = handle_read es n' in ((record @ [NL]) # rs, n'') else ([], n'))"

section \<open>WRITE (port 9000)\<close>

fun handle_write :: "conn_event list \<Rightarrow> node \<Rightarrow> string list \<times> node" where
  "handle_write [] n = ([], n)"
| "handle_write (RecvError e # es) n = ([], n)"
| "handle_write (Recv data ok # es) n =
     (if data = [] then ([], n)
      else let query = strip data
        in if query = [] then handle_write es n
           else (case writeHandler query n of
                   (Raised e, n') \<Rightarrow> ([], n')
                 | (Done, n') \<Rightarrow>
                     if ok then let (rs, n'') = handle_write es n' in ((''OK'' @ [NL]) # rs, n'')
                     else ([], n')))"

section \<open>SYNC (port 7001)\<close>

fun handle_sync :: "(time \<times> conn_event) list \<Rightarrow> 'a core_scheme \<Rightarrow> string list \<times> 'a core_scheme" where
  "handle_sync [] n = ([], n)"
| "handle_sync ((now, RecvError e) # es) n = ([], n)"
| "handle_sync ((now, Recv data ok) # es) n =
     (if data = [] then ([], n)
      else let msg = strip data
        in if msg = [] then handle_sync es n
           else let n' = beatHandler now msg n
             in if ok then let (rs, n'') = handle_sync es n' in ((''OK'' @ [NL]) # rs, n'') else ([], n'))"

section \<open>What the read port answers\<close>

text \<open>What a client that sends one line and stays connected gets back.\<close>

definition answer :: "remote \<Rightarrow> string \<Rightarrow> node \<Rightarrow> string" where
  "answer r msg n = concat (fst (handle_read [(r, Recv msg True)] n))"

lemma local_lookup_other: "d = [] \<or> lower_char (hd d) \<notin> selfRecords s \<Longrightarrow> local_lookup d s = ''N/A''"
  by (cases d) (simp_all add: local_lookup_def)

lemma local_lookup_owner: "d \<noteq> [] \<Longrightarrow> lower_char (hd d) \<in> selfRecords s \<Longrightarrow> local_lookup d s = recordResponse d ''A'' s"
  by (cases d) (simp_all add: local_lookup_def)

lemma strip_peer:
  assumes "stripped d" and "d \<noteq> []"
  shows "strip (''PEER:'' @ d @ [NL]) = ''PEER:'' @ d"
proof -
  have "stripped ''PEER:''" by code_simp
  then have "stripped (''PEER:'' @ [] @ d)" using assms by (intro stripped_append) simp_all
  then show ?thesis using strip_snoc_space [of NL "''PEER:'' @ d"] by (simp add: strip_id)
qed

lemma handle_read_peer:
  assumes "stripped d" and "d \<noteq> []"
  shows "handle_read [(r, Recv (''PEER:'' @ d @ [NL]) True)] n = ([local_lookup d (st n) @ [NL]], n)"
proof -
  have "startswith (''PEER:'' @ d) ''PEER:''" "drop 5 (''PEER:'' @ d) = d" by (simp_all add: startswith_def)
  then show ?thesis
    unfolding handle_read.simps strip_peer [OF assms] by (simp add: read_request_def)
qed

lemma answer_peer:
  assumes "stripped d" and "d \<noteq> []"
  shows "answer r (''PEER:'' @ d @ [NL]) n = local_lookup d (st n) @ [NL]"
  unfolding answer_def handle_read_peer [OF assms] by simp

lemma handle_read_client:
  assumes "stripped d" and "d \<noteq> []" and "\<not> startswith d ''PEER:''"
  shows "handle_read [(r, Recv (d @ [NL]) True)] n = ([fst (resolve r d n) @ [NL]], snd (resolve r d n))"
  using assms strip_snoc_space [of NL d]
  by (simp add: strip_id read_request_def split: prod.split)

lemma ask_peers_owner:
  assumes "\<forall>ip \<in> set ips. ip \<noteq> self \<longrightarrow> q ip (''PEER:'' @ d @ [NL]) = Some (f ip @ [NL])"
    and "\<forall>ip \<in> set ips. ip \<noteq> owner \<longrightarrow> f ip = ''N/A''"
    and "f owner = v" and "stripped v" and "v \<noteq> []" and "v \<noteq> ''N/A''"
    and "owner \<in> set ips" and "owner \<noteq> self"
  shows "ask_peers q self d ips = v"
  using assms(1,2,7)
proof (induction ips)
  case (Cons ip ips)
  have "strip (''N/A'' @ [NL]) = ''N/A''" by code_simp
  moreover have "strip (v @ [NL]) = v" using assms(4) strip_snoc_space [of NL v] by (simp add: strip_id)
  ultimately show ?case using Cons assms(3,5,6,8) by (cases "ip = owner") auto
qed simp

section \<open>Reads in a cluster\<close>

text \<open>
  The members \<open>ips\<close> with the nodes \<open>N\<close> form a settled cluster led by \<open>L\<close>, and the rest of the
  world, as a member sees it in \<open>r\<close>, is the cluster itself: a peer answers what its own read
  handler writes (the first 4096 bytes of it, for \<^verbatim>\<open>recv(4096)\<close>), and the leader answers
  the first line its read handler writes.
\<close>

definition cluster :: "string list \<Rightarrow> (string \<Rightarrow> node) \<Rightarrow> string \<Rightarrow> bool" where
  "cluster ips N L \<longleftrightarrow> (\<forall>ip \<in> set ips. settled ips (st (N ip)) \<and> selfIp (st (N ip)) = ip)
     \<and> L \<in> set ips \<and> leader (rf (N L))
     \<and> (\<forall>ip \<in> set ips. ip \<noteq> L \<longrightarrow> \<not> leader (rf (N ip)) \<and> leaderIp (st (N ip)) = L)"

definition first_line :: "string \<Rightarrow> string" where
  "first_line s = (case keep_lines s of [] \<Rightarrow> [] | l # _ \<Rightarrow> l)"

definition connected :: "string list \<Rightarrow> (string \<Rightarrow> node) \<Rightarrow> string \<Rightarrow> remote \<Rightarrow> string \<Rightarrow> bool" where
  "connected ips N L r d \<longleftrightarrow>
     (\<forall>ip \<in> set ips. ask r ip (''PEER:'' @ d @ [NL]) = Some (take 4096 (answer r (''PEER:'' @ d @ [NL]) (N ip))))
     \<and> forward r L (d @ [NL]) = Some (first_line (answer r (d @ [NL]) (N L)))"

text \<open>A value that fits on one line of an answer.\<close>

definition reply_ok :: "string \<Rightarrow> bool" where
  "reply_ok v \<longleftrightarrow> stripped v \<and> v \<noteq> [] \<and> v \<noteq> ''N/A'' \<and> NL \<notin> set v \<and> length v < 4096"

lemma cluster_owner:
  assumes "cluster ips N L" and "owner \<in> set ips" and "c \<in> selfRecords (st (N owner))"
    and "ip \<in> set ips" and "ip \<noteq> owner"
  shows "c \<notin> selfRecords (st (N ip))"
proof -
  have "sharded (set ips) (\<lambda>ip. selfRecords (st (N ip)))"
    using assms(1,2) by (intro cluster_sharded) (auto simp: cluster_def)
  then show ?thesis using sharded.other_not_owner assms(2-5) by metis
qed

lemma leader_resolves:
  assumes "cluster ips N L" and "connected ips N L r d" and "stripped d" and "d \<noteq> []"
    and "owner \<in> set ips" and "lower_char (hd d) \<in> selfRecords (st (N owner))"
    and "recordResponse d ''A'' (st (N owner)) = v" and "reply_ok v"
  shows "resolve r d (N L) = (v, N L)"
proof (cases "owner = L")
  case True
  then show ?thesis
    using local_lookup_owner [OF assms(4,6)] assms(7,8) by (simp add: resolve_def reply_ok_def)
next
  case False
  have L: "L \<in> set ips" "selfIp (st (N L)) = L" "leader (rf (N L))" "dkeys (nodes (st (N L))) = ips"
    using assms(1) by (auto simp: cluster_def settled_def sees_def)
  have own: "local_lookup d (st (N owner)) = v" using local_lookup_owner [OF assms(4,6)] assms(7) by simp
  have other: "local_lookup d (st (N ip)) = ''N/A''" if "ip \<in> set ips" "ip \<noteq> owner" for ip
    using cluster_owner [OF assms(1,5,6) that] by (simp add: local_lookup_other)
  have "length (local_lookup d (st (N ip))) < 4096" if "ip \<in> set ips" for ip
    using own other [OF that] assms(8) by (cases "ip = owner") (simp_all add: reply_ok_def)
  then have "ask r ip (''PEER:'' @ d @ [NL]) = Some (local_lookup d (st (N ip)) @ [NL])" if "ip \<in> set ips" for ip
    using assms(2) that answer_peer [OF assms(3,4)] by (fastforce simp: connected_def)
  then have "ask_peers (ask r) L d ips = v"
    using own other assms(5,8) False
    by (intro ask_peers_owner [where f = "\<lambda>ip. local_lookup d (st (N ip))" and owner = owner])
      (simp_all add: reply_ok_def)
  then show ?thesis
    using L other [OF L(1)] False assms(8) by (simp add: resolve_def sendRead_def reply_ok_def)
qed

lemma cluster_answers:
  assumes "cluster ips N L" and "connected ips N L r d" and "stripped d" and "d \<noteq> []"
    and "\<not> startswith d ''PEER:''" and "owner \<in> set ips"
    and "lower_char (hd d) \<in> selfRecords (st (N owner))"
    and "recordResponse d ''A'' (st (N owner)) = v" and "reply_ok v" and "m \<in> set ips"
  shows "handle_read [(r, Recv (d @ [NL]) True)] (N m) = ([v @ [NL]], N m)"
proof -
  have L: "resolve r d (N L) = (v, N L)" using assms by (intro leader_resolves) simp_all
  have "resolve r d (N m) = (v, N m)"
  proof (cases "m = L \<or> m = owner")
    case True
    have "resolve r d (N owner) = (v, N owner)"
      using local_lookup_owner [OF assms(4,7)] assms(8,9) by (simp add: resolve_def reply_ok_def)
    then show ?thesis using L True by auto
  next
    case False
    then have m: "\<not> leader (rf (N m))" "leaderIp (st (N m)) = L" "local_lookup d (st (N m)) = ''N/A''"
      using assms(1,10) cluster_owner [OF assms(1,6,7,10)] by (auto simp: cluster_def local_lookup_other)
    have "answer r (d @ [NL]) (N L) = v @ NL # []"
      unfolding answer_def handle_read_client [OF assms(3-5)] L by simp
    then have "first_line (answer r (d @ [NL]) (N L)) = v @ [NL]"
      using keep_lines_line [of v "[]"] assms(9) by (simp add: first_line_def reply_ok_def)
    then have "forward_to_leader r d (st (N m)) = v"
      using assms(2,9) m(2) strip_snoc_space [of NL v]
      by (simp add: forward_to_leader_def connected_def reply_ok_def strip_id)
    then show ?thesis using m by (simp add: resolve_def)
  qed
  then show ?thesis using handle_read_client [OF assms(3-5), of r "N m"] by simp
qed

text \<open>Such a network exists around every cluster.\<close>

lemma network_exists:
  assumes "cluster ips N L" and "stripped d" and "d \<noteq> []" and "\<not> startswith d ''PEER:''"
  shows "\<exists>r. connected ips N L r d"
proof -
  obtain r :: remote where q: "ask r = (\<lambda>ip msg. Some (take 4096 (local_lookup d (st (N ip)) @ [NL])))"
    by (metis remote.select_convs(1))
  define r' where "r' = r\<lparr>forward := (\<lambda>ip msg. Some (first_line (answer r (d @ [NL]) (N L))))\<rparr>"
  have "resolve r' d (N L) = resolve r d (N L)"
    using assms(1) by (simp add: r'_def resolve_def cluster_def Let_def)
  then have "answer r' (d @ [NL]) (N L) = answer r (d @ [NL]) (N L)"
    unfolding answer_def handle_read_client [OF assms(2-4)] by simp
  moreover have "ask r' = ask r" "forward r' = (\<lambda>ip msg. Some (first_line (answer r (d @ [NL]) (N L))))"
    by (simp_all add: r'_def)
  ultimately have "connected ips N L r' d"
    unfolding connected_def answer_peer [OF assms(2,3)] by (simp add: q)
  then show ?thesis by blast
qed

text \<open>
  Any node answers any name. In a settled cluster with one leader, whose members reach each
  other, a client that asks any member for a name gets the record of the one member that owns
  the name's letter, whether it asked the owner, the leader (which asks the others) or another
  follower (which forwards to the leader); and nothing changes at the member asked.
\<close>

theorem any_node_answers:
  assumes "cluster ips N L" and "connected ips N L r d" and "stripped d" and "d \<noteq> []"
    and "\<not> startswith d ''PEER:''" and "owner \<in> set ips"
    and "lower_char (hd d) \<in> selfRecords (st (N owner))"
    and "recordResponse d ''A'' (st (N owner)) = v" and "reply_ok v" and "m \<in> set ips"
  shows "handle_read [(r, Recv (d @ [NL]) True)] (N m) = ([v @ [NL]], N m)"
  using assms by (rule cluster_answers)

definition example_node :: "string \<Rightarrow> node" where
  "example_node ip = (let s = member_state [''10.0.0.3'', ''10.0.0.9''] ip; r = raft_init 0 s
     in \<lparr>st = s\<lparr>leaderIp := ''10.0.0.9'', records := [(''q.com'', ''A'') \<mapsto> ''5.5.5.5'']\<rparr>,
         rf = r\<lparr>leader := ip = ''10.0.0.9''\<rparr>, net = [], wr = writer_init, dsk = example_disk\<rparr>)"

definition example_remote :: remote where
  "example_remote = \<lparr>ask = (\<lambda>ip msg. Some ((if ip = ''10.0.0.9'' then ''5.5.5.5'' else ''N/A'') @ [NL])),
     forward = (\<lambda>ip msg. Some (''5.5.5.5'' @ [NL])), dns = (\<lambda>_. None)\<rparr>"

lemma settled_update [simp]:
  "settled ips (s\<lparr>leaderIp := l\<rparr>) = settled ips s" "settled ips (s\<lparr>records := m\<rparr>) = settled ips s"
  by (simp_all add: settled_def sees_def)

lemma example_cluster: "cluster [''10.0.0.3'', ''10.0.0.9''] example_node ''10.0.0.9''"
  using member_state_settled [of "[''10.0.0.3'', ''10.0.0.9'']"]
  by (auto simp: cluster_def example_node_def Let_def)

lemma example_owner: "CHR ''q'' \<in> selfRecords (st (example_node ''10.0.0.9''))"
proof -
  have r: "rank (member_state [''10.0.0.3'', ''10.0.0.9''] ''10.0.0.9'') = 2"
    by (simp add: member_state_def updateState_def rank_of_def)
  have "CHR ''q'' \<in> set (shard_slice 2 2)" by code_simp
  then have "CHR ''q'' \<in> selfRecords (member_state [''10.0.0.3'', ''10.0.0.9''] ''10.0.0.9'')"
    using member_state_settled [of "[''10.0.0.3'', ''10.0.0.9'']" "''10.0.0.9''"] r by (simp add: settled_def)
  then show ?thesis by (simp add: example_node_def Let_def)
qed

lemma example_name:
  "lower_char (hd ''q.com'') = CHR ''q''" "stripped ''q.com''" "reply_ok ''5.5.5.5''"
  "\<not> startswith ''q.com'' ''PEER:''" "lower (strip ''q.com'') = ''q.com''" "upper (strip ''A'') = ''A''"
  by (code_simp, code_simp, simp add: reply_ok_def, code_simp+)

lemma example_record: "recordResponse ''q.com'' ''A'' (st (example_node ''10.0.0.9'')) = ''5.5.5.5''"
  using example_owner example_name by (simp add: recordResponse_def) (simp add: example_node_def Let_def)

lemma example_lookup:
  "local_lookup ''q.com'' (st (example_node ''10.0.0.3'')) = ''N/A''"
  "local_lookup ''q.com'' (st (example_node ''10.0.0.9'')) = ''5.5.5.5''"
  using cluster_owner [OF example_cluster _ example_owner, of "''10.0.0.3''"] example_owner example_name example_record
  by (simp_all add: local_lookup_other local_lookup_owner)

lemma example_connected: "connected [''10.0.0.3'', ''10.0.0.9''] example_node ''10.0.0.9'' example_remote ''q.com''"
proof -
  have "resolve example_remote ''q.com'' (example_node ''10.0.0.9'') = (''5.5.5.5'', example_node ''10.0.0.9'')"
    by (simp add: resolve_def example_lookup)
  then have "answer example_remote (''q.com'' @ [NL]) (example_node ''10.0.0.9'') = ''5.5.5.5'' @ [NL]"
    using example_name handle_read_client [of "''q.com''" example_remote] by (simp add: answer_def)
  moreover have "first_line (''5.5.5.5'' @ [NL]) = ''5.5.5.5'' @ [NL]" by code_simp
  ultimately show ?thesis
    using example_lookup example_name(2) answer_peer [of "''q.com''" example_remote]
    by (simp add: connected_def) (simp add: example_remote_def)
qed

theorem any_node_answers_witness:
  "handle_read [(example_remote, Recv (''q.com'' @ [NL]) True)] (example_node ''10.0.0.3'') =
     ([''5.5.5.5'' @ [NL]], example_node ''10.0.0.3'')"
  using any_node_answers [OF example_cluster example_connected, of "''10.0.0.9''" "''5.5.5.5''" "''10.0.0.3''"]
    example_name example_record example_owner by simp

section \<open>One connection at a time\<close>

text \<open>The lines of a connection up to its end, an empty read or a failing one.\<close>

fun lines_read :: "conn_event list \<Rightarrow> string list" where
  "lines_read [] = []"
| "lines_read (RecvError e # es) = []"
| "lines_read (Recv data ok # es) = (if data = [] then [] else strip data # lines_read es)"

definition writable :: "conn_event list \<Rightarrow> bool" where
  "writable es \<longleftrightarrow> (\<forall>data. Recv data False \<notin> set es)"

lemma writable_Cons [simp]:
  "writable (Recv data ok # es) \<longleftrightarrow> ok \<and> writable es" "writable (RecvError e # es) \<longleftrightarrow> writable es"
  by (auto simp: writable_def)

text \<open>The answer to a peer's line, which needs no remote party.\<close>

definition peer_reply :: "string \<Rightarrow> states \<Rightarrow> string" where
  "peer_reply line s = (if line = [] then ''N/A'' else local_lookup (drop 5 line) s) @ [NL]"

text \<open>
  Peers are answered from the local shard alone. On a connection on which every line is
  blank or starts with \<^verbatim>\<open>PEER:\<close>, the replies are, line by line and in order, the local
  look-ups (\<^verbatim>\<open>N/A\<close> for a blank line), the rest of the world is not asked and the node is not
  changed; so requests between nodes never cascade.
\<close>

theorem peer_reads_are_local:
  assumes "\<forall>line \<in> set (lines_read (map snd es)). line = [] \<or> startswith line ''PEER:''"
    and "writable (map snd es)"
  shows "handle_read es n = (map (\<lambda>line. peer_reply line (st n)) (lines_read (map snd es)), n)"
  using assms
proof (induction es n rule: handle_read.induct)
  case (3 r data ok es n)
  then show ?case by (cases "data = []") (auto simp: read_request_def peer_reply_def Let_def split: if_splits)
qed auto

theorem peer_reads_are_local_witness:
  "handle_read [(example_remote, Recv (''PEER:q.com'' @ [NL]) True), (example_remote, Recv [NL] True)]
     (example_node ''10.0.0.9'') = ([''5.5.5.5'' @ [NL], ''N/A'' @ [NL]], example_node ''10.0.0.9'')"
proof -
  let ?es = "[(example_remote, Recv (''PEER:q.com'' @ [NL]) True), (example_remote, Recv [NL] True)]"
  have "lines_read (map snd ?es) = [''PEER:q.com'', []]" "startswith ''PEER:q.com'' ''PEER:''" by code_simp+
  then show ?thesis
    using peer_reads_are_local [of ?es "example_node ''10.0.0.9''"]
    by (simp add: writable_def peer_reply_def example_lookup del: handle_read.simps)
qed

text \<open>
  Every line of a read connection is answered, once and in order. As long as replies can be
  written, the number of replies is the number of lines read (blank ones included), each reply
  ends in a line feed, and what the replies of a longer connection start with are the replies
  of the shorter one.
\<close>

theorem one_reply_per_line:
  assumes "writable (map snd (es @ es'))"
  shows "length (fst (handle_read es n)) = length (lines_read (map snd es))
    \<and> (\<forall>reply \<in> set (fst (handle_read es n)). last reply = NL)
    \<and> (\<exists>rest. fst (handle_read (es @ es') n) = fst (handle_read es n) @ rest)"
  using assms
proof (induction es n rule: handle_read.induct)
  case (3 r data ok es n)
  then show ?case by (auto simp: Let_def split: prod.split)
qed auto

theorem one_reply_per_line_witness:
  "length (fst (handle_read [(example_remote, Recv (''q.com'' @ [NL]) True), (example_remote, RecvError OSError)]
     (example_node ''10.0.0.3''))) = 1"
proof -
  have "lines_read [Recv (''q.com'' @ [NL]) True, RecvError OSError] = [''q.com'']" by code_simp
  then show ?thesis
    using one_reply_per_line [of "[(example_remote, Recv (''q.com'' @ [NL]) True), (example_remote, RecvError OSError)]"
        "[]" "example_node ''10.0.0.3''"]
    by (simp add: writable_def del: handle_read.simps)
qed

section \<open>Names nobody stores\<close>

text \<open>A node that finds a name neither locally nor, as the leader, at any peer.\<close>

definition misses :: "remote \<Rightarrow> string \<Rightarrow> node \<Rightarrow> bool" where
  "misses r d n \<longleftrightarrow> leader (rf n) \<and> local_lookup d (st n) = ''N/A'' \<and> sendRead (ask r) d n = ''N/A''"

lemma resolve_miss: "misses r d n \<Longrightarrow> resolve r d n = newRecord (dns r) d n"
  by (simp add: misses_def resolve_def)

text \<open>
  A leader learns the names it is asked for. When a leader that has handled some write message
  is asked for a name that no node stores and live resolution knows, it answers the live
  address and has written it like any other update: one more log number, the entry logged and
  sent to every other node, and the record in the shard file, where it replaces the domain's
  records.
\<close>

theorem leader_learns_name:
  assumes "misses r d n" and "raft_set (wr n)" and "dns r d = Some v" and "update_ok d ''A'' v" and "room 1 n"
  shows "\<exists>n'. resolve r d n = (v, n') \<and> currLogNum (rf n') = currLogNum (rf n) + 1
    \<and> logs (wr n') (str_int (currLogNum (rf n) + 1)) = Some (update_text d ''A'' v)
    \<and> net n' = net n @ map (\<lambda>ip. (ip, 9000, log_msg (str_int (currLogNum (rf n) + 1)) (update_text d ''A'' v)))
        (others (st n))
    \<and> disk_look (dsk n') = replace (d, ''A'', v) (disk_look (dsk n))"
proof -
  have ds: "disk_sound (dsk n)" and p: "printable (currLogNum (rf n) + 1)" using assms(5) by (simp_all add: room_def)
  have u: "d @ comma # ''A'' @ comma # w = update_text d ''A'' w" for w by (simp add: update_text_def)
  have "(wr n)\<lparr>raft_set := True\<rparr> = wr n" using assms(2) by (cases "wr n") simp
  then have "(wr n)\<lparr>logs := m, raft_set := True\<rparr> = (wr n)\<lparr>logs := m\<rparr>" for m
    by (cases "wr n") simp
  then have "newRecord (dns r) d n = (v, written d ''A'' v n)"
    using assms(2,3) p commit_eq [OF assms(4)] disk_sound_ok(1) [OF ds, of d]
    unfolding newRecord_def u by (simp add: next_num_def Let_def writeStarter_eq written_def)
  then show ?thesis
    using written_look [OF assms(4) ds] resolve_miss [OF assms(1)]
    by (simp add: written_def Let_def log_packets_def)
qed

definition learning_remote :: remote where
  "learning_remote = \<lparr>ask = (\<lambda>ip msg. None), forward = (\<lambda>ip msg. None), dns = [''z.com'' \<mapsto> ''4.4.4.4'']\<rparr>"

lemma example_misses:
  "misses learning_remote ''z.com'' (example_node ''10.0.0.9'')"
  "misses learning_remote ''z.com'' ((example_node ''10.0.0.9'')\<lparr>wr := w\<rparr>)"
proof -
  have "strip ''z.com'' = ''z.com''" "lower ''z.com'' = ''z.com''" by code_simp+
  then have l: "local_lookup ''z.com'' (st (example_node ''10.0.0.9'')) = ''N/A''"
    by (simp add: local_lookup_def recordResponse_def example_node_def Let_def)
  have "ask_peers (\<lambda>ip msg. None) self d ips = ''N/A''" for self d ips by (induction ips) simp_all
  then have "sendRead (ask learning_remote) ''z.com'' n = ''N/A''" for n :: node
    by (simp add: sendRead_def learning_remote_def)
  with l show "misses learning_remote ''z.com'' (example_node ''10.0.0.9'')"
    "misses learning_remote ''z.com'' ((example_node ''10.0.0.9'')\<lparr>wr := w\<rparr>)"
    by (simp_all add: misses_def) (simp_all add: example_node_def Let_def)
qed

theorem leader_learns_name_witness:
  "\<exists>n'. resolve learning_remote ''z.com'' ((example_node ''10.0.0.9'')\<lparr>wr := writer_init\<lparr>raft_set := True\<rparr>\<rparr>) = (''4.4.4.4'', n')
     \<and> currLogNum (rf n') = 1"
proof -
  let ?n = "(example_node ''10.0.0.9'')\<lparr>wr := writer_init\<lparr>raft_set := True\<rparr>\<rparr>"
  have "update_ok ''z.com'' ''A'' ''4.4.4.4''" "printable 1" by code_simp+
  moreover have f: "currLogNum (rf ?n) = 0" "dsk ?n = example_disk"
    by (simp_all add: example_node_def Let_def raft_init_def)
  moreover from calculation have "room 1 ?n" by (simp add: room_def example_disk_sound)
  moreover have "dns learning_remote ''z.com'' = Some ''4.4.4.4''" by (simp add: learning_remote_def)
  ultimately show ?thesis using leader_learns_name [OF example_misses(2), of "writer_init\<lparr>raft_set := True\<rparr>"] by auto
qed

text \<open>
  A leader that has not handled any write message since it started never learns a name. Its
  writer has no coordinator yet, so a name that no node stores is answered \<^verbatim>\<open>N/A\<close>, although
  live resolution knows it, and nothing is written.
\<close>

theorem fresh_leader_never_learns:
  assumes "misses r d n" and "wr n = writer_init" and "dns r d = Some v"
  shows "resolve r d n = (''N/A'', n)"
  using assms by (simp add: resolve_miss newRecord_def writer_init_def)

theorem fresh_leader_never_learns_witness:
  "resolve learning_remote ''z.com'' (example_node ''10.0.0.9'') = (''N/A'', example_node ''10.0.0.9'')"
  by (rule fresh_leader_never_learns [OF example_misses(1)])
    (simp_all add: example_node_def learning_remote_def Let_def)

section \<open>The write and sync ports\<close>

definition queries :: "conn_event list \<Rightarrow> string list" where
  "queries es = filter (\<lambda>q. q \<noteq> []) (lines_read es)"

lemma queries_simps [simp]:
  "queries [] = []" "queries (RecvError e # es) = []"
  "queries (Recv data ok # es) =
     (if data = [] then [] else if strip data = [] then queries es else strip data # queries es)"
  by (simp_all add: queries_def)

lemma handle_all_Nil [simp]: "handle_all [] n = n"
  by (simp add: handle_all_def)

lemma handle_all_Cons: "handle_all (q # qs) n = handle_all qs (snd (writeHandler q n))"
  by (simp add: handle_all_def)

text \<open>All queries of a list end without an exception when handled in order.\<close>

fun all_done :: "string list \<Rightarrow> node \<Rightarrow> bool" where
  "all_done [] n \<longleftrightarrow> True"
| "all_done (q # qs) n \<longleftrightarrow> fst (writeHandler q n) = Done \<and> all_done qs (snd (writeHandler q n))"

text \<open>
  The write port handles the queries of a connection in order and acknowledges each. As long
  as no query raises and replies can be written, the node ends as after handling the queries
  one by one (blank lines are skipped), and the peer gets exactly one \<^verbatim>\<open>OK\<close> per query.
\<close>

theorem write_port_runs_queries:
  assumes "writable es" and "all_done (queries es) n"
  shows "handle_write es n = (replicate (length (queries es)) (''OK'' @ [NL]), handle_all (queries es) n)"
  using assms
proof (induction es n rule: handle_write.induct)
  case (3 data ok es n)
  then show ?case
    by (cases "writeHandler (strip data) n") (auto simp: handle_all_Cons Let_def)
qed (simp_all add: handle_all_def)

theorem write_port_runs_queries_witness:
  "handle_write [Recv ([NL]) True, Recv (''1;b.com,A,4.4.4.4'' @ [NL]) True] example_leader =
     ([''OK'' @ [NL]], written ''b.com'' ''A'' ''4.4.4.4'' example_leader)"
proof -
  let ?es = "[Recv ([NL]) True, Recv (''1;b.com,A,4.4.4.4'' @ [NL]) True]"
  have q: "queries ?es = [''1;b.com,A,4.4.4.4'']" by code_simp
  have "printable (currLogNum (rf example_leader) + 1)" "disk_ok (dsk example_leader) ''b.com''"
    using example_room(2) by (simp_all add: room_def disk_sound_ok)
  then have w: "writeHandler ''1;b.com,A,4.4.4.4'' example_leader = (Done, written ''b.com'' ''A'' ''4.4.4.4'' example_leader)"
    using write_eq [OF example_updates(2)] by (simp add: write_msg_def update_text_def)
  have "all_done (queries ?es) example_leader" unfolding q by (simp add: w)
  then have "handle_write ?es example_leader =
      (replicate (length (queries ?es)) (''OK'' @ [NL]), handle_all (queries ?es) example_leader)"
    by (intro write_port_runs_queries) (simp_all add: writable_def)
  then show ?thesis unfolding q by (simp add: w handle_all_def)
qed

lemma nameless_texts:
  assumes "field_ok t" and "field_ok v"
  shows "split_on (CHR '';'') (strip (''1;'' @ update_text [] t v)) = [''1'', update_text [] t v]"
    and "split_on comma (strip (update_text [] t v)) = [[], t, v]"
proof -
  have s: "stripped '',''" "stripped ''1''" by code_simp+
  have v: "stripped v" "v \<noteq> []" using assms(2) by (simp_all add: field_ok_def)
  have "stripped ('','' @ (t @ '','') @ v)" using stripped_append [OF s(1) v(1)] v(2) by blast
  then have "strip (update_text [] t v) = update_text [] t v" by (simp add: update_text_def strip_id)
  then show "split_on comma (strip (update_text [] t v)) = [[], t, v]"
    using assms by (simp add: update_text_def field_ok_def split_on_append split_on_single)
  have "stripped (''1'' @ ('';,'' @ t @ '','') @ v)" using stripped_append [OF s(2) v(1)] v(2) by blast
  then have "strip (''1;'' @ update_text [] t v) = ''1;'' @ update_text [] t v"
    by (simp add: update_text_def strip_id)
  then show "split_on (CHR '';'') (strip (''1;'' @ update_text [] t v)) = [''1'', update_text [] t v]"
    using assms by (simp add: update_text_def field_ok_def split_on_single)
qed

text \<open>
  A write without a domain kills its connection. A type-1 message whose domain field is empty
  raises an exception inside the commit, after the entry has been numbered, logged and sent to
  all other nodes: the peer gets no reply, and the remaining lines of the connection are never
  handled, while files and records stay as they were.
\<close>

theorem empty_domain_drops_connection:
  assumes "field_ok t" and "field_ok v" and "printable (currLogNum (rf n) + 1)"
  shows "\<exists>n'. handle_write (Recv (''1;'' @ update_text [] t v) ok # es) n = ([], n')
    \<and> currLogNum (rf n') = currLogNum (rf n) + 1
    \<and> net n' = net n @ log_packets (str_int (currLogNum (rf n) + 1)) (update_text [] t v) (st n)
    \<and> dsk n' = dsk n \<and> st n' = st n"
proof -
  note split = nameless_texts [OF assms(1,2)]
  have e: "update_text [] t v \<noteq> []" by (simp add: update_text_def)
  have "strip [] = []" by code_simp
  then have "fst (commitHandler num m) = Raised IndexError \<and> snd (commitHandler num m) = m"
    if "logs (wr m) num = Some (update_text [] t v)" for num m
    using that e by (simp add: commitHandler_def split(2) Let_def)
  then have c: "commitHandler num m = (Raised IndexError, m)"
    if "logs (wr m) num = Some (update_text [] t v)" for num m
    using that by (metis prod.collapse)
  let ?q = "''1;'' @ update_text [] t v"
  have ne: "strip ?q \<noteq> []" using split(1) by auto
  have "writeHandler (strip ?q) n = writeHandler ?q n"
    by (simp add: writeHandler_def)
  moreover obtain n' where "writeHandler ?q n = (Raised IndexError, n')"
    and "currLogNum (rf n') = currLogNum (rf n) + 1"
    and "net n' = net n @ log_packets (str_int (currLogNum (rf n) + 1)) (update_text [] t v) (st n)"
    and "dsk n' = dsk n \<and> st n' = st n"
    using assms(3) c unfolding writeHandler_def split(1)
    by (auto simp: next_num_def Let_def writeStarter_eq)
  ultimately show ?thesis using ne by (simp add: Let_def)
qed

theorem empty_domain_drops_connection_witness:
  "fst (handle_write [Recv (''1;'' @ update_text [] ''A'' ''4.4.4.4'') True, Recv ''3;1'' True] example_leader) = []"
proof -
  have "field_ok ''A''" "field_ok ''4.4.4.4''" "printable 1" by code_simp+
  then show ?thesis
    using empty_domain_drops_connection [of "''A''" "''4.4.4.4''" example_leader True "[Recv ''3;1'' True]"]
    by (auto simp: example_leader_fields)
qed

lemma sync_port_runs_beats:
  assumes "writable (map snd es)" and "\<forall>(now, e) \<in> set es. \<exists>data. e = Recv data True \<and> strip data \<noteq> []"
  shows "handle_sync es n = (replicate (length es) (''OK'' @ [NL]),
    beats_run (map (\<lambda>(now, e). case e of Recv data ok \<Rightarrow> (now, strip data) | RecvError _ \<Rightarrow> (now, [])) es) n)"
  using assms
proof (induction es n rule: handle_sync.induct)
  case (3 now data ok es n)
  then have "data \<noteq> []" by auto
  with 3 show ?case by (auto simp: Let_def beats_run_Cons)
qed (auto simp: beats_run_def)

end
