(* ===== verification/Batch.thy ===== *)
theory Batch
  imports Server
begin

text \<open>
  The background refresh of a node (\<^verbatim>\<open>data_plane/batch/_batch.py\<close>, class \<^verbatim>\<open>Batch\<close>): one pass
  over the shard files that sends a write to the leader for every record whose live address
  differs. The live addresses are the parameter \<open>live\<close> (\<open>None\<close>: the resolution raises), and the
  order in which the set of shards is iterated is an argument. A file is read entirely when it is
  opened. The code reads it line by line, which is the same as long as nobody rewrites the file
  during the pass; what the pass does with a line it reads at any other moment is
  \<open>process_line\<close> (step \<open>RefreshLine\<close> of \<open>Node_Threads\<close>, for any line).
\<close>

section \<open>class Batch\<close>

definition process_line :: "(string \<Rightarrow> string option) \<Rightarrow> string \<Rightarrow> 'a core_scheme \<Rightarrow> 'a core_scheme" where
  "process_line live line0 n =
     (let line = strip line0
      in if line = [] \<or> startswith line ''#'' then n
         else (case split_on comma line of
                 [host, t, ip] \<Rightarrow>
                   (case live host of
                      None \<Rightarrow> n
                    | Some rip \<Rightarrow>
                        if rip \<noteq> ip
                        then send_raw (leaderIp (st n)) 9000 (''1;'' @ host @ comma # t @ comma # rip @ [NL]) n
                        else n)
               | _ \<Rightarrow> n))"

fun process :: "(string \<Rightarrow> string option) \<Rightarrow> char list \<Rightarrow> node \<Rightarrow> outcome \<times> node" where
  "process live [] n = (Done, n)"
| "process live (shard # shards) n =
     (case open_read (shard_path shard) (dsk n) of
        Inr content \<Rightarrow> process live shards (fold (process_line live) (file_lines content) n)
      | Inl e \<Rightarrow> if e = FileNotFoundError then process live shards n else (Raised e, n))"

section \<open>What a pass sends\<close>

text \<open>The correction a line asks for.\<close>

definition correction :: "(string \<Rightarrow> string option) \<Rightarrow> string \<Rightarrow> update option" where
  "correction live l =
     (case line_record l of
        None \<Rightarrow> None
      | Some ((d, t), v) \<Rightarrow>
          (case live d of None \<Rightarrow> None | Some w \<Rightarrow> if w \<noteq> v then Some (d, t, w) else None))"

definition corrections :: "(string \<Rightarrow> string option) \<Rightarrow> disk \<Rightarrow> char list \<Rightarrow> update list" where
  "corrections live dk order = concat (map (\<lambda>c. List.map_filter (correction live) (shard_lines dk c)) order)"

text \<open>A shard file of well-formed records of its letter.\<close>

definition tidy_line :: "char \<Rightarrow> string \<Rightarrow> bool" where
  "tidy_line c l \<longleftrightarrow> (\<exists>d t v. update_ok d t v \<and> hd d = c \<and> l = update_text d t v @ [NL])"

definition tidy :: "disk \<Rightarrow> char \<Rightarrow> bool" where
  "tidy dk c \<longleftrightarrow> (\<forall>l \<in> set (shard_lines dk c). tidy_line c l)"

definition correction_packet :: "string \<Rightarrow> update \<Rightarrow> packet" where
  "correction_packet ip u = (ip, 9000, write_msg u @ [NL])"

lemma process_line_eq:
  assumes "tidy_line c l"
  shows "process_line live l n = n\<lparr>net := net n @
    (case correction live l of None \<Rightarrow> [] | Some u \<Rightarrow> [correction_packet (leaderIp (st n)) u])\<rparr>"
proof -
  obtain d t v where u: "update_ok d t v" "l = update_text d t v @ [NL]" using assms by (auto simp: tidy_line_def)
  have "\<not> startswith (update_text d t v) ''#''"
    using u(1) by (cases d) (auto simp: update_ok_def field_ok_def update_text_def startswith_def)
  then have "process_line live l n = (case live d of None \<Rightarrow> n
      | Some w \<Rightarrow> if w \<noteq> v then send_raw (leaderIp (st n)) 9000 (write_msg (d, t, w) @ [NL]) n else n)"
    using u update_chars [OF u(1)]
    by (simp add: process_line_def update_split) (simp add: write_msg_def update_text_def split: option.split)
  then show ?thesis
    using u line_record_update [OF u(1)]
    by (simp add: correction_def send_raw_def correction_packet_def split: option.split)
qed

lemma process_lines_eq:
  assumes "\<forall>l \<in> set ls. tidy_line c l"
  shows "fold (process_line live) ls n = n\<lparr>net := net n @
    map (correction_packet (leaderIp (st n))) (List.map_filter (correction live) ls)\<rparr>"
  using assms
proof (induction ls arbitrary: n)
  case (Cons l ls)
  then show ?case
    by (simp add: process_line_eq [of c] List.map_filter_simps split: option.split)
qed (simp add: List.map_filter_simps)

lemma process_eq:
  assumes "\<forall>c \<in> set order. read_fault (dsk n) (shard_path c) = None \<and> tidy (dsk n) c"
  shows "process live order n = (Done, n\<lparr>net := net n @
    map (correction_packet (leaderIp (st n))) (corrections live (dsk n) order)\<rparr>)"
  using assms
proof (induction order arbitrary: n)
  case (Cons c order)
  let ?n = "n\<lparr>net := net n @ map (correction_packet (leaderIp (st n)))
    (List.map_filter (correction live) (shard_lines (dsk n) c))\<rparr>"
  have "process live (c # order) n = process live order ?n"
    using Cons.prems process_lines_eq [of "shard_lines (dsk n) c" c live n]
    by (auto simp: open_read_def shard_lines_def tidy_def List.map_filter_simps split: option.split)
  then show ?case using Cons.IH [of ?n] Cons.prems by (simp add: corrections_def)
qed (simp add: corrections_def)

section \<open>Refreshing\<close>

text \<open>A node that receives a packet on its write port.\<close>

definition deliver :: "packet \<Rightarrow> node \<Rightarrow> node" where
  "deliver p n = (case p of (ip, port, msg) \<Rightarrow> snd (handle_write [Recv msg True] n))"

lemma deliver_correction:
  assumes "valid_update u"
  shows "deliver (correction_packet ip u) n = write_node u n"
proof -
  obtain d t v where u: "u = (d, t, v)" "update_ok d t v" using assms by (cases u) (simp add: valid_update_def)
  have "strip (CHR ''1'' # CHR '';'' # [] @ update_text d t v) = CHR ''1'' # CHR '';'' # [] @ update_text d t v"
    by (intro strip_typed [OF u(2)]) code_simp
  then have "strip (write_msg u @ [NL]) = write_msg u"
    using strip_snoc_space [of NL "write_msg u"] u(1) by (simp add: write_msg_def)
  moreover have "write_msg u \<noteq> []" by (simp add: u(1) write_msg_def)
  ultimately show ?thesis
    by (simp add: deliver_def correction_packet_def write_node_def split: prod.split outcome.split)
qed

lemma deliver_corrections:
  "\<forall>u \<in> set us. valid_update u \<Longrightarrow> fold deliver (map (correction_packet ip) us) n = fold write_node us n"
  by (induction us arbitrary: n) (simp_all add: deliver_correction)

lemma in_corrections:
  assumes "u \<in> set (corrections live dk order)" and "\<forall>c \<in> set order. tidy dk c"
  obtains c d t v w where "u = (d, t, w)" "c \<in> set order" "hd d = c" "update_ok d t v" "live d = Some w"
proof -
  obtain c l where l: "c \<in> set order" "l \<in> set (shard_lines dk c)" "correction live l = Some u"
    using assms(1) by (auto simp: corrections_def List.map_filter_def)
  then have "tidy_line c l" using assms(2) by (simp add: tidy_def)
  then obtain d t v where "update_ok d t v" "hd d = c" "l = update_text d t v @ [NL]"
    unfolding tidy_line_def by blast
  with l that [of d t _ c v] show thesis
    by (auto simp: correction_def line_record_update split: option.splits if_splits)
qed

lemma corrections_complete:
  assumes "c \<in> set order" and "last_record (d, t) (shard_lines dk c) = Some v" and "live d = Some w" and "v \<noteq> w"
  shows "(d, t, w) \<in> set (corrections live dk order)"
proof -
  obtain l where "l \<in> set (shard_lines dk c)" "line_record l = Some ((d, t), v)"
    using last_record_Some [OF assms(2)] by blast
  then have "(d, t, w) \<in> set (List.map_filter (correction live) (shard_lines dk c))"
    using assms(3,4) by (force simp: List.map_filter_def correction_def)
  then show ?thesis using assms(1) by (auto simp: corrections_def)
qed

text \<open>
  One refresh pass brings the stored addresses up to date. A leader whose shard files are well
  formed makes a pass over some of its shards and then handles, on its write port, the messages
  the pass sent (all of them go to the leader's own write port). Then every address stored for
  a domain of these shards that live resolution knows is the live address.
\<close>

theorem refresh_pass_updates:
  assumes "process live order n = (oc, n1)" and "net n1 = net n @ sent"
    and "\<forall>c \<in> set order. lower_char c = c \<and> tidy (dsk n) c"
    and "\<forall>d w. live d = Some w \<longrightarrow> field_ok w" and "room (length sent) n"
  shows "oc = Done \<and> (\<forall>(ip, port, msg) \<in> set sent. ip = leaderIp (st n) \<and> port = 9000)
    \<and> (\<forall>d t v w. hd d \<in> set order \<longrightarrow> disk_look (dsk (fold deliver sent n1)) (d, t) = Some v
        \<longrightarrow> live d = Some w \<longrightarrow> v = w)"
proof -
  let ?us = "corrections live (dsk n) order"
  have p: "process live order n =
      (Done, n\<lparr>net := net n @ map (correction_packet (leaderIp (st n))) ?us\<rparr>)"
    using assms(3,5) by (intro process_eq) (simp add: room_def disk_sound_def)
  then have n1: "oc = Done" "sent = map (correction_packet (leaderIp (st n))) ?us" "dsk n1 = dsk n" "rf n1 = rf n"
    using assms(1,2) by auto
  have valid: "\<forall>u \<in> set ?us. valid_update u"
    using assms(3,4) by (auto simp: valid_update_def update_ok_def elim!: in_corrections)
  have room: "room (length ?us) n1" using assms(5) n1 by (simp add: room_def)
  have "v = w" if h: "hd d \<in> set order" "disk_look (dsk (fold write_node ?us n1)) (d, t) = Some v" "live d = Some w"
    for d t v w
  proof (rule disk_store.corrected [OF room valid, where d = d and t = t
      and live = "\<lambda>d. if hd d \<in> set order then live d else None"])
    fix d t v assume "(d, t, v) \<in> set ?us"
    then show "(if hd d \<in> set order then live d else None) = Some v"
      using assms(3) by (auto elim: in_corrections)
  next
    fix d t v w assume "disk_look (dsk n1) (d, t) = Some v" "(if hd d \<in> set order then live d else None) = Some w" "v \<noteq> w"
    then have "(d, t, w) \<in> set ?us"
      using assms(3) n1(3) by (intro corrections_complete [of "hd d"]) (auto simp: disk_look_def split: if_splits)
    then show "d \<in> fst ` set ?us" by force
  qed (use h in simp_all)
  then show ?thesis
    using n1 deliver_corrections [OF valid, of "leaderIp (st n)" n1] by (auto simp: correction_packet_def)
qed

lemma tidy_line_update: "update_ok d t v \<Longrightarrow> tidy_line (hd d) (update_text d t v @ [NL])"
  by (auto simp: tidy_line_def)

lemma example_tidy: "tidy example_disk (CHR ''a'')"
proof -
  have "update_ok ''a.com'' ''A'' ''1.1.1.1''" "update_ok ''a.com'' ''A'' ''2.2.2.2''" by code_simp+
  then have "tidy_line (CHR ''a'') (''a.com,A,1.1.1.1'' @ [NL])" "tidy_line (CHR ''a'') (''a.com,A,2.2.2.2'' @ [NL])"
    using tidy_line_update [of "''a.com''" "''A''" "''1.1.1.1''"] tidy_line_update [of "''a.com''" "''A''" "''2.2.2.2''"]
    by (simp_all add: update_text_def)
  then show ?thesis by (simp add: tidy_def example_lines)
qed

lemma example_corrections:
  "corrections [''a.com'' \<mapsto> ''2.2.2.2''] example_disk ''a'' = [(''a.com'', ''A'', ''2.2.2.2'')]"
proof -
  have "List.map_filter (correction [''a.com'' \<mapsto> ''2.2.2.2'']) [''a.com,A,1.1.1.1'' @ [NL], ''a.com,A,2.2.2.2'' @ [NL]] =
      [(''a.com'', ''A'', ''2.2.2.2'')]" by code_simp
  then show ?thesis by (simp add: corrections_def example_lines del: List.map_filter_simps)
qed

theorem refresh_pass_updates_witness:
  "disk_look (dsk (fold deliver [correction_packet ''10.0.0.9'' (''a.com'', ''A'', ''2.2.2.2'')]
     (snd (process [''a.com'' \<mapsto> ''2.2.2.2''] ''a'' example_leader)))) (''a.com'', ''A'') \<noteq> Some ''1.1.1.1''"
proof -
  let ?live = "[''a.com'' \<mapsto> ''2.2.2.2''] :: string \<Rightarrow> string option"
  let ?sent = "[correction_packet ''10.0.0.9'' (''a.com'', ''A'', ''2.2.2.2'')]"
  have l: "leaderIp (st example_leader) = ''10.0.0.9''"
    by (simp add: example_leader_def with_disk_def booted_node_def member_state_def)
  let ?n = "example_leader\<lparr>net := net example_leader @ ?sent\<rparr>"
  have p: "process ?live ''a'' example_leader = (Done, ?n)"
    using process_eq [of "''a''" example_leader ?live] example_tidy example_disk_sound
    by (simp add: example_leader_fields example_corrections l disk_sound_def)
  have "field_ok ''2.2.2.2''" "lower_char (CHR ''a'') = CHR ''a''" by code_simp+
  then have "\<forall>c \<in> set ''a''. lower_char c = c \<and> tidy (dsk example_leader) c" "\<forall>d w. ?live d = Some w \<longrightarrow> field_ok w"
    using example_tidy by (simp_all add: example_leader_fields)
  moreover have "room (length ?sent) example_leader" using example_room(2) by simp
  ultimately have "Done = Done \<and> (\<forall>(ip, port, msg) \<in> set ?sent. ip = leaderIp (st example_leader) \<and> port = 9000)
    \<and> (\<forall>d t v w. hd d \<in> set ''a'' \<longrightarrow> disk_look (dsk (fold deliver ?sent ?n)) (d, t) = Some v
        \<longrightarrow> ?live d = Some w \<longrightarrow> v = w)"
    by (intro refresh_pass_updates [OF p]) simp_all
  then have "\<forall>d t v w. hd d \<in> set ''a'' \<longrightarrow> disk_look (dsk (fold deliver ?sent ?n)) (d, t) = Some v
        \<longrightarrow> ?live d = Some w \<longrightarrow> v = w" by blast
  note last = this [rule_format, of "''a.com''" "''A''" "''1.1.1.1''" "''2.2.2.2''"]
  show ?thesis
    unfolding p snd_conv
  proof
    assume "disk_look (dsk (fold deliver ?sent ?n)) (''a.com'', ''A'') = Some ''1.1.1.1''"
    from last [OF _ this] have "''1.1.1.1'' = ''2.2.2.2''" by simp
    then show False by simp
  qed
qed

end
