(* ===== verification/Election.thy ===== *)
theory Election
  imports Raft
begin

text \<open>
  The leader election of a whole cluster, as a step relation over the nodes and the heartbeats
  in flight. A step is one complete round of a member's heart thread at some clock reading, with
  its three outcomes (a leader whose beat is due sends heartbeats, a follower whose leader has
  been silent for \<open>leaderDead\<close> seconds promotes itself and sends heartbeats, anything else
  changes nothing), or one member handling a heartbeat addressed to it. Heartbeats may be
  delivered in any order, late, repeatedly or never, and the clock readings are arbitrary.
\<close>

record config =
  node_at :: "string \<Rightarrow> core"
  next_at :: "string \<Rightarrow> time"
  flying :: "packet set"

datatype elect_event = Heart string time | Handle string string time

inductive elect_step :: "string list \<Rightarrow> config \<Rightarrow> elect_event \<Rightarrow> config \<Rightarrow> bool" where
  heart: "i \<in> set ips \<Longrightarrow> raftHeart_round now (next_at c i, node_at c i) = (nxt, n) \<Longrightarrow>
    elect_step ips c (Heart i now)
      (c\<lparr>node_at := (node_at c)(i := n), next_at := (next_at c)(i := nxt),
         flying := flying c \<union> set (drop (length (net (node_at c i))) (net n))\<rparr>)"
| deliver: "(j, 7001, msg) \<in> flying c \<Longrightarrow>
    elect_step ips c (Handle j msg t)
      (c\<lparr>node_at := (node_at c)(j := beatHandler t msg (node_at c j))\<rparr>)"

inductive_cases elect_HeartE: "elect_step ips c (Heart i now) c'"
inductive_cases elect_HandleE: "elect_step ips c (Handle j msg t) c'"

inductive elect_run :: "string list \<Rightarrow> config \<Rightarrow> elect_event list \<Rightarrow> config \<Rightarrow> bool" where
  start: "elect_run ips c [] c"
| step: "elect_run ips c es c' \<Longrightarrow> elect_step ips c' e c'' \<Longrightarrow> elect_run ips c (es @ [e]) c''"

definition elect_start :: "string list \<Rightarrow> config" where
  "elect_start ips = \<lparr>node_at = booted_node ips,
     next_at = (\<lambda>i. fst (heart_start 0 (booted_node ips i))), flying = {}\<rparr>"

text \<open>
  Since when member \<open>j\<close> follows \<open>hi\<close> without interruption, read off the events of a run: a
  heartbeat of \<open>hi\<close> that \<open>j\<close> handles starts it, every further heartbeat renews the time, and a
  round of \<open>j\<close>'s heart thread 300 or more seconds (the \<^verbatim>\<open>leaderDead\<close> of class \<^verbatim>\<open>States\<close>) after
  the last heartbeat ends it.
\<close>

definition beat_from :: "string \<Rightarrow> string \<Rightarrow> bool" where
  "beat_from ip msg \<longleftrightarrow> (case parse_beat msg of None \<Rightarrow> False | Some (i, r, lr) \<Rightarrow> i = ip)"

fun link_event :: "string \<Rightarrow> string \<Rightarrow> elect_event \<Rightarrow> time option \<Rightarrow> time option" where
  "link_event hi j (Handle i msg t) l =
     (if i = j \<and> (l \<noteq> None \<or> beat_from hi msg) then Some t else l)"
| "link_event hi j (Heart i now) l =
     (case l of None \<Rightarrow> None | Some t \<Rightarrow> if i = j \<and> now - t \<ge> 300 then None else Some t)"

definition linked :: "string \<Rightarrow> string \<Rightarrow> elect_event list \<Rightarrow> time option" where
  "linked hi j es = fold (link_event hi j) es None"

section \<open>Invariant\<close>

definition addr :: "string \<Rightarrow> ipv4" where
  "addr ip = the (IPv4Address ip)"

text \<open>Clusters the election is about: distinct members with valid addresses.\<close>

definition valid_members :: "string list \<Rightarrow> bool" where
  "valid_members ips \<longleftrightarrow> distinct ips \<and> (\<forall>ip \<in> set ips. IPv4Address ip \<noteq> None)
     \<and> printable (int (length ips))"

lemma valid_addr: "valid_members ips \<Longrightarrow> ip \<in> set ips \<Longrightarrow> IPv4Address ip = Some (addr ip)"
  by (auto simp: valid_members_def addr_def)

lemma addr_inj: "valid_members ips \<Longrightarrow> i \<in> set ips \<Longrightarrow> j \<in> set ips \<Longrightarrow> addr i = addr j \<Longrightarrow> i = j"
  using valid_addr IPv4Address_inj by metis

definition node_inv :: "string list \<Rightarrow> string \<Rightarrow> core \<Rightarrow> bool" where
  "node_inv ips i n \<longleftrightarrow> selfIp (st n) = i \<and> leaderDead (st n) = 300
     \<and> leaderIp (st n) \<in> set ips \<and> addr i \<le> addr (leaderIp (st n))
     \<and> (leader (rf n) \<longleftrightarrow> leaderIp (st n) = i)"

text \<open>A heartbeat text of a member, whatever its numbers.\<close>

definition beat_text :: "string \<Rightarrow> string \<Rightarrow> bool" where
  "beat_text i msg \<longleftrightarrow> (\<exists>r lr. msg = beat_msg i r lr)"

definition elect_inv :: "string list \<Rightarrow> config \<Rightarrow> bool" where
  "elect_inv ips c \<longleftrightarrow> (\<forall>i \<in> set ips. node_inv ips i (node_at c i))
     \<and> (\<forall>(j, p, msg) \<in> flying c. \<exists>i \<in> set ips. beat_text i msg)"

lemma length_str_nat_mono: "m \<le> n \<Longrightarrow> length (str_nat m) \<le> length (str_nat n)"
proof (induction n arbitrary: m rule: str_nat.induct)
  case (1 n)
  show ?case
  proof (cases "m < 10")
    case True
    then have "length (str_nat m) = 1" by (subst str_nat.simps) simp
    then show ?thesis by (metis One_nat_def Suc_leI length_greater_0_conv str_nat_not_Nil)
  next
    case False
    with 1 have "length (str_nat (m div 10)) \<le> length (str_nat (n div 10))" by (simp add: div_le_mono)
    with False 1(2) show ?thesis by (subst (1 2) str_nat.simps) simp
  qed
qed

lemma printable_mono: "0 \<le> i \<Longrightarrow> i \<le> j \<Longrightarrow> printable j \<Longrightarrow> printable i"
  using length_str_nat_mono [OF nat_mono, of i j] by (simp add: printable_def str_int_def)

lemma number_from_snd: "(ip, r) \<in> set (number_from k ips) \<Longrightarrow> int k \<le> r \<and> r < int (k + length ips)"
  by (induction k ips rule: number_from.induct) auto

lemma start_inv: "valid_members ips \<Longrightarrow> elect_inv ips (elect_start ips)"
  by (auto simp: elect_inv_def elect_start_def node_inv_def booted_node_def member_state_def raft_init_def)

text \<open>A heartbeat text either does not parse or parses to the address of its sender.\<close>

lemma beat_text_parse:
  assumes "IPv4Address i = Some a" and "beat_text i msg"
  shows "parse_beat msg = None \<or> (\<exists>r lr. parse_beat msg = Some (i, r, lr))"
proof -
  obtain r lr where m: "msg = beat_msg i r lr" using assms(2) by (auto simp: beat_text_def)
  have "split_on (CHR '';'') (strip msg) = [i, str_int r, str_int lr]"
    unfolding m using assms(1) by (rule split_beat_msg)
  then show ?thesis by (auto simp: parse_beat_def split: option.splits)
qed

lemma handle_inv:
  assumes v: "valid_members ips" and n: "node_inv ips j n" and i: "i \<in> set ips" and b: "beat_text i msg"
  shows "node_inv ips j (beatHandler t msg n) \<and> last_beat_received (rf (beatHandler t msg n)) = t
    \<and> leaderIp (st (beatHandler t msg n)) =
        (if beat_from i msg \<and> addr i > addr (leaderIp (st n)) then i else leaderIp (st n))"
  using beat_text_parse [OF valid_addr [OF v i] b]
proof (elim disjE exE)
  assume "parse_beat msg = None"
  then show ?thesis using n by (simp add: beatHandler_def beat_from_def node_inv_def)
next
  fix r lr assume p: "parse_beat msg = Some (i, r, lr)"
  have "leaderIp (st n) \<in> set ips" using n by (simp add: node_inv_def)
  then have h: "beatHandler t msg n = after_beat t i (addr i) (addr (leaderIp (st n))) r lr n"
    using p valid_addr [OF v i] valid_addr [OF v] by (intro beatHandler_parsed)
  show ?thesis
    unfolding h using n i p by (auto simp: node_inv_def after_beat_fields beat_from_def)
qed

text \<open>The three outcomes of a round of the heart thread.\<close>

lemma heart_cases:
  assumes "raftHeart_round now (nxt, n) = (nxt', n')"
  obtains (quiet) "n' = n" "leader (rf n) \<or> now - last_beat_received (rf n) < leaderDead (st n)"
  | (beat) "n' = sendBeat n" "leader (rf n)"
  | (timeout) "n' = promote now n" "\<not> leader (rf n)" "now - last_beat_received (rf n) \<ge> leaderDead (st n)"
proof (cases "leader (rf n)")
  case True
  then show ?thesis using assms that(1,2) by (auto simp: round_leader split: if_splits)
next
  case follower: False
  show ?thesis
  proof (cases "now - last_beat_received (rf n) \<ge> leaderDead (st n)")
    case True
    with follower assms that(3) show ?thesis by (simp add: round_timeout)
  next
    case False
    then have "n' = n" using round_quiet [OF follower, of now nxt] assms by simp
    with False that(1) show ?thesis by simp
  qed
qed

lemma beats_flying: "selfIp (st n) = i \<Longrightarrow> (j, p, msg) \<in> set (beats_of (st n)) \<Longrightarrow> beat_text i msg"
  by (auto simp: beats_of_def beat_text_def)

lemma heart_inv:
  assumes n: "node_inv ips i n" and i: "i \<in> set ips" and r: "raftHeart_round now (nxt, n) = (nxt', n')"
  shows "node_inv ips i n' \<and> (\<forall>(j, p, msg) \<in> set (drop (length (net n)) (net n')). beat_text i msg)"
  using r
proof (cases rule: heart_cases)
  case quiet
  with n show ?thesis by simp
next
  case beat
  with n show ?thesis by (auto simp: node_inv_def dest: beats_flying [OF refl])
next
  case timeout
  have "leaderDead (st (promote now n)) = leaderDead (st n)" by (simp add: promote_def Let_def)
  moreover have "selfIp (st (promote now n)) = i" using n by (simp add: node_inv_def promote_fields)
  ultimately show ?thesis
    using n i timeout by (auto simp: node_inv_def promote_fields promote_leader dest: beats_flying [rotated])
qed

lemma step_inv:
  assumes v: "valid_members ips" and inv: "elect_inv ips c" and "elect_step ips c e c'"
  shows "elect_inv ips c'"
  using assms(3)
proof cases
  case (heart i now nxt n)
  have "node_inv ips i (node_at c i)" using inv heart by (simp add: elect_inv_def)
  from heart_inv [OF this heart(3,4)] show ?thesis
    using inv heart(3) by (fastforce simp: elect_inv_def heart(2))
next
  case (deliver j msg t)
  then obtain i where "i \<in> set ips" "beat_text i msg" using inv by (fastforce simp: elect_inv_def)
  then have "j \<in> set ips \<longrightarrow> node_inv ips j (beatHandler t msg (node_at c j))"
    using handle_inv [OF v] inv by (simp add: elect_inv_def)
  then show ?thesis using inv by (auto simp: elect_inv_def deliver)
qed

lemma run_inv:
  "elect_run ips c es c' \<Longrightarrow> valid_members ips \<Longrightarrow> elect_inv ips c \<Longrightarrow> elect_inv ips c'"
  by (induction rule: elect_run.induct) (auto intro: step_inv)

lemmas reached_inv = run_inv [OF _ _ start_inv]

text \<open>The member with the greatest address.\<close>

definition is_top :: "string list \<Rightarrow> string \<Rightarrow> bool" where
  "is_top ips hi \<longleftrightarrow> hi \<in> set ips \<and> (\<forall>i \<in> set ips. addr i \<le> addr hi)"

lemma top_stays:
  assumes v: "valid_members ips" and t: "is_top ips hi" and n: "node_inv ips j n" and i: "i \<in> set ips"
    and b: "beat_text i msg" and c: "leaderIp (st n) = hi \<or> beat_from hi msg"
  shows "leaderIp (st (beatHandler t msg n)) = hi"
proof -
  have l: "leaderIp (st n) \<in> set ips" using n by (simp add: node_inv_def)
  have "\<not> addr i > addr hi" and "addr (leaderIp (st n)) \<le> addr hi" using t i l by (auto simp: is_top_def)
  moreover have "i = hi" if "beat_from hi msg"
    using beat_text_parse [OF valid_addr [OF v i] b] that by (auto simp: beat_from_def)
  ultimately show ?thesis
    using c handle_inv [OF v n i b, of t] addr_inj [OF v l, of hi] t by (auto simp: is_top_def)
qed

text \<open>
  A member that has handled a heartbeat of the top member follows it until it times out, and
  the time read off the events is the one its heart thread compares with.
\<close>

lemma linked_snoc: "linked hi j (es @ [e]) = link_event hi j e (linked hi j es)"
  by (simp add: linked_def)

lemma heart_linked:
  assumes n: "node_inv ips j n" and r: "raftHeart_round now (nxt, n) = (nxt', n')"
    and l: "leaderIp (st n) = hi" "now - last_beat_received (rf n) < 300"
  shows "leaderIp (st n') = hi \<and> last_beat_received (rf n') = last_beat_received (rf n)"
  using r by (cases rule: heart_cases) (use n l in \<open>auto simp: node_inv_def\<close>)

lemma linked_follows:
  assumes "elect_run ips c es c'" and "valid_members ips" and "elect_inv ips c" and "is_top ips hi"
    and "j \<in> set ips" and "linked hi j es = Some t"
  shows "leaderIp (st (node_at c' j)) = hi \<and> last_beat_received (rf (node_at c' j)) = t"
  using assms
proof (induction arbitrary: t rule: elect_run.induct)
  case (step ips c es c' e c'')
  have inv: "elect_inv ips c'" using step.hyps(1) step.prems(1,2) by (rule run_inv)
  then have nj: "node_inv ips j (node_at c' j)" using step.prems(4) by (simp add: elect_inv_def)
  note IH = step.IH [OF step.prems(1-4)]
  show ?case using step.hyps(2)
  proof cases
    case (heart i now nxt n)
    have "linked hi j es = Some t" "i = j \<longrightarrow> now - t < 300"
      using step.prems(5) by (auto simp: linked_snoc heart split: option.splits if_splits)
    with IH heart_linked [OF nj, of now "next_at c' j" nxt n hi] heart show ?thesis by auto
  next
    case (deliver i msg u)
    obtain k where k: "k \<in> set ips" "beat_text k msg" using deliver inv by (fastforce simp: elect_inv_def)
    show ?thesis
    proof (cases "i = j")
      case True
      then have "u = t" "leaderIp (st (node_at c' j)) = hi \<or> beat_from hi msg"
        using step.prems(5) IH by (auto simp: linked_snoc deliver split: if_splits)
      with top_stays [OF step.prems(1,3) nj k, of u] handle_inv [OF step.prems(1) nj k, of u] True
      show ?thesis by (simp add: deliver)
    next
      case False
      with step.prems(5) IH show ?thesis by (simp add: linked_snoc deliver)
    qed
  qed
qed (simp add: linked_def)

lemma top_leads:
  assumes "valid_members ips" and "is_top ips hi" and "elect_run ips (elect_start ips) es c"
  shows "leader (rf (node_at c hi)) \<and> leaderIp (st (node_at c hi)) = hi"
proof -
  have nt: "node_inv ips hi (node_at c hi)"
    using reached_inv [OF assms(3,1,1)] assms(2) by (simp add: elect_inv_def is_top_def)
  then have l: "leaderIp (st (node_at c hi)) \<in> set ips"
    and "addr hi \<le> addr (leaderIp (st (node_at c hi)))" by (simp_all add: node_inv_def)
  with assms(2) have "addr (leaderIp (st (node_at c hi))) = addr hi" and "hi \<in> set ips"
    by (simp_all add: is_top_def order_antisym)
  then have "leaderIp (st (node_at c hi)) = hi" using addr_inj [OF assms(1) l] by blast
  with nt show ?thesis by (simp add: node_inv_def)
qed

lemma all_linked:
  assumes "valid_members ips" and "is_top ips hi" and "elect_run ips (elect_start ips) es c"
    and "\<forall>j \<in> set ips - {hi}. linked hi j es \<noteq> None"
  shows "\<forall>i \<in> set ips. leaderIp (st (node_at c i)) = hi \<and> (leader (rf (node_at c i)) \<longleftrightarrow> i = hi)"
proof
  fix i assume i: "i \<in> set ips"
  have ni: "node_inv ips i (node_at c i)"
    using reached_inv [OF assms(3,1,1)] i by (simp add: elect_inv_def)
  have "leaderIp (st (node_at c i)) = hi"
  proof (cases "i = hi")
    case True
    then show ?thesis using top_leads [OF assms(1-3)] by simp
  next
    case False
    then obtain t where "linked hi i es = Some t" using assms(4) i by auto
    then show ?thesis using linked_follows [OF assms(3,1) start_inv [OF assms(1)] assms(2) i] by blast
  qed
  with ni show "leaderIp (st (node_at c i)) = hi \<and> (leader (rf (node_at c i)) \<longleftrightarrow> i = hi)"
    by (auto simp: node_inv_def)
qed

section \<open>Executing a run\<close>

text \<open>The relation is deterministic, so that a list of events can be executed.\<close>

fun elect_next :: "elect_event \<Rightarrow> config \<Rightarrow> config" where
  "elect_next (Heart i now) c =
     (let r = raftHeart_round now (next_at c i, node_at c i)
      in c\<lparr>node_at := (node_at c)(i := snd r), next_at := (next_at c)(i := fst r),
           flying := flying c \<union> set (drop (length (net (node_at c i))) (net (snd r)))\<rparr>)"
| "elect_next (Handle j msg t) c = c\<lparr>node_at := (node_at c)(j := beatHandler t msg (node_at c j))\<rparr>"

fun elect_enabled :: "string list \<Rightarrow> elect_event \<Rightarrow> config \<Rightarrow> bool" where
  "elect_enabled ips (Heart i now) c \<longleftrightarrow> i \<in> set ips"
| "elect_enabled ips (Handle j msg t) c \<longleftrightarrow> (j, 7001, msg) \<in> flying c"

fun elect_runs :: "string list \<Rightarrow> elect_event list \<Rightarrow> config \<Rightarrow> bool" where
  "elect_runs ips [] c \<longleftrightarrow> True"
| "elect_runs ips (e # es) c \<longleftrightarrow> elect_enabled ips e c \<and> elect_runs ips es (elect_next e c)"

lemma elect_step_iff: "elect_step ips c e c' \<longleftrightarrow> elect_enabled ips e c \<and> c' = elect_next e c"
proof
  assume "elect_step ips c e c'"
  then show "elect_enabled ips e c \<and> c' = elect_next e c"
    by cases (simp_all add: Let_def)
next
  assume a: "elect_enabled ips e c \<and> c' = elect_next e c"
  then show "elect_step ips c e c'"
    by (cases e) (auto simp: Let_def intro: elect_step.intros)
qed

lemma elect_runs_run:
  assumes "elect_run ips c0 es0 c" and "elect_runs ips es c"
  shows "elect_run ips c0 (es0 @ es) (fold elect_next es c)"
  using assms
proof (induction es arbitrary: es0 c)
  case (Cons e es)
  then have "elect_run ips c0 (es0 @ [e]) (elect_next e c)"
    by (auto intro: elect_run.step simp: elect_step_iff)
  from Cons.IH [OF this] Cons.prems show ?case by simp
qed simp

lemmas execute_run = elect_runs_run [OF elect_run.start, unfolded append_Nil]

lemma deliver_all:
  assumes "set ps \<subseteq> flying c" and "\<forall>(j, p, m) \<in> set ps. p = 7001"
  shows "elect_runs ips (map (\<lambda>(j, p, m). Handle j m 0) ps) c"
  using assms by (induction ps arbitrary: c) (auto split: prod.splits)

text \<open>The top member never drops a member, and it knows all of them from the start.\<close>

lemma top_knows_all:
  assumes "elect_run ips c es c'" and "valid_members ips" and "c = elect_start ips" and "is_top ips hi"
  shows "nodes (st (node_at c' hi)) = number_from 1 ips"
  using assms
proof (induction rule: elect_run.induct)
  case (start ips c)
  then show ?case by (simp add: elect_start_def booted_node_def member_state_def)
next
  case (step ips c es c' e c'')
  note IH = step.IH [OF step.prems]
  have inv: "elect_inv ips c'" and l: "leader (rf (node_at c' hi))"
    using step.hyps(1) step.prems reached_inv top_leads by blast+
  show ?case using step.hyps(2)
  proof cases
    case (heart i now nxt n)
    show ?thesis
    proof (cases "i = hi")
      case True
      show ?thesis using heart(4) by (cases rule: heart_cases) (use True l IH heart in auto)
    qed (use IH heart in simp)
  next
    case (deliver j msg t)
    then obtain k where k: "k \<in> set ips" "beat_text k msg" using inv by (fastforce simp: elect_inv_def)
    have "nodes (st (beatHandler t msg (node_at c' hi))) = nodes (st (node_at c' hi))"
      using beat_text_parse [OF valid_addr [OF step.prems(1) k(1)] k(2)] k(1) IH
      by (auto simp: beatHandler_def register_known Let_def split: option.splits)
    with IH deliver show ?thesis by (cases "j = hi") simp_all
  qed
qed

text \<open>A list of handled heartbeats, one of them from \<open>hi\<close>, links the node that handles it.\<close>

lemma linked_handles:
  assumes "\<forall>e \<in> set hs. \<exists>i m t. e = Handle i m t" and "Handle j msg t \<in> set hs" and "beat_from hi msg"
  shows "fold (link_event hi j) hs l \<noteq> None"
proof -
  have keep: "fold (link_event hi j) hs (Some u) \<noteq> None" if "\<forall>e \<in> set hs. \<exists>i m t. e = Handle i m t" for u hs
    using that by (induction hs arbitrary: u) auto
  show ?thesis using assms
  proof (induction hs arbitrary: l)
    case (Cons e hs)
    show ?case
    proof (cases "Handle j msg t \<in> set hs")
      case False
      then have "e = Handle j msg t" using Cons.prems(2) by auto
      with Cons.prems keep [of hs t] show ?thesis by simp
    qed (use Cons in auto)
  qed simp
qed

definition three :: "string list" where
  "three = [''10.0.0.3'', ''10.0.0.7'', ''10.0.0.9'']"

lemma example_members:
  "valid_members [''10.0.0.3'', ''10.0.0.9'']" "valid_members three"
proof -
  have "printable 2" "printable 3" by code_simp+
  then show "valid_members [''10.0.0.3'', ''10.0.0.9'']"
    "valid_members three"
    by (simp_all add: valid_members_def example_addresses three_def)
qed

lemma example_top:
  "is_top [''10.0.0.3'', ''10.0.0.9''] ''10.0.0.9''"
  "is_top three ''10.0.0.9''"
  by (simp_all add: is_top_def addr_def example_addresses less_eq_ipv4_def three_def)

text \<open>
  A run with a lost leader, on three members: the highest member's beats reach one follower,
  which times out 300 seconds later, promotes itself and wins over the third member.
\<close>

definition split_run :: "elect_event list" where
  "split_run = [Heart ''10.0.0.9'' 100, Handle ''10.0.0.7'' (beat_msg ''10.0.0.9'' 2 3) 101,
     Heart ''10.0.0.7'' 400, Heart ''10.0.0.7'' 401, Handle ''10.0.0.3'' (beat_msg ''10.0.0.7'' 1 2) 402]"

text \<open>
  The split heals: the next beats of the highest member reach both others, which then stay
  with it over rounds of their heart threads that come in time.
\<close>

definition healed_run :: "elect_event list" where
  "healed_run = split_run @ [Heart ''10.0.0.9'' 410, Handle ''10.0.0.3'' (beat_msg ''10.0.0.9'' 1 3) 411,
     Handle ''10.0.0.7'' (beat_msg ''10.0.0.9'' 2 3) 412, Heart ''10.0.0.7'' 600, Heart ''10.0.0.3'' 710]"

lemma three_boot:
  "selfIp (st (booted_node three i)) = i" "leaderIp (st (booted_node three i)) = i"
  "leader (rf (booted_node three i))" "net (booted_node three i) = []"
  "nodes (st (booted_node three i)) = [(''10.0.0.3'', 1), (''10.0.0.7'', 2), (''10.0.0.9'', 3)]"
  "lastRank (st (booted_node three i)) = 3" "rank (st (booted_node three ''10.0.0.7'')) = 2"
  "leaderDead (st (booted_node three i)) = 300" "beatInterval (st (booted_node three i)) = 100"
  "rf_beatInterval (rf (booted_node three i)) = 100"
  by (simp_all add: booted_node_def member_state_def raft_init_def three_def rank_of_def)

text \<open>A member that hears a higher member whose view it shares only changes whom it follows.\<close>

lemma beat_shared_view:
  assumes "IPv4Address ip = Some a" and "IPv4Address (leaderIp (st n)) = Some b" and "a > b"
    and "printable r" and "printable lr" and "ip \<in> set (dkeys (nodes (st n)))"
    and "rank (st n) = r" and "lastRank (st n) = lr"
  shows "st (beatHandler t (beat_msg ip r lr) n) = (st n)\<lparr>leaderIp := ip\<rparr>
    \<and> \<not> leader (rf (beatHandler t (beat_msg ip r lr) n))
    \<and> last_beat_received (rf (beatHandler t (beat_msg ip r lr) n)) = t
    \<and> net (beatHandler t (beat_msg ip r lr) n) = net n"
proof -
  have "beatHandler t (beat_msg ip r lr) n = after_beat t ip a b r lr n"
    using assms by (intro beatHandler_parsed parse_beat_msg)
  then show ?thesis using assms(3,6-8) by (simp add: after_beat_def Let_def register_sender_def)
qed

lemma small_printable: "printable 1" "printable 2" "printable 3"
  by code_simp+

lemma split_follower:
  defines "n \<equiv> beatHandler 101 (beat_msg ''10.0.0.9'' 2 3) (booted_node three ''10.0.0.7'')"
  shows "\<not> leader (rf n)" "last_beat_received (rf n) = 101" "leaderDead (st n) = 300" "net n = []"
    "leader (rf (promote 401 n))" "net (promote 401 n) = [(''10.0.0.3'', 7001, beat_msg ''10.0.0.7'' 1 2)]"
proof -
  have n: "st n = (st (booted_node three ''10.0.0.7''))\<lparr>leaderIp := ''10.0.0.9''\<rparr>
      \<and> \<not> leader (rf n) \<and> last_beat_received (rf n) = 101 \<and> net n = net (booted_node three ''10.0.0.7'')"
    unfolding n_def by (rule beat_shared_view [of _ "IPv4 167772169" _ "IPv4 167772167"])
      (simp_all add: three_boot example_addresses small_printable less_ipv4_def)
  then show "\<not> leader (rf n)" "last_beat_received (rf n) = 101" "leaderDead (st n) = 300" "net n = []"
    "leader (rf (promote 401 n))"
    by (simp_all add: three_boot promote_leader)
  have "sees three (st (booted_node three ''10.0.0.7''))"
    using member_state_settled [of three "''10.0.0.7''"] by (simp add: booted_node_def settled_def three_def)
  then have "sees three (st n)" using n by simp
  moreover have "leaderIp (st n) = ''10.0.0.9''" "selfIp (st n) = ''10.0.0.7''" "net n = []"
    using n by (simp_all add: three_boot)
  ultimately show "net (promote 401 n) = [(''10.0.0.3'', 7001, beat_msg ''10.0.0.7'' 1 2)]"
    using promote_net [of three n "[''10.0.0.3'', ''10.0.0.7'']" 401] by (simp add: three_def rank_of_def)
qed

lemma split_round:
  defines "n \<equiv> beatHandler 101 (beat_msg ''10.0.0.9'' 2 3) (booted_node three ''10.0.0.7'')"
  shows "snd (raftHeart_round 400 (x, n)) = n" "snd (raftHeart_round 401 (x, n)) = promote 401 n"
  using round_quiet [of n 400] round_timeout [of n 401 x] split_follower [folded n_def] by simp_all

lemmas split_simps = three_boot split_follower split_round beats_of_def round_leader
  elect_start_def heart_start_def Let_def

lemma split_runs: "elect_runs three split_run (elect_start three)"
  by (simp add: split_run_def split_simps) (simp add: three_def)

lemma healed_runs: "elect_runs three healed_run (elect_start three)"
  by (simp add: healed_run_def split_run_def split_simps) (simp add: three_def)

lemma split_outcome:
  "leader (rf (node_at (fold elect_next split_run (elect_start three)) ''10.0.0.7''))"
  "\<not> leader (rf (node_at (fold elect_next split_run (elect_start three)) ''10.0.0.3''))"
proof -
  show "leader (rf (node_at (fold elect_next split_run (elect_start three)) ''10.0.0.7''))"
    by (simp add: split_run_def split_simps)
  have "parse_beat (beat_msg ''10.0.0.7'' 1 2) = Some (''10.0.0.7'', 1, 2)"
    by (rule parse_beat_msg) (rule example_addresses small_printable)+
  then have "beat_addr (beat_msg ''10.0.0.7'' 1 2) = Some (IPv4 167772167)"
    by (simp add: beat_addr_def example_addresses)
  then have "\<not> leader (rf (beatHandler 402 (beat_msg ''10.0.0.7'' 1 2) (booted_node three ''10.0.0.3'')))"
    using beat_step [of "booted_node three ''10.0.0.3''" "IPv4 167772163" 402 "beat_msg ''10.0.0.7'' 1 2"]
    by (simp add: three_boot example_addresses less_eq_ipv4_def)
  then show "\<not> leader (rf (node_at (fold elect_next split_run (elect_start three)) ''10.0.0.3''))"
    by (simp add: split_run_def split_simps)
qed

lemma healed_linked:
  "linked ''10.0.0.9'' ''10.0.0.3'' healed_run = Some 411" "linked ''10.0.0.9'' ''10.0.0.7'' healed_run = Some 412"
  "linked ''10.0.0.9'' ''10.0.0.7'' split_run = None"
proof -
  have "beat_from ''10.0.0.9'' (beat_msg ''10.0.0.9'' 1 3)" "beat_from ''10.0.0.9'' (beat_msg ''10.0.0.9'' 2 3)"
    "\<not> beat_from ''10.0.0.9'' (beat_msg ''10.0.0.7'' 1 2)"
    using parse_beat_msg [OF example_addresses(2) small_printable(1,3)]
      parse_beat_msg [OF example_addresses(2) small_printable(2,3)]
      parse_beat_msg [OF example_addresses(3) small_printable(1,2)] by (simp_all add: beat_from_def)
  then show "linked ''10.0.0.9'' ''10.0.0.3'' healed_run = Some 411"
    "linked ''10.0.0.9'' ''10.0.0.7'' healed_run = Some 412" "linked ''10.0.0.9'' ''10.0.0.7'' split_run = None"
    by (simp_all add: linked_def healed_run_def split_run_def)
qed

section \<open>Properties\<close>

text \<open>
  C8: the member with the highest address is never deposed. In every configuration reachable
  from start-up by rounds of the heart threads at any clock readings, time-outs with their
  promotions included, and by heartbeats delivered late, repeatedly, out of order or never, it
  is leader and follows itself, and every member that is not leader follows a member with a
  higher address than its own.
\<close>

theorem top_member_stays_leader:
  assumes "valid_members ips" and "is_top ips hi" and "elect_run ips (elect_start ips) es c"
  shows "leader (rf (node_at c hi)) \<and> leaderIp (st (node_at c hi)) = hi
    \<and> (\<forall>i \<in> set ips. \<not> leader (rf (node_at c i)) \<longrightarrow>
         leaderIp (st (node_at c i)) \<in> set ips \<and> addr (leaderIp (st (node_at c i))) > addr i)"
proof -
  have inv: "elect_inv ips c" using reached_inv [OF assms(3,1,1)] .
  have "leader (rf (node_at c hi)) \<and> leaderIp (st (node_at c hi)) = hi" using assms by (rule top_leads)
  moreover have "addr (leaderIp (st (node_at c i))) > addr i" "leaderIp (st (node_at c i)) \<in> set ips"
    if "i \<in> set ips" "\<not> leader (rf (node_at c i))" for i
  proof -
    have ni: "node_inv ips i (node_at c i)" using inv that(1) by (simp add: elect_inv_def)
    then show li: "leaderIp (st (node_at c i)) \<in> set ips" by (simp add: node_inv_def)
    show "addr (leaderIp (st (node_at c i))) > addr i"
      using ni that addr_inj [OF assms(1) that(1) li] by (auto simp: node_inv_def order.order_iff_strict)
  qed
  ultimately show ?thesis by blast
qed

theorem top_member_stays_leader_witness:
  "elect_run three (elect_start three) split_run (fold elect_next split_run (elect_start three))
   \<and> leader (rf (node_at (fold elect_next split_run (elect_start three)) ''10.0.0.7''))
   \<and> leader (rf (node_at (fold elect_next split_run (elect_start three)) ''10.0.0.9''))
   \<and> addr (leaderIp (st (node_at (fold elect_next split_run (elect_start three)) ''10.0.0.3''))) > addr ''10.0.0.3''"
proof -
  have r: "elect_run three (elect_start three) split_run (fold elect_next split_run (elect_start three))"
    using split_runs by (rule execute_run)
  have "''10.0.0.3'' \<in> set three" by (simp add: three_def)
  with r split_outcome top_member_stays_leader [OF example_members(2) example_top(2) r] show ?thesis by blast
qed

text \<open>
  C7: the election converges to one leader, and stays there as long as heartbeats come in time.
  In every run from start-up in which each other member has handled a heartbeat of the member
  with the highest address and no round of its heart thread since then came 300 seconds after
  the last heartbeat it handled (from anybody), that member is the only leader and everybody
  follows it, whatever else was sent, lost, delayed or reordered and whoever timed out before.
\<close>

theorem election_converges:
  assumes "valid_members ips" and "is_top ips hi" and "elect_run ips (elect_start ips) es c"
    and "\<forall>j \<in> set ips - {hi}. linked hi j es \<noteq> None"
  shows "\<forall>i \<in> set ips. leaderIp (st (node_at c i)) = hi \<and> (leader (rf (node_at c i)) \<longleftrightarrow> i = hi)"
  using assms by (rule all_linked)

theorem election_converges_witness:
  "elect_run three (elect_start three) healed_run (fold elect_next healed_run (elect_start three))
   \<and> linked ''10.0.0.9'' ''10.0.0.7'' split_run = None
   \<and> leaderIp (st (node_at (fold elect_next healed_run (elect_start three)) ''10.0.0.3'')) = ''10.0.0.9''
   \<and> leaderIp (st (node_at (fold elect_next healed_run (elect_start three)) ''10.0.0.7'')) = ''10.0.0.9''
   \<and> \<not> leader (rf (node_at (fold elect_next healed_run (elect_start three)) ''10.0.0.7''))
   \<and> leader (rf (node_at (fold elect_next healed_run (elect_start three)) ''10.0.0.9''))"
proof -
  have r: "elect_run three (elect_start three) healed_run (fold elect_next healed_run (elect_start three))"
    using healed_runs by (rule execute_run)
  have m: "set three = {''10.0.0.3'', ''10.0.0.7'', ''10.0.0.9''}" by (simp add: three_def)
  have "\<forall>j \<in> set three - {''10.0.0.9''}. linked ''10.0.0.9'' j healed_run \<noteq> None"
    using healed_linked by (auto simp: m)
  from election_converges [OF example_members(2) example_top(2) r this] r healed_linked(3) show ?thesis
    by (simp add: m)
qed

text \<open>
  Convergence is always within reach. From every configuration reachable from start-up in
  which the highest member's \<open>lastRank\<close> prints in at most 4300 digits there is a continuation,
  namely the next round of heartbeats of that member and their delivery, after which it is
  the only leader and everybody follows it.
\<close>

theorem election_can_converge:
  assumes "valid_members ips" and "is_top ips hi" and "elect_run ips (elect_start ips) es c"
    and "printable (lastRank (st (node_at c hi)))"
  shows "\<exists>es' c'. elect_run ips (elect_start ips) (es @ es') c' \<and>
    (\<forall>i \<in> set ips. leaderIp (st (node_at c' i)) = hi \<and> (leader (rf (node_at c' i)) \<longleftrightarrow> i = hi))"
proof -
  let ?n = "node_at c hi" and ?e = "Heart hi (next_at c hi)"
  let ?ps = "beats_of (st ?n)" and ?c = "elect_next ?e c"
  let ?es = "map (\<lambda>(j, p, m). Handle j m 0) ?ps"
  have hi: "hi \<in> set ips" and ad: "IPv4Address hi = Some (addr hi)"
    using assms(1,2) valid_addr by (auto simp: is_top_def)
  have n: "leader (rf ?n)" "selfIp (st ?n) = hi" "nodes (st ?n) = number_from 1 ips"
    using top_leads [OF assms(1-3)] reached_inv [OF assms(3,1,1)] hi top_knows_all [OF assms(3,1) refl assms(2)]
    by (simp_all add: elect_inv_def node_inv_def)
  have "flying ?c = flying c \<union> set ?ps" using n(1) by (simp add: round_leader)
  then have "elect_runs ips (?e # ?es) c"
    using hi deliver_all [of ?ps ?c] by (auto simp: beats_of_def)
  from elect_runs_run [OF assms(3) this]
  have r: "elect_run ips (elect_start ips) (es @ ?e # ?es) (fold elect_next (?e # ?es) c)" .
  have "linked hi j (es @ ?e # ?es) \<noteq> None" if j: "j \<in> set ips - {hi}" for j
  proof -
    obtain k where k: "(j, k) \<in> set (number_from 1 ips)"
      using j by (metis DiffD1 fst_set_number_from imageE prod.collapse)
    then have "printable k"
      using number_from_snd [OF k] assms(1) printable_mono [of k "int (length ips)"] by (simp add: valid_members_def)
    then have "beat_from hi (beat_msg hi k (lastRank (st ?n)))"
      using parse_beat_msg [OF ad] assms(4) by (simp add: beat_from_def)
    moreover have "Handle j (beat_msg hi k (lastRank (st ?n))) 0 \<in> set ?es"
      using k j n by (force simp: beats_of_def)
    ultimately have "fold (link_event hi j) ?es (linked hi j (es @ [?e])) \<noteq> None"
      by (intro linked_handles) auto
    then show ?thesis by (simp add: linked_def)
  qed
  then show ?thesis using all_linked [OF assms(1,2) r] r by blast
qed

theorem election_can_converge_witness:
  "\<exists>es' c'. elect_run [''10.0.0.3'', ''10.0.0.9''] (elect_start [''10.0.0.3'', ''10.0.0.9'']) ([] @ es') c' \<and>
    (\<forall>i \<in> set [''10.0.0.3'', ''10.0.0.9'']. leaderIp (st (node_at c' i)) = ''10.0.0.9''
       \<and> (leader (rf (node_at c' i)) \<longleftrightarrow> i = ''10.0.0.9''))"
proof (rule election_can_converge [OF example_members(1) example_top(1) elect_run.start])
  show "printable (lastRank (st (node_at (elect_start [''10.0.0.3'', ''10.0.0.9'']) ''10.0.0.9'')))" by code_simp
qed

end
