(* ===== verification/Node_Main.thy ===== *)
theory Node_Main
  imports Batch Election
begin

text \<open>
  The start-up of a node (\<^verbatim>\<open>data_plane/main.py\<close>): shared state, reader, writer and coordinator,
  in this order, after which the three servers, the heart thread and the refresh pass run on the
  assembled node. The second half puts the components together: nodes that start from a common
  directory and hear one heartbeat of the greatest address form a cluster that serves the
  records of the files.
\<close>

section \<open>main\<close>

definition boot :: "boot_env \<Rightarrow> time \<Rightarrow> char list \<Rightarrow> disk \<Rightarrow> exn + node" where
  "boot env now order dk =
     (case States_init env of
        Inl e \<Rightarrow> Inl e
      | Inr s \<Rightarrow>
          (case Reader_init order dk s of
             Inl e \<Rightarrow> Inl e
           | Inr s' \<Rightarrow> Inr \<lparr>st = s', rf = raft_init now s', net = [], wr = writer_init, dsk = dk\<rparr>))"

section \<open>A starting cluster\<close>

text \<open>The directory all nodes start from: distinct addresses, the files readable.\<close>

definition directory :: "boot_env \<Rightarrow> string list \<Rightarrow> bool" where
  "directory env ips \<longleftrightarrow> ips = file_ips (read_file env) (ip_files (listdir env)) \<and> distinct ips \<and> ips \<noteq> []
     \<and> nodesTxtOk env \<and> (\<forall>fn \<in> set (ip_files (listdir env)). \<forall>e. read_file env fn = Inl e \<longrightarrow> is_OSError e)"

definition serving_disk :: "disk \<Rightarrow> bool" where
  "serving_disk dk \<longleftrightarrow> (\<forall>c \<in> set ALPHABET. read_fault dk (shard_path c) = None \<and> clean_shard dk c)"

text \<open>The greatest member, with the addresses as numbers.\<close>

definition greatest :: "string list \<Rightarrow> string \<Rightarrow> bool" where
  "greatest ips g \<longleftrightarrow> g \<in> set ips \<and> (\<forall>ip \<in> set ips. \<exists>a b. IPv4Address ip = Some a \<and> IPv4Address g = Some b
     \<and> (ip = g \<or> a < b))"

text \<open>The node as it is after a heartbeat from the greatest member, or untouched if it is that one.\<close>

definition told :: "time \<Rightarrow> string \<Rightarrow> (string \<Rightarrow> string) \<Rightarrow> (string \<Rightarrow> node) \<Rightarrow> string \<Rightarrow> node" where
  "told now g beat B ip = (if ip = g then B ip else beatHandler now (beat ip) (B ip))"

definition started :: "boot_env \<Rightarrow> string list \<Rightarrow> disk \<Rightarrow> (string \<Rightarrow> char list) \<Rightarrow> (string \<Rightarrow> node) \<Rightarrow> bool" where
  "started env ips dk order B \<longleftrightarrow> (\<forall>ip \<in> set ips.
     distinct (order ip) \<and> set (order ip) = selfRecords (booted_state env ips ip)
     \<and> boot (env\<lparr>advertised_ip := ip\<rparr>) 0 (order ip) dk = Inr (B ip))"

text \<open>The heartbeats the greatest member sends.\<close>

definition beats_from :: "string list \<Rightarrow> (string \<Rightarrow> node) \<Rightarrow> string \<Rightarrow> (string \<Rightarrow> string) \<Rightarrow> bool" where
  "beats_from ips B g beat \<longleftrightarrow> (\<forall>ip \<in> set ips. ip \<noteq> g \<longrightarrow> (ip, 7001, beat ip) \<in> set (net (sendBeat (B g))))"

lemma boot_eq:
  assumes "directory env ips" and "ip \<in> set ips" and "started env ips dk order B"
  shows "\<exists>m. st (B ip) = (booted_state env ips ip)\<lparr>records := m\<rparr> \<and> rf (B ip) = raft_init 0 (st (B ip))
    \<and> net (B ip) = [] \<and> Reader_init (order ip) dk (booted_state env ips ip) = Inr (st (B ip))"
proof -
  have "States_init (env\<lparr>advertised_ip := ip\<rparr>) = Inr (booted_state env ips ip)"
    using assms(1) unfolding directory_def by (intro States_init_eq) blast+
  then have "boot (env\<lparr>advertised_ip := ip\<rparr>) 0 (order ip) dk = (case Reader_init (order ip) dk (booted_state env ips ip) of
      Inl e \<Rightarrow> Inl e | Inr s' \<Rightarrow> Inr \<lparr>st = s', rf = raft_init 0 s', net = [], wr = writer_init, dsk = dk\<rparr>)"
    by (simp add: boot_def)
  moreover have "boot (env\<lparr>advertised_ip := ip\<rparr>) 0 (order ip) dk = Inr (B ip)"
    using assms(2,3) by (simp add: started_def)
  ultimately show ?thesis by (auto simp: Reader_init_def split: sum.splits)
qed

lemma boot_answers:
  assumes "directory env ips" and "ip \<in> set ips" and "started env ips dk order B" and "serving_disk dk"
    and "stripped d" and "lower d = d" and "d \<noteq> []" and "hd d \<in> selfRecords (st (B ip))"
    and "last_record (d, ''A'') (shard_lines dk (hd d)) = Some v"
  shows "recordResponse d ''A'' (st (B ip)) = v"
proof -
  let ?s = "booted_state env ips ip"
  have b: "selfRecords (st (B ip)) = selfRecords ?s" "Reader_init (order ip) dk ?s = Inr (st (B ip))"
    using boot_eq [OF assms(1-3)] by auto
  have "selfRecords ?s \<subseteq> set ALPHABET"
    by (auto simp: booted_state_def dest: subsetD [OF updateRecordSet_letters])
  then have "\<forall>c \<in> selfRecords ?s. read_fault dk (shard_path c) = None \<and> clean_shard dk c"
    using assms(4) by (auto simp: serving_disk_def)
  moreover have "distinct (order ip)" "set (order ip) = selfRecords ?s"
    using assms(2,3) by (auto simp: started_def)
  ultimately have "\<exists>s'. Reader_init (order ip) dk ?s = Inr s' \<and> recordResponse d ''A'' s' = v"
    using reader_loads [of "order ip" ?s dk d] assms(5-9) b(1) by auto
  then show ?thesis using b(2) by auto
qed

lemma booted_beat:
  assumes "directory env ips" and "started env ips dk order B" and "greatest ips g"
    and "ip \<in> set ips" and "ip \<noteq> g" and "beats_from ips B g beat" and "\<forall>k \<le> length ips. printable (int k)"
  shows "st (beatHandler now (beat ip) (B ip)) = (st (B ip))\<lparr>leaderIp := g\<rparr>
    \<and> \<not> leader (rf (beatHandler now (beat ip) (B ip)))"
proof -
  have d: "distinct ips" and g: "g \<in> set ips" using assms(1,3) unfolding directory_def greatest_def by blast+
  obtain a b where ab: "IPv4Address ip = Some a" "IPv4Address g = Some b" "a < b"
    using assms(3-5) by (auto simp: greatest_def)
  have s: "sees ips (st (B ip))" "leaderIp (st (B ip)) = ip" "selfIp (st (B ip)) = ip"
    "sees ips (st (B g))" "selfIp (st (B g)) = g" "net (B g) = []"
    using boot_eq [OF assms(1,4,2)] boot_eq [OF assms(1) g assms(2)] booted_state_settled(1) [OF d] booted_state_settled(2,3) assms(4) g
    by (auto simp: settled_def sees_def)
  have r: "1 \<le> rank (st (B ip))" "rank (st (B ip)) \<le> int (length ips)" using sees_rank [OF s(1)] by simp_all
  have "beat ip = beat_msg g (rank (st (B ip))) (int (length ips))"
    using assms(4-6) s d by (auto simp: beats_from_def beats_of_def sees_def rank_of_def)
  moreover have "printable (rank (st (B ip)))" "printable (int (length ips))"
    using assms(7) [rule_format, of "nat (rank (st (B ip)))"] assms(7) r by auto
  ultimately have "parse_beat (beat ip) = Some (g, rank (st (B ip)), int (length ips))"
    using parse_beat_msg [OF ab(2)] by simp
  then have "beatHandler now (beat ip) (B ip) = after_beat now g b a (rank (st (B ip))) (int (length ips)) (B ip)"
    using ab s(2) by (intro beatHandler_parsed) simp_all
  moreover have "g \<in> set (dkeys (nodes (st (B ip))))" using s(1) g by (simp add: sees_def)
  ultimately show ?thesis
    using s(1) ab(3) by (simp add: after_beat_def Let_def register_sender_def sees_def)
qed

lemma booted_cluster:
  assumes "directory env ips" and "started env ips dk order B" and "greatest ips g"
    and "beats_from ips B g beat" and "\<forall>k \<le> length ips. printable (int k)"
  shows "cluster ips (told now g beat B) g"
    and "ip \<in> set ips \<Longrightarrow> selfRecords (st (told now g beat B ip)) = selfRecords (st (B ip))"
    and "ip \<in> set ips \<Longrightarrow> recordResponse d t (st (told now g beat B ip)) = recordResponse d t (st (B ip))"
proof -
  have d: "distinct ips" and g: "g \<in> set ips" using assms(1,3) unfolding directory_def greatest_def by blast+
  have B: "settled ips (st (B ip))" "selfIp (st (B ip)) = ip" "leader (rf (B ip))" if "ip \<in> set ips" for ip
    using boot_eq [OF assms(1) that assms(2)] booted_state_settled(1) [OF d] booted_state_settled(2) that by (auto simp: raft_init_def)
  have told: "st (told now g beat B ip) = (if ip = g then st (B ip) else (st (B ip))\<lparr>leaderIp := g\<rparr>)
      \<and> (leader (rf (told now g beat B ip)) \<longleftrightarrow> ip = g)" if "ip \<in> set ips" for ip
    using booted_beat [OF assms(1-3) that _ assms(4,5), of now] B(3) [OF that] by (auto simp: told_def)
  show "cluster ips (told now g beat B) g"
    using told B g by (simp add: cluster_def)
  show "selfRecords (st (told now g beat B ip)) = selfRecords (st (B ip))" if "ip \<in> set ips" for ip
    using told [OF that] by simp
  show "recordResponse d t (st (told now g beat B ip)) = recordResponse d t (st (B ip))" if "ip \<in> set ips" for ip
    using told [OF that] by (simp add: recordResponse_def split: list.split)
qed

text \<open>The member that owns a name, and the record it answers.\<close>

lemma booted_owner:
  assumes "directory env ips" and "started env ips dk order B" and "greatest ips g"
    and "beats_from ips B g beat" and "\<forall>k \<le> length ips. printable (int k)" and "serving_disk dk"
    and "stripped d" and "lower d = d" and "d \<noteq> []" and "hd d \<in> set ALPHABET"
    and "last_record (d, ''A'') (shard_lines dk (hd d)) = Some v"
  obtains owner where "owner \<in> set ips" "lower_char (hd d) \<in> selfRecords (st (told now g beat B owner))"
    "recordResponse d ''A'' (st (told now g beat B owner)) = v"
proof -
  have "sharded (set ips) (\<lambda>ip. selfRecords (st (told now g beat B ip)))"
    using booted_cluster(1) [OF assms(1-5), of now] by (intro cluster_sharded) (auto simp: cluster_def)
  then obtain owner where o: "owner \<in> set ips" "hd d \<in> selfRecords (st (told now g beat B owner))"
    using sharded.owner_unique assms(10) by blast
  then have "recordResponse d ''A'' (st (B owner)) = v"
    using boot_answers [OF assms(1) o(1) assms(2,6-9) _ assms(11)] booted_cluster(2) [OF assms(1-5) o(1)] by simp
  moreover have "lower_char (hd d) = hd d" using assms(8,9) by (cases d) (simp_all add: lower_def)
  ultimately show thesis using that [of owner] o booted_cluster(3) [OF assms(1-5) o(1)] by simp
qed

lemma letter_not_peer: "hd d \<in> set ALPHABET \<Longrightarrow> \<not> startswith d ''PEER:''"
  by (cases d) (auto simp: startswith_def ALPHABET_def)

lemma started_answers:
  assumes "directory env ips" and "started env ips dk order B" and "greatest ips g"
    and "beats_from ips B g beat" and "\<forall>k \<le> length ips. printable (int k)" and "serving_disk dk"
    and "stripped d" and "lower d = d" and "d \<noteq> []" and "hd d \<in> set ALPHABET"
    and "last_record (d, ''A'') (shard_lines dk (hd d)) = Some v" and "reply_ok v"
    and "connected ips (told now g beat B) g r d" and "m \<in> set ips"
  shows "handle_read [(r, Recv (d @ [NL]) True)] (told now g beat B m) = ([v @ [NL]], told now g beat B m)"
proof -
  obtain owner where "owner \<in> set ips" "lower_char (hd d) \<in> selfRecords (st (told now g beat B owner))"
    "recordResponse d ''A'' (st (told now g beat B owner)) = v"
    using booted_owner [OF assms(1-11)] by blast
  then show ?thesis
    using cluster_answers [OF booted_cluster(1) [OF assms(1-5)] assms(13,7,9) letter_not_peer [OF assms(10)]]
      assms(12,14) by simp
qed

text \<open>
  C1: a started cluster serves its record files. Nodes that start from a common directory of
  distinct addresses, over readable files each with domains of its letter only, and hear one
  heartbeat of the member with the greatest address, answer any client: whichever member is
  asked for a trimmed lower-case name, the reply is the address on the last line stored for the
  name in the file of its first letter, and the member asked is unchanged.
\<close>

theorem started_cluster_serves_files:
  assumes "directory env ips" and "started env ips dk order B" and "greatest ips g"
    and "beats_from ips B g beat" and "\<forall>k \<le> length ips. printable (int k)" and "serving_disk dk"
    and "stripped d" and "lower d = d" and "d \<noteq> []" and "hd d \<in> set ALPHABET"
    and "last_record (d, ''A'') (shard_lines dk (hd d)) = Some v" and "reply_ok v"
    and "connected ips (told now g beat B) g r d" and "m \<in> set ips"
  shows "handle_read [(r, Recv (d @ [NL]) True)] (told now g beat B m) = ([v @ [NL]], told now g beat B m)"
  using assms by (rule started_answers)

text \<open>Such nodes do start, and such a network exists.\<close>

definition shard_order :: "string list \<Rightarrow> string \<Rightarrow> char list" where
  "shard_order ips ip = shard_slice (rank_of ip (number_from 1 ips)) (int (length ips))"

definition boot_all :: "boot_env \<Rightarrow> string list \<Rightarrow> disk \<Rightarrow> string \<Rightarrow> node" where
  "boot_all env ips dk ip = projr (boot (env\<lparr>advertised_ip := ip\<rparr>) 0 (shard_order ips ip) dk)"

lemma boot_all_started:
  assumes "directory env ips" and "serving_disk dk"
  shows "started env ips dk (shard_order ips) (boot_all env ips dk)"
  unfolding started_def
proof
  fix ip assume ip: "ip \<in> set ips"
  let ?s = "booted_state env ips ip"
  have d: "distinct ips" using assms(1) unfolding directory_def by blast
  have "settled ips ?s" "rank ?s = rank_of ip (number_from 1 ips)"
    using booted_state_settled(1) [OF d ip, of env] booted_state_settled(2) [of env ips ip] ip
    by (auto simp: settled_def sees_def)
  then have o: "set (shard_order ips ip) = selfRecords ?s" by (simp add: settled_def shard_order_def)
  have b: "1 \<le> rank_of ip (number_from 1 ips)" "rank_of ip (number_from 1 ips) \<le> int (length ips)"
    using rank_of_number_from_bounds [OF ip, of 1] by simp_all
  have dist: "distinct (shard_order ips ip)" unfolding shard_order_def shard_slice_eq [OF b] by simp
  have "set (shard_order ips ip) \<subseteq> set ALPHABET" using shard_slice_subset [OF b] by (simp add: shard_order_def)
  then obtain m where "load_shards dk (shard_order ips ip) Map.empty = Inr m"
    using load_shards_eq [of "shard_order ips ip" dk Map.empty] dist assms(2) by (auto simp: serving_disk_def subset_iff)
  moreover have "States_init (env\<lparr>advertised_ip := ip\<rparr>) = Inr ?s"
    using assms(1) unfolding directory_def by (intro States_init_eq) blast+
  ultimately have "\<exists>n. boot (env\<lparr>advertised_ip := ip\<rparr>) 0 (shard_order ips ip) dk = Inr n"
    by (simp add: boot_def Reader_init_def)
  then show "distinct (shard_order ips ip) \<and> set (shard_order ips ip) = selfRecords ?s
      \<and> boot (env\<lparr>advertised_ip := ip\<rparr>) 0 (shard_order ips ip) dk = Inr (boot_all env ips dk ip)"
    using dist o by (auto simp: boot_all_def)
qed

lemma beats_exist:
  assumes "directory env ips" and "started env ips dk order B" and "g \<in> set ips"
  shows "\<exists>beat. beats_from ips B g beat"
proof -
  have d: "distinct ips" using assms(1) unfolding directory_def by blast
  have s: "sees ips (st (B g))" "selfIp (st (B g)) = g"
    using boot_eq [OF assms(1,3,2)] booted_state_settled(1) [OF d assms(3)] booted_state_settled(2)
    by (auto simp: settled_def sees_def)
  have "\<exists>beat. (ip, 7001, beat) \<in> set (net (sendBeat (B g)))" if ip: "ip \<in> set ips" "ip \<noteq> g" for ip
  proof -
    obtain k where "(ip, k) \<in> set (nodes (st (B g)))"
      using ip(1) s(1) fst_set_number_from [of 1 ips] by (metis imageE prod.collapse sees_def)
    then have "(ip, 7001, beat_msg g k (lastRank (st (B g)))) \<in> set (beats_of (st (B g)))"
      using ip(2) s(2) unfolding beats_of_def by (auto intro!: rev_image_eqI [of "(ip, k)"])
    then show ?thesis by auto
  qed
  then show ?thesis unfolding beats_from_def by metis
qed

lemma example_directory: "directory example_env [''10.0.0.7'', ''10.0.0.3'']"
proof -
  have files: "ip_files (listdir example_env) = [''self_ip_node1.txt'', ''self_ip_node2.txt'']"
    by code_simp
  have "[''10.0.0.7'', ''10.0.0.3''] = file_ips (read_file example_env) (ip_files (listdir example_env))"
    unfolding files by code_simp
  moreover have "distinct [''10.0.0.7'', ''10.0.0.3'']" "nodesTxtOk example_env" by (simp_all add: example_env_def)
  moreover have "\<forall>fn \<in> set (ip_files (listdir example_env)). \<forall>e. read_file example_env fn = Inl e \<longrightarrow> is_OSError e"
    unfolding files by (simp add: example_env_def)
  ultimately show ?thesis unfolding directory_def by blast
qed

lemma example_serving: "serving_disk example_disk"
proof -
  have l: "line_record (''a.com,A,1.1.1.1'' @ [NL]) = Some ((''a.com'', ''A''), ''1.1.1.1'')"
    "line_record (''a.com,A,2.2.2.2'' @ [NL]) = Some ((''a.com'', ''A''), ''2.2.2.2'')"
    by code_simp+
  have "clean_shard example_disk c" for c
    using l by (cases "c = CHR ''a''") (simp_all add: clean_shard_def example_lines)
  then show ?thesis by (simp add: serving_disk_def) (simp add: example_disk_def)
qed

abbreviation example_ips :: "string list" where
  "example_ips \<equiv> [''10.0.0.7'', ''10.0.0.3'']"

lemma example_greatest: "greatest example_ips ''10.0.0.7''"
  using example_addresses by (simp add: greatest_def less_ipv4_def)

lemma example_ranks: "\<forall>k \<le> length example_ips. printable (int k)"
proof -
  have "printable 0" "printable 1" "printable 2" by code_simp+
  then show ?thesis by (auto simp: le_Suc_eq)
qed

lemma example_a_name:
  "stripped ''a.com''" "lower ''a.com'' = ''a.com''" "hd ''a.com'' \<in> set ALPHABET" "reply_ok ''2.2.2.2''"
  by (code_simp, code_simp, code_simp, simp add: reply_ok_def, code_simp)

lemma example_a_record: "last_record (''a.com'', ''A'') (shard_lines example_disk (hd ''a.com'')) = Some ''2.2.2.2''"
proof -
  have "last_record (''a.com'', ''A'') [''a.com,A,1.1.1.1'' @ [NL], ''a.com,A,2.2.2.2'' @ [NL]] = Some ''2.2.2.2''"
    by code_simp
  then show ?thesis by (simp add: example_lines)
qed

lemma example_network:
  obtains r beat where "beats_from example_ips (boot_all example_env example_ips example_disk) ''10.0.0.7'' beat"
    "connected example_ips (told 1 ''10.0.0.7'' beat (boot_all example_env example_ips example_disk)) ''10.0.0.7'' r ''a.com''"
proof -
  note s = boot_all_started [OF example_directory example_serving]
  obtain beat where beat: "beats_from example_ips (boot_all example_env example_ips example_disk) ''10.0.0.7'' beat"
    using beats_exist [OF example_directory s] by auto
  show thesis
    using that [OF beat] example_a_name letter_not_peer [of "''a.com''"]
      network_exists [OF booted_cluster(1) [OF example_directory s example_greatest beat example_ranks, of 1], of "''a.com''"]
    by auto
qed

theorem started_cluster_serves_files_witness:
  "\<exists>r beat. handle_read [(r, Recv (''a.com'' @ [NL]) True)]
      (told 1 ''10.0.0.7'' beat (boot_all example_env [''10.0.0.7'', ''10.0.0.3''] example_disk) ''10.0.0.3'') =
    ([''2.2.2.2'' @ [NL]],
      told 1 ''10.0.0.7'' beat (boot_all example_env [''10.0.0.7'', ''10.0.0.3''] example_disk) ''10.0.0.3'')"
proof -
  note s = boot_all_started [OF example_directory example_serving]
  obtain r beat where n: "beats_from example_ips (boot_all example_env example_ips example_disk) ''10.0.0.7'' beat"
    "connected example_ips (told 1 ''10.0.0.7'' beat (boot_all example_env example_ips example_disk)) ''10.0.0.7'' r ''a.com''"
    by (rule example_network)
  from started_cluster_serves_files [OF example_directory s example_greatest n(1) example_ranks example_serving
      example_a_name(1,2) _ example_a_name(3) example_a_record example_a_name(4) n(2), of "''10.0.0.3''"]
  show ?thesis by auto
qed

end
