(* ===== verification/Sessions.thy ===== *)
theory Sessions
  imports Py_Prelude
begin

text \<open>
  Servers with many connections at once. A server is given by what it does with one line of one
  connection (\<open>line_handler\<close>): the replies it writes, whether the connection stays open, and the
  new shared state. The first argument is what the handler reads from its surroundings at that
  moment (the clock, the answers of other processes). The step relation accepts connections at
  any time and lets any open connection make progress, so it has every interleaving of the
  clients at the granularity of lines: exactly what the single-threaded event loop of the cache
  servers can do.

  Proved once here: every run is equivalent to handling, one after the other, the lines in the
  order in which they were taken up (\<open>linear\<close>), each connection sees its own lines in order and
  gets the replies to them, and what every line preserves holds in every run (the locale
  \<open>shared_server\<close>).
\<close>

section \<open>One connection\<close>

type_synonym ('x, 's) line_handler = "'x \<Rightarrow> conn_event \<Rightarrow> 's \<Rightarrow> (string list \<times> bool) \<times> 's"

fun serve_conn :: "('x, 's) line_handler \<Rightarrow> ('x \<times> conn_event) list \<Rightarrow> 's \<Rightarrow> string list \<times> 's" where
  "serve_conn h [] s = ([], s)"
| "serve_conn h ((x, e) # es) s =
     (case h x e s of
        ((rs, go), s') \<Rightarrow>
          if go then (case serve_conn h es s' of (rs', s'') \<Rightarrow> (rs @ rs', s'')) else (rs, s'))"

section \<open>Many connections\<close>

record session =
  input :: "conn_event list"
  unread :: "conn_event list"
  replies :: "string list"
  is_open :: bool

type_synonym 'x taken = "nat \<times> 'x \<times> conn_event"

record ('x, 's) conf =
  shared :: 's
  sessions :: "session list"
  trace :: "'x taken list"

definition new_session :: "conn_event list \<Rightarrow> session" where
  "new_session es = \<lparr>input = es, unread = es, replies = [], is_open = True\<rparr>"

definition advance :: "conn_event list \<Rightarrow> string list \<Rightarrow> bool \<Rightarrow> session \<Rightarrow> session" where
  "advance es rs go w = w\<lparr>unread := es, replies := replies w @ rs, is_open := go\<rparr>"

inductive reaches :: "('x, 's) line_handler \<Rightarrow> 's \<Rightarrow> ('x, 's) conf \<Rightarrow> bool" for h s0 where
  start: "reaches h s0 \<lparr>shared = s0, sessions = [], trace = []\<rparr>"
| accept: "reaches h s0 c \<Longrightarrow> reaches h s0 (c\<lparr>sessions := sessions c @ [new_session es]\<rparr>)"
| line: "\<lbrakk>reaches h s0 c; i < length (sessions c); is_open (sessions c ! i);
    unread (sessions c ! i) = e # es; h x e (shared c) = ((rs, go), s')\<rbrakk>
    \<Longrightarrow> reaches h s0 (c\<lparr>shared := s', sessions := (sessions c)[i := advance es rs go (sessions c ! i)],
          trace := trace c @ [(i, x, e)]\<rparr>)"

text \<open>The line rule with the new configuration as an equation, and the run of a first line.\<close>

lemma reaches_lineI:
  assumes "reaches h s0 c" and "h x e (shared c) = ((rs, go), s')" and "i < length (sessions c)"
    and "is_open (sessions c ! i)" and "unread (sessions c ! i) = e # es"
    and "c' = c\<lparr>shared := s', sessions := (sessions c)[i := advance es rs go (sessions c ! i)],
          trace := trace c @ [(i, x, e)]\<rparr>"
  shows "reaches h s0 c'"
  using assms reaches.line by fastforce

lemma reaches_first:
  assumes "h x e s0 = ((rs, go), s')"
  shows "reaches h s0 \<lparr>shared = s', sessions = [\<lparr>input = e # es, unread = es, replies = rs, is_open = go\<rparr>],
    trace = [(0, x, e)]\<rparr>"
  by (rule reaches_lineI [OF reaches.accept [OF reaches.start, of h s0 "e # es"], where i = 0])
    (use assms in \<open>simp_all add: new_session_def advance_def\<close>)

section \<open>Runs are linear\<close>

text \<open>Handling the lines of a trace one after the other.\<close>

definition run_trace :: "('x, 's) line_handler \<Rightarrow> 'x taken list \<Rightarrow> 's \<Rightarrow> 's" where
  "run_trace h tr s = fold (\<lambda>(i, x, e) s. snd (h x e s)) tr s"

fun replies_to :: "('x, 's) line_handler \<Rightarrow> nat \<Rightarrow> 'x taken list \<Rightarrow> 's \<Rightarrow> string list" where
  "replies_to h i [] s = []"
| "replies_to h i ((j, x, e) # tr) s =
     (if j = i then fst (fst (h x e s)) else []) @ replies_to h i tr (snd (h x e s))"

definition events_of :: "nat \<Rightarrow> 'x taken list \<Rightarrow> conn_event list" where
  "events_of i tr = map (\<lambda>(j, x, e). e) (filter (\<lambda>(j, x, e). j = i) tr)"

lemma run_trace_append: "run_trace h (tr @ tr') s = run_trace h tr' (run_trace h tr s)"
  by (simp add: run_trace_def)

lemma run_trace_single [simp]: "run_trace h [(i, x, e)] s = snd (h x e s)" "run_trace h [] s = s"
  by (simp_all add: run_trace_def)

lemma replies_to_append:
  "replies_to h i (tr @ tr') s = replies_to h i tr s @ replies_to h i tr' (run_trace h tr s)"
  by (induction h i tr s rule: replies_to.induct) (simp_all add: run_trace_def)

lemma events_of_append [simp]:
  "events_of i (tr @ [(j, x, e)]) = events_of i tr @ (if j = i then [e] else [])"
  by (simp add: events_of_def)

lemma trace_indices: "reaches h s0 c \<Longrightarrow> \<forall>(i, x, e) \<in> set (trace c). i < length (sessions c)"
  by (induction rule: reaches.induct) auto

lemma replies_to_none: "\<forall>(j, x, e) \<in> set tr. j \<noteq> i \<Longrightarrow> replies_to h i tr s = []"
  by (induction h i tr s rule: replies_to.induct) auto

lemma fresh_index:
  assumes "reaches h s0 c" and "length (sessions c) \<le> i"
  shows "events_of i (trace c) = []" "replies_to h i (trace c) s = []"
proof -
  have n: "\<forall>(j, x, e) \<in> set (trace c). j \<noteq> i" using trace_indices [OF assms(1)] assms(2) by fastforce
  then show "events_of i (trace c) = []" by (auto simp: events_of_def filter_empty_conv)
  from n show "replies_to h i (trace c) s = []" by (rule replies_to_none)
qed

text \<open>What a connection has seen and got, in terms of the trace.\<close>

definition session_linear :: "('x, 's) line_handler \<Rightarrow> 's \<Rightarrow> 'x taken list \<Rightarrow> nat \<Rightarrow> session \<Rightarrow> bool" where
  "session_linear h s0 tr i w \<longleftrightarrow>
     input w = events_of i tr @ unread w \<and> replies w = replies_to h i tr s0"

lemma linear:
  assumes "reaches h s0 c"
  shows "shared c = run_trace h (trace c) s0
    \<and> (\<forall>i < length (sessions c). session_linear h s0 (trace c) i (sessions c ! i))"
  using assms
proof (induction rule: reaches.induct)
  case start
  then show ?case by simp
next
  case (accept c es)
  then show ?case
    using fresh_index(1) [OF accept.hyps, of "length (sessions c)"] fresh_index(2) [OF accept.hyps, of "length (sessions c)" s0]
    by (auto simp: nth_append less_Suc_eq session_linear_def new_session_def)
next
  case (line c i e es x rs go s')
  let ?tr = "trace c @ [(i, x, e)]"
  have "session_linear h s0 ?tr j ((sessions c)[i := advance es rs go (sessions c ! i)] ! j)"
    if j: "j < length (sessions c)" for j
  proof (cases "j = i")
    case True
    then show ?thesis using line j
      by (simp add: session_linear_def advance_def replies_to_append)
  next
    case False
    then show ?thesis using line j by (simp add: session_linear_def replies_to_append)
  qed
  then show ?case using line by (simp add: run_trace_append)
qed

section \<open>Invariants\<close>

locale shared_server =
  fixes h :: "('x, 's) line_handler" and inv :: "'s \<Rightarrow> bool"
  assumes line_keeps: "inv s \<Longrightarrow> inv (snd (h x e s))"
begin

lemma trace_keeps: "inv s \<Longrightarrow> inv (run_trace h tr s)"
  by (induction tr arbitrary: s) (auto simp: run_trace_def line_keeps)

lemma reaches_inv: "reaches h s0 c \<Longrightarrow> inv s0 \<Longrightarrow> inv (shared c)"
  using linear [of h s0 c] by (simp add: trace_keeps)

end

end
