(* ===== verification/Node_Threads.thy ===== *)
theory Node_Threads
  imports Node_Main Sessions
begin

text \<open>
  All threads of a node on its shared objects (\<^verbatim>\<open>Server.start\<close> and \<^verbatim>\<open>Server._serve\<close> of
  \<^verbatim>\<open>data_plane/server.py\<close>, the heart thread of \<^verbatim>\<open>_raft.py\<close> and the refresh thread of
  \<^verbatim>\<open>_batch.py\<close>). A step is one iteration of the loop of one thread: a line on a connection of
  the read, write or heartbeat port, a round of the heart thread, or a line of the refresh pass,
  with whatever the thread reads from outside at that moment. The steps may come in any order
  and number, which covers any number of connections and any input on them. Every iteration runs
  to its end before the next one of any thread: the code takes no lock, so this is a restriction
  of the schedules. Writes whose statements mix are the subject of \<open>Write_Threads\<close> and
  \<open>Write_Races\<close>, where the parts on files and packets of the invariant below still hold.
\<close>

section \<open>Loop bodies of the connection handlers\<close>

definition read_line :: "(remote, node) line_handler" where
  "read_line r e n =
     (case e of
        RecvError _ \<Rightarrow> (([], False), n)
      | Recv data ok \<Rightarrow>
          if data = [] then (([], False), n)
          else (case (if strip data = [] then (''N/A'', n) else read_request r (strip data) n) of
                  (rec, n') \<Rightarrow> if ok then (([rec @ [NL]], True), n') else (([], False), n')))"

definition write_line :: "(unit, node) line_handler" where
  "write_line u e n =
     (case e of
        RecvError _ \<Rightarrow> (([], False), n)
      | Recv data ok \<Rightarrow>
          if data = [] then (([], False), n)
          else if strip data = [] then (([], True), n)
          else (case writeHandler (strip data) n of
                  (Raised _, n') \<Rightarrow> (([], False), n')
                | (Done, n') \<Rightarrow> if ok then (([''OK'' @ [NL]], True), n') else (([], False), n')))"

definition sync_line :: "(time, node) line_handler" where
  "sync_line now e n =
     (case e of
        RecvError _ \<Rightarrow> (([], False), n)
      | Recv data ok \<Rightarrow>
          if data = [] then (([], False), n)
          else if strip data = [] then (([], True), n)
          else (let n' = beatHandler now (strip data) n
                in if ok then (([''OK'' @ [NL]], True), n') else (([], False), n')))"

text \<open>They are the bodies of the handlers' loops.\<close>

lemma handle_read_lines: "handle_read es n = serve_conn read_line es n"
  by (induction es n rule: handle_read.induct) (auto simp: read_line_def Let_def split: prod.splits)

lemma handle_write_lines: "handle_write es n = serve_conn write_line (map (\<lambda>e. ((), e)) es) n"
  by (induction es n rule: handle_write.induct)
    (auto simp: write_line_def Let_def split: prod.splits outcome.splits)

lemma handle_sync_lines: "handle_sync es (n :: node) = serve_conn sync_line es n"
  by (induction es n rule: handle_sync.induct) (auto simp: sync_line_def Let_def split: prod.splits)

section \<open>Steps of a node\<close>

datatype thread_step =
    ReadLine remote conn_event
  | WriteLine conn_event
  | SyncLine time conn_event
  | HeartRound time
  | RefreshLine "string \<Rightarrow> string option" string

fun node_step :: "thread_step \<Rightarrow> time \<times> node \<Rightarrow> time \<times> node" where
  "node_step (ReadLine r e) (nxt, n) = (nxt, snd (read_line r e n))"
| "node_step (WriteLine e) (nxt, n) = (nxt, snd (write_line () e n))"
| "node_step (SyncLine now e) (nxt, n) = (nxt, snd (sync_line now e n))"
| "node_step (HeartRound now) (nxt, n) = raftHeart_round now (nxt, n)"
| "node_step (RefreshLine live l) (nxt, n) = (nxt, process_line live l n)"

inductive node_runs :: "time \<times> node \<Rightarrow> time \<times> node \<Rightarrow> bool" for c0 where
  begin_run: "node_runs c0 c0"
| one_step: "node_runs c0 c \<Longrightarrow> node_runs c0 (node_step a c)"

lemma node_runs_keep:
  assumes "node_runs c0 c" and "P (snd c0)" and "\<And>a nxt n. P n \<Longrightarrow> P (snd (node_step a (nxt, n)))"
  shows "P (snd c)"
  using assms(1)
proof (induction rule: node_runs.induct)
  case (one_step c a)
  then show ?case using assms(3) [of "snd c" a "fst c"] by simp
qed (rule assms(2))

section \<open>The invariant\<close>

text \<open>The membership part: addresses, ranks and leadership.\<close>

definition view_inv :: "states \<Rightarrow> raft \<Rightarrow> bool" where
  "view_inv s r \<longleftrightarrow> distinct (dkeys (nodes s)) \<and> selfRecords s \<subseteq> set ALPHABET
     \<and> 0 \<le> nodeCount s \<and> 0 \<le> followerCount r
     \<and> (\<exists>a b. IPv4Address (selfIp s) = Some a \<and> IPv4Address (leaderIp s) = Some b \<and> a \<le> b)
     \<and> (leader r \<longleftrightarrow> leaderIp s = selfIp s)"

text \<open>
  The log: every number handed out so far has an entry (from the first number of more than 4300
  digits on, \<^verbatim>\<open>str\<close> raises and no write gets an entry), and counted acknowledgements are positive.
\<close>

definition log_inv :: "raft \<Rightarrow> writer \<Rightarrow> bool" where
  "log_inv r w \<longleftrightarrow> 0 \<le> currLogNum r \<and> (\<forall>k. 1 \<le> k \<and> k \<le> currLogNum r \<and> printable k \<longrightarrow> logs w (str_int k) \<noteq> None)
     \<and> (\<forall>num k. logAck w num = Some k \<longrightarrow> 1 \<le> k)"

text \<open>The shard files: each is empty or ends in a line feed.\<close>

definition terminated :: "string \<Rightarrow> bool" where
  "terminated content \<longleftrightarrow> content = [] \<or> last content = NL"

definition disk_inv :: "disk \<Rightarrow> bool" where
  "disk_inv dk \<longleftrightarrow> (\<forall>c content. files dk (shard_path c) = Some content \<longrightarrow> terminated content)"

text \<open>The packets: to the heartbeat or the write port, and complete lines.\<close>

definition net_inv :: "packet list \<Rightarrow> bool" where
  "net_inv ps \<longleftrightarrow> (\<forall>(ip, port, msg) \<in> set ps. (port = 7001 \<or> port = 9000) \<and> msg \<noteq> [] \<and> last msg = NL)"

definition node_ok :: "node \<Rightarrow> bool" where
  "node_ok n \<longleftrightarrow> view_inv (st n) (rf n) \<and> log_inv (rf n) (wr n) \<and> disk_inv (dsk n) \<and> net_inv (net n)"

section \<open>Files\<close>

lemma univ_nl_last: "s \<noteq> [] \<Longrightarrow> last s = NL \<Longrightarrow> univ_nl s \<noteq> [] \<and> last (univ_nl s) = NL"
  by (induction s rule: univ_nl.induct) (auto split: if_splits)

lemma keep_lines_last: "s = [] \<or> last s = NL \<Longrightarrow> l \<in> set (keep_lines s) \<Longrightarrow> last l = NL"
proof (induction s arbitrary: l)
  case (Cons c s)
  show ?case
  proof (cases "c = NL")
    case True
    then show ?thesis using Cons by (cases "s = []") auto
  next
    case False
    then have "s \<noteq> []" "last s = NL" using Cons.prems(1) by (auto split: if_splits)
    then have "keep_lines s \<noteq> []" using concat_keep_lines [of s] by (metis concat.simps(1))
    then obtain k ks where k: "keep_lines s = k # ks" by (cases "keep_lines s") auto
    then have "k \<noteq> []" using keep_lines_parts [of k s] by simp
    then show ?thesis using False k Cons.prems(2) Cons.IH [of l] Cons.IH [of k] \<open>last s = NL\<close> by auto
  qed
qed simp

lemma file_lines_last:
  "terminated content \<Longrightarrow> l \<in> set (file_lines content) \<Longrightarrow> l \<noteq> [] \<and> last l = NL"
  using keep_lines_last [of "univ_nl content" l] univ_nl_last [of content] keep_lines_parts [of l "univ_nl content"]
  by (cases "content = []") (auto simp: file_lines_def terminated_def)

lemma concat_last: "\<forall>l \<in> set ls. l \<noteq> [] \<and> last l = NL \<Longrightarrow> terminated (concat ls)"
  by (induction ls rule: rev_induct) (auto simp: terminated_def)

lemma rewrite_last:
  "\<forall>l \<in> set ls. l \<noteq> [] \<and> last l = NL \<Longrightarrow> \<forall>l \<in> set (rewrite_lines d u ls). l \<noteq> [] \<and> last l = NL"
  using rewrite_lines_set [of d u ls] by auto

lemma open_write_inv:
  "disk_inv dk \<Longrightarrow> terminated content \<Longrightarrow> open_write path content dk = Inr dk' \<Longrightarrow> disk_inv dk'"
  by (auto simp: disk_inv_def open_write_def split: option.splits if_splits)

lemma open_read_lines:
  assumes "disk_inv dk" and "open_read (shard_path c) dk = Inr content"
  shows "\<forall>l \<in> set (file_lines content). l \<noteq> [] \<and> last l = NL"
proof -
  have "files dk (shard_path c) = Some content"
    using assms(2) by (auto simp: open_read_def split: option.splits)
  then have "terminated content" using assms(1) by (simp add: disk_inv_def)
  then show ?thesis using file_lines_last by blast
qed

lemma commit_inv:
  assumes "disk_inv (dsk n)"
  shows "disk_inv (dsk (snd (commitHandler num n)))"
proof -
  have "disk_inv dk'" if "open_read (shard_path c) (dsk n) = Inr content"
    "open_write (shard_path c) (concat (rewrite_lines d u (file_lines content))) (dsk n) = Inr dk'" for c content d u dk'
    using open_write_inv [OF assms _ that(2)] concat_last [OF rewrite_last [OF open_read_lines [OF assms that(1)]]] by blast
  moreover have "disk_inv dk'" if "open_write (shard_path c) (concat (rewrite_lines d u [])) (dsk n) = Inr dk'" for c d u dk'
    using open_write_inv [OF assms _ that] concat_last [OF rewrite_last [of "[]"]] by auto
  ultimately show ?thesis
    using assms by (auto simp: commitHandler_def Let_def split: option.split list.split sum.split if_splits)
qed

lemma commit_view: "\<exists>m. st (snd (commitHandler num n)) = (st n)\<lparr>records := m\<rparr>" "wr (snd (commitHandler num n)) = wr n"
proof -
  have "\<exists>m. st n = (st n)\<lparr>records := m\<rparr>" by (rule exI [of _ "records (st n)"]) simp
  then show "\<exists>m. st (snd (commitHandler num n)) = (st n)\<lparr>records := m\<rparr>"
    by (auto simp: commitHandler_def Let_def split: option.split list.split sum.split)
  show "wr (snd (commitHandler num n)) = wr n"
    by (simp add: commitHandler_def Let_def split: option.split list.split sum.split)
qed

section \<open>Writes\<close>

lemma net_inv_append [simp]: "net_inv (ps @ qs) \<longleftrightarrow> net_inv ps \<and> net_inv qs"
  by (simp add: net_inv_def ball_Un)

lemma log_packets_inv: "net_inv (log_packets num update s)"
  by (auto simp: net_inv_def log_packets_def log_msg_def)

lemma view_inv_records [simp]: "view_inv (s\<lparr>records := m\<rparr>) r = view_inv s r"
  by (simp add: view_inv_def)

lemma view_inv_currLogNum [simp]: "view_inv s (r\<lparr>currLogNum := k\<rparr>) = view_inv s r"
  by (simp add: view_inv_def)

lemma log_inv_entry: "log_inv r w \<Longrightarrow> log_inv r (w\<lparr>logs := (logs w)(num \<mapsto> u)\<rparr>)"
  by (auto simp: log_inv_def)

lemma log_inv_raft_set [simp]: "log_inv r (w\<lparr>raft_set := b\<rparr>) = log_inv r w"
  by (simp add: log_inv_def)

lemma log_inv_next:
  assumes "log_inv r w"
  shows "log_inv (r\<lparr>currLogNum := currLogNum r + 1\<rparr>)
    (w\<lparr>logs := (logs w)(str_int (currLogNum r + 1) \<mapsto> u)\<rparr>)"
proof -
  have "logs w (str_int k) \<noteq> None \<or> k = currLogNum r + 1" if "1 \<le> k" "k \<le> currLogNum r + 1" "printable k" for k
    using assms that by (cases "k = currLogNum r + 1") (auto simp: log_inv_def)
  then show ?thesis using assms by (auto simp: log_inv_def)
qed

lemma commit_node_ok: "node_ok n \<Longrightarrow> node_ok (snd (commitHandler num n))"
  using commit_view [of num n] commit_keeps [of num n] commit_inv [of n num] by (auto simp: node_ok_def)

text \<open>A write with the next number, started by a message or by a name that nobody knew.\<close>

lemma write_next_inv:
  assumes "node_ok n" and "k = currLogNum (rf n) + 1" and "n1 = n\<lparr>rf := (rf n)\<lparr>currLogNum := k\<rparr>\<rparr>"
  shows "printable k \<Longrightarrow> node_ok (snd (writeStarter update (str_int k) n1))" and "\<not> printable k \<Longrightarrow> node_ok n1"
proof -
  let ?m = "n\<lparr>wr := (wr n)\<lparr>logs := (logs (wr n))(str_int k \<mapsto> update)\<rparr>, rf := (rf n)\<lparr>currLogNum := k\<rparr>\<rparr>"
  assume "printable k"
  moreover have "node_ok (?m\<lparr>net := net n @ log_packets (str_int k) update (st n)\<rparr>)"
    using assms log_inv_next [of "rf n" "wr n" update] by (simp add: node_ok_def log_packets_inv)
  ultimately show "node_ok (snd (writeStarter update (str_int k) n1))"
    using assms(3) by (simp add: writeStarter_eq commit_node_ok)
next
  assume "\<not> printable k"
  then have "x \<noteq> k" if "printable x" for x using that by blast
  then have "log_inv (rf n1) (wr n1)" using assms by (fastforce simp: node_ok_def log_inv_def)
  with assms show "node_ok n1" by (simp add: node_ok_def)
qed

lemma replicate_node_ok: "node_ok n \<Longrightarrow> node_ok (replicate_in num update n)"
  by (auto simp: replicate_in_def Let_def sendAck_def send_raw_def node_ok_def log_inv_entry net_inv_def
      split: list.split)

lemma ack_node_ok: "node_ok n \<Longrightarrow> node_ok (ackHandler num n)"
  by (fastforce simp: ackHandler_def Let_def node_ok_def log_inv_def split: option.splits if_splits)

lemma writeHandler_inv:
  assumes "node_ok n"
  shows "node_ok (snd (writeHandler query n))"
proof -
  let ?n = "n\<lparr>wr := (wr n)\<lparr>raft_set := True\<rparr>\<rparr>"
  have "node_ok ?n" using assms by (simp add: node_ok_def)
  then show ?thesis
    using write_next_inv [OF _ refl refl, of ?n] replicate_node_ok [of ?n] ack_node_ok [of ?n] commit_node_ok [of ?n]
    by (simp add: writeHandler_def Let_def next_num_def split: list.split)
qed

lemma newRecord_inv:
  assumes "node_ok n"
  shows "node_ok (snd (newRecord look domain n))"
proof -
  have e: "snd (case p of (Done, m) \<Rightarrow> (x, m) | (Raised e, m) \<Rightarrow> (y, m)) = snd p" for p :: "outcome \<times> node" and x y :: string
    by (simp split: prod.split outcome.split)
  show ?thesis
    using assms write_next_inv [OF assms refl refl] by (simp add: newRecord_def next_num_def Let_def e split: option.split)
qed

section \<open>Heartbeats\<close>

lemma register_view:
  "view_inv (st n) (rf n) \<Longrightarrow> view_inv (st (register_sender ip n)) (rf (register_sender ip n))"
  by (auto simp: view_inv_def register_sender_def Let_def dkeys_dset)

lemma updateRecordSet_view: "view_inv s r \<Longrightarrow> view_inv (updateRecordSet s) r"
  using updateRecordSet_letters [of s] by (simp add: view_inv_def)

lemma updateRank_view: "view_inv s r \<Longrightarrow> view_inv (updateRank k m s) r"
  unfolding updateRank_def by (rule updateRecordSet_view) (simp add: view_inv_def)

lemma follow_view:
  assumes "view_inv s r" and "IPv4Address ip = Some a" and "IPv4Address (leaderIp s) = Some b" and "a > b"
  shows "view_inv (s\<lparr>leaderIp := ip\<rparr>) (r\<lparr>leader := False\<rparr>)"
  using assms by (auto simp: view_inv_def)

lemma core_fields_kept:
  "wr (beatHandler now beat n) = wr (n :: node)" "dsk (beatHandler now beat n) = dsk n"
  "net (beatHandler now beat n) = net n" "currLogNum (rf (beatHandler now beat n)) = currLogNum (rf n)"
  by (auto simp: beatHandler_def Let_def register_sender_def split: option.split prod.split)

lemma beat_view:
  assumes "view_inv (st n) (rf n)"
  shows "view_inv (st (beatHandler now beat n)) (rf (beatHandler now beat n))"
proof -
  let ?n = "n\<lparr>rf := (rf n)\<lparr>last_beat_received := now\<rparr>\<rparr>"
  have n: "view_inv (st ?n) (rf ?n)" using assms by (simp add: view_inv_def)
  show ?thesis
  proof (cases "parse_beat beat")
    case None
    then show ?thesis using n by (simp add: beatHandler_def)
  next
    case (Some p)
    obtain ip r lr where p: "p = (ip, r, lr)" by (cases p)
    let ?m = "register_sender ip ?n"
    have m: "view_inv (st ?m) (rf ?m)" using register_view [OF n] .
    show ?thesis
    proof (cases "IPv4Address ip")
      case None
      then show ?thesis using Some p m by (simp add: beatHandler_def Let_def)
    next
      case ip: (Some a)
      obtain b where b: "IPv4Address (leaderIp (st ?m)) = Some b" using m by (auto simp: view_inv_def)
      have "view_inv (st m') (rf m') \<Longrightarrow> view_inv (st (m'\<lparr>st := updateRank r lr (st m')\<rparr>)) (rf m')" for m'
        by (simp add: updateRank_view)
      then show ?thesis
        using Some p ip b m follow_view [OF m ip b]
        by (simp add: beatHandler_def Let_def) (simp add: updateRank_view)
    qed
  qed
qed

lemma beat_node_ok: "node_ok n \<Longrightarrow> node_ok (beatHandler now beat n)"
  using beat_view [of n now beat] core_fields_kept [of now beat n] by (simp add: node_ok_def log_inv_def)

section \<open>The heart thread\<close>

lemma beats_inv: "net_inv (beats_of s)"
  by (auto simp: net_inv_def beats_of_def beat_msg_def)

lemma sendBeat_node_ok: "node_ok n \<Longrightarrow> node_ok (sendBeat n)"
  by (simp add: node_ok_def sendBeat_eq beats_inv view_inv_def log_inv_def)

lemma removeNode_view:
  assumes "view_inv s r"
  shows "view_inv (removeNode ip s) r"
proof (cases "ip \<in> set (dkeys (nodes s))")
  case True
  have d: "distinct (dkeys (ddel ip (nodes s)))" using assms by (simp add: view_inv_def dkeys_ddel)
  then have "distinct (dkeys (renumber (ddel ip (nodes s))))" by (simp add: renumber_eq)
  then show ?thesis using True assms
    by (simp add: removeNode_def Let_def) (rule updateRecordSet_view, simp add: view_inv_def)
next
  case False
  then show ?thesis using assms by (simp add: removeNode_def)
qed

lemma removeNode_selfIp [simp]: "selfIp (removeNode ip s) = selfIp s"
  by (simp add: removeNode_def Let_def)

lemma promote_node_ok:
  assumes "node_ok n"
  shows "node_ok (promote now n)"
proof -
  let ?s = "(removeNode (leaderIp (st n)) (st n))\<lparr>leaderIp := selfIp (st n)\<rparr>"
  have "view_inv ?s ((rf n)\<lparr>leader := True\<rparr>)"
    using removeNode_view [of "st n" "rf n" "leaderIp (st n)"] assms by (auto simp: node_ok_def view_inv_def)
  then have "node_ok (n\<lparr>st := updateRank (rank_of (selfIp ?s) (nodes ?s)) (lastRank ?s) ?s,
      rf := (rf n)\<lparr>leader := True\<rparr>\<rparr>)"
    using assms updateRank_view by (simp add: node_ok_def log_inv_def)
  from sendBeat_node_ok [OF this] show ?thesis
    by (simp add: promote_def Let_def node_ok_def view_inv_def log_inv_def)
qed

lemma heart_node_ok: "node_ok n \<Longrightarrow> node_ok (snd (raftHeart_round now (nxt, n)))"
  by (simp add: raftHeart_round_def Let_def promote_node_ok sendBeat_node_ok)

section \<open>Every step keeps the invariant\<close>

lemma resolve_node_ok: "node_ok n \<Longrightarrow> node_ok (snd (resolve r domain n))"
  by (simp add: resolve_def Let_def newRecord_inv)

lemma process_line_inv: "node_ok n \<Longrightarrow> node_ok (process_line live l n)"
  by (auto simp: process_line_def Let_def send_raw_def node_ok_def net_inv_def split: list.split option.split)

lemma line_node_ok:
  assumes "node_ok n"
  shows "node_ok (snd (read_line r e n))" "node_ok (snd (write_line u e n))" "node_ok (snd (sync_line now e n))"
proof -
  have "node_ok (snd (read_request r line n))" for line
    using assms by (simp add: read_request_def resolve_node_ok)
  then show "node_ok (snd (read_line r e n))"
    using assms by (auto simp: read_line_def split: conn_event.split prod.split) (metis snd_conv)+
  show "node_ok (snd (write_line u e n))"
    using assms writeHandler_inv [OF assms]
    by (auto simp: write_line_def split: conn_event.split prod.split outcome.split) (metis snd_conv)+
  show "node_ok (snd (sync_line now e n))"
    using assms beat_node_ok [OF assms] by (auto simp: sync_line_def Let_def split: conn_event.split)
qed

lemma node_step_ok: "node_ok n \<Longrightarrow> node_ok (snd (node_step a (nxt, n)))"
  by (cases a) (simp_all add: line_node_ok heart_node_ok process_line_inv)

interpretation read_port: shared_server read_line node_ok
  by unfold_locales (rule line_node_ok)

interpretation write_port: shared_server write_line node_ok
  by unfold_locales (rule line_node_ok)

interpretation sync_port: shared_server sync_line node_ok
  by unfold_locales (rule line_node_ok)

section \<open>Properties\<close>

lemma disk_inv_complete: "disk_inv dk \<Longrightarrow> file_complete dk d"
proof (cases "files dk (shard_path (lower_char (hd d)))")
  case (Some content)
  assume "disk_inv dk"
  with Some have "terminated content" by (simp add: disk_inv_def)
  then show ?thesis using file_lines_last Some by (simp add: file_complete_def shard_lines_def)
qed (simp add: file_complete_def shard_lines_def)

lemma boot_fields: "boot env now order dk = Inr n \<Longrightarrow> dsk n = dk \<and> currLogNum (rf n) = 0"
  by (auto simp: boot_def raft_init_def split: sum.splits)

lemma load_ips_distinct:
  "load_ips rd fns ns cur = Inr (ns', cur') \<Longrightarrow> distinct (dkeys ns) \<Longrightarrow> distinct (dkeys ns')"
  by (induction rd fns ns cur rule: load_ips.induct)
    (auto simp: Let_def dkeys_dset split: sum.splits if_splits)

lemma register_distinct: "register_and_load_nodes env = Inr b \<Longrightarrow> distinct (dkeys (b_nodes b))"
  using load_ips_distinct [of "read_file env" "ip_files (listdir env)" "[]" 0]
  by (auto simp: register_and_load_nodes_def Let_def split: sum.splits if_splits)

lemma States_init_view:
  assumes "States_init env = Inr s" and "IPv4Address (advertised_ip env) = Some a"
  shows "view_inv (s\<lparr>records := m\<rparr>) (raft_init now (s\<lparr>records := m\<rparr>))"
proof -
  obtain b where b: "register_and_load_nodes env = Inr b" and s: "s = updateState (updateRecordSet
      \<lparr>selfRecords = {}, selfIp = advertised_ip env, records = Map.empty, nodes = b_nodes b, rank = b_rank b,
       lastRank = b_lastRank b, mLastRank = b_lastRank b, st_leader = True, beatInterval = 100, leaderDead = 300,
       nodeCount = int (length (b_nodes b)), leaderIp = advertised_ip env, nodesTxt = Some (b_nodesTxt b),
       statesTxt = None, statesTxtOk = stateTxtOk env\<rparr>)"
    using assms(1) by (auto simp: States_init_def Let_def split: sum.splits)
  have "selfRecords s \<subseteq> set ALPHABET" using States_init_letters [OF assms(1)] .
  then show ?thesis
    using register_distinct [OF b] assms(2) by (simp add: view_inv_def raft_init_def s)
qed

lemma boot_node_ok:
  assumes "boot env now order dk = Inr n" and "IPv4Address (advertised_ip env) = Some a" and "disk_inv dk"
  shows "node_ok n"
proof -
  obtain s m where s: "States_init env = Inr s"
    and n: "n = \<lparr>st = s\<lparr>records := m\<rparr>, rf = raft_init now (s\<lparr>records := m\<rparr>), net = [], wr = writer_init, dsk = dk\<rparr>"
    using assms(1) by (auto simp: boot_def Reader_init_def split: sum.splits)
  have "log_inv (raft_init now s') writer_init" for s' by (simp add: log_inv_def raft_init_def writer_init_def)
  then show ?thesis
    using States_init_view [OF s assms(2)] assms(3) by (simp add: node_ok_def n net_inv_def)
qed

text \<open>
  C31: a node stays well formed whatever it is sent. From start-up with a valid own address and
  shard files that end in a line feed, after any number of complete loop iterations of its threads
  (connections on the three ports, heart, refresh) one after the other in any order, with any
  input on its ports, malformed or hostile ones included: the known nodes are distinct, the shards
  are letters, the counts are not negative, own and leader address are valid, the leader's is not
  the lower one, and the node is leader exactly when it follows itself; every log number handed
  out (of at most 4300 digits) has its entry, and counted acknowledgements are positive; every shard file is empty or ends
  in a line feed; and every packet sent is a complete line for the heartbeat or the write port.
\<close>

theorem node_well_formed:
  assumes "boot env now order dk = Inr n0" and "IPv4Address (advertised_ip env) = Some a" and "disk_inv dk"
    and "node_runs (nxt0, n0) (nxt, n)"
  shows "view_inv (st n) (rf n) \<and> log_inv (rf n) (wr n) \<and> disk_inv (dsk n) \<and> net_inv (net n)"
proof -
  have "node_ok n0" using boot_node_ok [OF assms(1-3)] .
  then have "node_ok (snd (nxt, n))"
    by (intro node_runs_keep [OF assms(4), of node_ok]) (simp_all add: node_step_ok)
  then show ?thesis by (simp add: node_ok_def)
qed

lemma example_boot:
  "boot (example_env\<lparr>advertised_ip := ''10.0.0.7''\<rparr>) 0 (shard_order [''10.0.0.7'', ''10.0.0.3''] ''10.0.0.7'') example_disk
     = Inr (boot_all example_env [''10.0.0.7'', ''10.0.0.3''] example_disk ''10.0.0.7'')"
  using boot_all_started [OF example_directory example_serving] by (simp add: started_def)

lemma example_own_address: "IPv4Address (advertised_ip (example_env\<lparr>advertised_ip := ''10.0.0.7''\<rparr>)) = Some (IPv4 167772167)"
proof -
  have "''10.0.0.7'' = dotted 10 0 0 7" by code_simp
  then show ?thesis using IPv4Address_dotted [of 10 0 0 7] by simp
qed

lemma example_disk_inv: "disk_inv example_disk"
  by (auto simp: disk_inv_def example_disk_def terminated_def split: if_splits)

theorem node_well_formed_witness:
  "\<exists>nxt n. node_step (WriteLine (Recv ''1;,,'' True))
      (0, boot_all example_env [''10.0.0.7'', ''10.0.0.3''] example_disk ''10.0.0.7'') = (nxt, n)
    \<and> view_inv (st n) (rf n) \<and> log_inv (rf n) (wr n) \<and> disk_inv (dsk n) \<and> net_inv (net n)"
proof -
  let ?n0 = "boot_all example_env [''10.0.0.7'', ''10.0.0.3''] example_disk ''10.0.0.7''"
  obtain nxt n where n: "node_step (WriteLine (Recv ''1;,,'' True)) (0, ?n0) = (nxt, n)"
    by (metis prod.collapse)
  have "node_runs (0, ?n0) (nxt, n)"
    using node_runs.one_step [OF node_runs.begin_run, of "(0, ?n0)" "WriteLine (Recv ''1;,,'' True)"] n by simp
  from node_well_formed [OF example_boot example_own_address example_disk_inv this] n show ?thesis by blast
qed

text \<open>
  The invariant rules out the loss of records by unterminated files: on a node as above, a
  write of a well-formed record that succeeds in opening the file never touches the record of
  another domain, whatever the threads did before.
\<close>

theorem writes_isolated:
  assumes "boot env now order dk = Inr n0" and "IPv4Address (advertised_ip env) = Some a" and "disk_inv dk"
    and "node_runs (nxt0, n0) (nxt, n)" and "update_ok d t v" and "disk_ok (dsk n) d"
    and "printable (currLogNum (rf n) + 1)" and "d' \<noteq> d"
  shows "disk_look (dsk (snd (writeHandler (''1;'' @ update_text d t v) n))) (d', t') = disk_look (dsk n) (d', t')
    \<and> disk_look (dsk (snd (writeHandler (''1;'' @ update_text d t v) n))) (d, t) = Some v"
proof -
  have "node_ok n0" using boot_node_ok [OF assms(1-3)] .
  then have ok: "node_ok (snd (nxt, n))"
    by (intro node_runs_keep [OF assms(4), of node_ok]) (simp_all add: node_step_ok)
  have "file_complete (dsk n) d" using ok by (simp add: node_ok_def disk_inv_complete)
  note full = rewrite_lines_full [OF assms(5) file_complete_full [OF this]]
  have w: "writeHandler (''1;'' @ update_text d t v) n = (Done, written d t v n)"
    using write_eq [OF assms(5,7,6)] by (simp add: write_msg_def)
  have "shard_lines (dsk (written d t v n)) c = (if c = lower_char (hd d)
      then rewrite_lines d (update_text d t v) (shard_lines (dsk n) c) else shard_lines (dsk n) c)" for c
    using full by (simp add: written_def Let_def update_path_def shard_lines_written) (simp add: shard_lines_def)
  then show ?thesis
    using assms(8) unfolding w by (simp add: disk_look_def last_record_rewrite [OF assms(5)])
qed

theorem writes_isolated_witness:
  "disk_look (dsk (snd (writeHandler (''1;'' @ update_text ''a.org'' ''A'' ''4.4.4.4'')
     (boot_all example_env [''10.0.0.7'', ''10.0.0.3''] example_disk ''10.0.0.7'')))) (''a.org'', ''A'') = Some ''4.4.4.4''"
proof -
  let ?n = "boot_all example_env [''10.0.0.7'', ''10.0.0.3''] example_disk ''10.0.0.7''"
  have "update_ok ''a.org'' ''A'' ''4.4.4.4''" "printable 1" by code_simp+
  moreover have "dsk ?n = example_disk" "currLogNum (rf ?n) = 0"
    using boot_fields [OF example_boot] by simp_all
  moreover have "disk_ok example_disk ''a.org''" by (rule disk_sound_ok [OF example_disk_sound])
  ultimately show ?thesis
    using writes_isolated [OF example_boot example_own_address example_disk_inv node_runs.begin_run, of "''a.org''" "''A''"
        "''4.4.4.4''" "''a.com''"] by simp
qed

end
