(* ===== verification/Node_State_Dyn.thy ===== *)
theory Node_State_Dyn
  imports Node_State Ipv4 "HOL-Library.Multiset"
begin

text \<open>
  The other version of the shared state (\<^verbatim>\<open>data_plane/state_dynamic.py\<close>), whose class has the same
  fields. At start-up a node first writes its own address file, so the directory it then reads
  contains that file. The other methods are translated from this file's own text; the bundle
  \<open>dyn_eqs\<close> shows that they are those of \<^verbatim>\<open>data_plane/state.py\<close>, so everything proved about the
  membership operations there holds here too.
\<close>

section \<open>Snapshot file\<close>

definition dyn_to_state_dict :: "states \<Rightarrow> state_dict" where
  "dyn_to_state_dict s =
     \<lparr>d_selfIp = selfIp s, d_nodes = nodes s, d_rank = rank s, d_lastRank = lastRank s,
      d_leader = st_leader s, d_beatInterval = beatInterval s, d_leaderDead = leaderDead s,
      d_nodeCount = nodeCount s, d_leaderIp = leaderIp s, d_selfRecords = selfRecords s\<rparr>"

definition dyn_updateState :: "states \<Rightarrow> states" where
  "dyn_updateState s = (if statesTxtOk s then s\<lparr>statesTxt := Some (dyn_to_state_dict s)\<rparr> else s)"

definition dyn_setLeaderIp :: "string \<Rightarrow> states \<Rightarrow> states" where
  "dyn_setLeaderIp ip s = dyn_updateState (s\<lparr>leaderIp := ip\<rparr>)"

section \<open>Shards and membership\<close>

definition dyn_updateRecordSet :: "states \<Rightarrow> states" where
  "dyn_updateRecordSet s =
     (if nodeCount s = 1 then s\<lparr>selfRecords := set ALPHABET\<rparr>
      else if lastRank s = 0 \<or> rank s = 0 then s\<lparr>selfRecords := {}\<rparr>
      else let per_node = TOTAL_LETTERS div lastRank s; remainder = TOTAL_LETTERS mod lastRank s;
               start = per_node * (rank s - 1) + min (rank s - 1) remainder;
               size = per_node + (if rank s \<le> remainder then 1 else 0)
        in dyn_updateState (s\<lparr>selfRecords := set (py_slice ALPHABET start (start + size))\<rparr>))"

definition dyn_updateRank :: "int \<Rightarrow> int \<Rightarrow> states \<Rightarrow> states" where
  "dyn_updateRank r n s = dyn_updateRecordSet (s\<lparr>rank := r, lastRank := n\<rparr>)"

definition dyn_addNodes :: "string \<Rightarrow> states \<Rightarrow> states" where
  "dyn_addNodes ip s =
     (if ip \<in> set (dkeys (nodes s)) then s
      else let n = nodeCount s + 1; ns = dset ip n (nodes s)
        in dyn_updateRecordSet (s\<lparr>nodeCount := n, nodes := ns, lastRank := int (length ns)\<rparr>))"

definition dyn_removeNode :: "string \<Rightarrow> states \<Rightarrow> states" where
  "dyn_removeNode ip s =
     (if ip \<notin> set (dkeys (nodes s)) then s
      else let ns = ddel ip (nodes s);
               ns' = fold (\<lambda>(i, ip) d. dset ip (int i) d) (List.enumerate 1 (dkeys ns)) ns
        in dyn_updateRecordSet (s\<lparr>nodes := ns', nodeCount := int (length ns),
             rank := (case map_of ns' (selfIp s) of None \<Rightarrow> 1 | Some r \<Rightarrow> r), lastRank := int (length ns')\<rparr>))"

section \<open>Start-up\<close>

text \<open>
  The name of the own address file, and the directory after it was written: its name is listed
  and reading it gives the address; the rest is what the siblings have written by then.
\<close>

definition own_file :: "string \<Rightarrow> string" where
  "own_file ip = ''self_ip_'' @ map (\<lambda>c. if c = CHR ''.'' then CHR ''_'' else c) ip @ ''.txt''"

definition write_own :: "boot_env \<Rightarrow> boot_env" where
  "write_own env =
     (let fn = own_file (advertised_ip env)
      in env\<lparr>listdir := (if fn \<in> set (listdir env) then listdir env else listdir env @ [fn]),
             read_file := (read_file env)(fn := Inr (advertised_ip env @ [NL]))\<rparr>)"

definition dyn_register_and_load_nodes :: "exn option \<Rightarrow> boot_env \<Rightarrow> exn + boot_nodes" where
  "dyn_register_and_load_nodes own_fault env0 =
     (case own_fault of
        Some e \<Rightarrow> Inl e
      | None \<Rightarrow>
          let env = write_own env0
          in (case load_ips (read_file env) (ip_files (listdir env)) [] 0 of
                Inl e \<Rightarrow> Inl e
              | Inr (ns0, cur0) \<Rightarrow>
                  let (ns, cur) = (if ns0 = [] then ([(advertised_ip env, 1)], 1) else (ns0, cur0))
                  in if nodesTxtOk env
                     then Inr \<lparr>b_nodes = ns, b_rank = rank_of (advertised_ip env) ns, b_lastRank = cur,
                               b_nodesTxt = concat (map (\<lambda>ip. ip @ [NL]) (dkeys ns))\<rparr>
                     else Inl OSError))"

definition dyn_States_init :: "exn option \<Rightarrow> boot_env \<Rightarrow> exn + states" where
  "dyn_States_init own_fault env =
     (case dyn_register_and_load_nodes own_fault env of
        Inl e \<Rightarrow> Inl e
      | Inr b \<Rightarrow>
          let s = \<lparr>selfRecords = {}, selfIp = advertised_ip env, records = Map.empty,
                   nodes = b_nodes b, rank = b_rank b, lastRank = b_lastRank b, mLastRank = b_lastRank b,
                   st_leader = True, beatInterval = 100, leaderDead = 300,
                   nodeCount = int (length (b_nodes b)), leaderIp = advertised_ip env,
                   nodesTxt = Some (b_nodesTxt b), statesTxt = None, statesTxtOk = stateTxtOk env\<rparr>
          in Inr (dyn_updateState (dyn_updateRecordSet s)))"

section \<open>The two classes agree\<close>

lemma dyn_updateState_eq: "dyn_updateState = updateState"
  by (simp add: fun_eq_iff dyn_updateState_def updateState_def dyn_to_state_dict_def to_state_dict_def)

lemma dyn_updateRecordSet_eq: "dyn_updateRecordSet = updateRecordSet"
  by (simp add: fun_eq_iff dyn_updateRecordSet_def updateRecordSet_def dyn_updateState_eq shard_slice_def
      shard_start_def shard_size_def Let_def)

lemma dyn_setLeaderIp_eq: "dyn_setLeaderIp = setLeaderIp"
  by (simp add: fun_eq_iff dyn_setLeaderIp_def setLeaderIp_def dyn_updateState_eq)

lemma dyn_updateRank_eq: "dyn_updateRank = updateRank"
  by (simp add: fun_eq_iff dyn_updateRank_def updateRank_def dyn_updateRecordSet_eq)

lemma dyn_addNodes_eq: "dyn_addNodes = addNodes"
  by (simp add: fun_eq_iff dyn_addNodes_def addNodes_def dyn_updateRecordSet_eq)

lemma dyn_removeNode_eq: "dyn_removeNode = removeNode"
  by (simp add: fun_eq_iff dyn_removeNode_def removeNode_def dyn_updateRecordSet_eq renumber_def rank_of_def Let_def)

lemmas dyn_eqs = dyn_updateState_eq dyn_updateRecordSet_eq dyn_setLeaderIp_eq dyn_updateRank_eq
  dyn_addNodes_eq dyn_removeNode_eq

text \<open>Writing the own file changes neither the address nor the output files.\<close>

lemma write_own_simps [simp]:
  "advertised_ip (write_own env) = advertised_ip env"
  "nodesTxtOk (write_own env) = nodesTxtOk env"
  "stateTxtOk (write_own env) = stateTxtOk env"
  by (simp_all add: write_own_def Let_def)

lemma dyn_register_eq: "dyn_register_and_load_nodes None env = register_and_load_nodes (write_own env)"
  by (simp add: dyn_register_and_load_nodes_def register_and_load_nodes_def Let_def)

lemma dyn_States_init_eq: "dyn_States_init None env = States_init (write_own env)"
  by (simp add: dyn_States_init_def States_init_def dyn_register_eq dyn_eqs Let_def split: sum.split)

section \<open>A cluster that discovers itself\<close>

text \<open>The directory after all nodes have written their files, in some order.\<close>

definition publish :: "string list \<Rightarrow> boot_env \<Rightarrow> boot_env" where
  "publish ips env = fold (\<lambda>ip e. write_own (e\<lparr>advertised_ip := ip\<rparr>)) ips env"

lemma own_file_inj:
  assumes "own_file a = own_file b" and "CHR ''_'' \<notin> set a" and "CHR ''_'' \<notin> set b"
  shows "a = b"
proof -
  let ?f = "\<lambda>c. if c = CHR ''.'' then CHR ''_'' else c"
  have "map ?f a = map ?f b" using assms(1) by (simp add: own_file_def)
  moreover have "inj_on ?f (set a \<union> set b)" using assms(2,3) by (auto simp: inj_on_def)
  ultimately show ?thesis by (rule map_inj_on)
qed

lemma own_file_listed [simp]: "startswith (own_file ip) ''self_ip_''" "endswith (own_file ip) ''.txt''"
  by (simp_all add: own_file_def startswith_def endswith_def)

lemma publish_snoc: "publish (ips @ [ip]) env = write_own (publish ips env\<lparr>advertised_ip := ip\<rparr>)"
  by (simp add: publish_def)

lemma publish_env [simp]:
  "nodesTxtOk (publish ips env) = nodesTxtOk env" "stateTxtOk (publish ips env) = stateTxtOk env"
  by (induction ips rule: rev_induct) (simp_all add: publish_snoc, simp_all add: publish_def)

lemma publish_read:
  assumes "ip \<in> set ips" and "\<forall>a \<in> set ips. CHR ''_'' \<notin> set a"
  shows "read_file (publish ips env) (own_file ip) = Inr (ip @ [NL])"
  using assms
proof (induction ips rule: rev_induct)
  case (snoc a ips)
  then show ?case
    using own_file_inj [of ip a] by (auto simp: publish_snoc write_own_def Let_def)
qed simp

lemma publish_listdir:
  assumes "distinct ips" and "\<forall>a \<in> set ips. CHR ''_'' \<notin> set a"
    and "own_file ` set ips \<inter> set (listdir env) = {}"
  shows "listdir (publish ips env) = listdir env @ map own_file ips"
  using assms
proof (induction ips rule: rev_induct)
  case (snoc a ips)
  have "own_file a \<notin> own_file ` set ips"
  proof
    assume "own_file a \<in> own_file ` set ips"
    then obtain b where "b \<in> set ips" "own_file a = own_file b" by auto
    with snoc.prems own_file_inj [of a b] show False by simp
  qed
  with snoc show ?case by (auto simp: publish_snoc write_own_def Let_def)
qed (simp add: publish_def)

lemma sort_map_key: "sort (map f xs) = map f (sort_key f xs)"
  by (rule properties_for_sort) simp_all

lemma file_ips_own:
  assumes "\<forall>a \<in> set ips. rd (own_file a) = Inr (a @ [NL]) \<and> strip (a @ [NL]) = a \<and> a \<noteq> []"
  shows "file_ips rd (map own_file ips) = ips"
  using assms by (induction ips) simp_all

text \<open>A node that writes its file again changes nothing.\<close>

lemma write_own_publish:
  assumes "ip \<in> set ips" and "distinct ips" and "\<forall>a \<in> set ips. CHR ''_'' \<notin> set a"
    and "own_file ` set ips \<inter> set (listdir env) = {}"
  shows "write_own (publish ips env\<lparr>advertised_ip := ip\<rparr>) = publish ips env\<lparr>advertised_ip := ip\<rparr>"
proof -
  have "own_file ip \<in> set (listdir (publish ips env))"
    using assms publish_listdir [OF assms(2-4)] by simp
  moreover have "(read_file (publish ips env))(own_file ip := Inr (ip @ [NL])) = read_file (publish ips env)"
    using publish_read [OF assms(1,3)] by (simp add: fun_eq_iff)
  ultimately show ?thesis by (simp add: write_own_def Let_def)
qed

text \<open>
  C34: a cluster started with \<^verbatim>\<open>state_dynamic.py\<close> needs no prepared directory. When every node has
  written its own address file into a directory with no \<^verbatim>\<open>self_ip_\<close> file, every node starts, and
  each letter is owned by exactly one node, whatever the order of the writes.
\<close>

theorem self_discovery_partitions_alphabet:
  assumes "ips \<noteq> []" and "distinct ips" and "\<forall>ip \<in> set ips. IPv4Address ip \<noteq> None"
    and "\<forall>fn \<in> set (listdir env). \<not> startswith fn ''self_ip_''" and "nodesTxtOk env"
    and "c \<in> set ALPHABET"
  shows "(\<forall>ip \<in> set ips. \<exists>s. dyn_States_init None (publish ips env\<lparr>advertised_ip := ip\<rparr>) = Inr s) \<and>
    (\<exists>!ip. ip \<in> set ips \<and>
      (\<exists>s. dyn_States_init None (publish ips env\<lparr>advertised_ip := ip\<rparr>) = Inr s \<and> c \<in> selfRecords s))"
proof -
  let ?js = "sort_key own_file ips" and ?env = "publish ips env"
  have plain: "CHR ''_'' \<notin> set a" "strip (a @ [NL]) = a" "a \<noteq> []" if "a \<in> set ips" for a
    using assms(3) that IPv4Address_chars [of a] IPv4Address_stripped [of a]
    by (fastforce simp: py_text dest: digit_not_special)+
  have free: "own_file ` set ips \<inter> set (listdir env) = {}"
    using assms(4) own_file_listed(1) by blast
  have "listdir ?env = listdir env @ map own_file ips"
    using plain(1) free assms(2) by (intro publish_listdir) simp_all
  moreover have "filter (\<lambda>fn. startswith fn ''self_ip_'' \<and> endswith fn ''.txt'') (listdir env) = []"
    using assms(4) by simp
  ultimately have files: "ip_files (listdir ?env) = map own_file ?js"
    by (simp add: ip_files_def filter_map comp_def sort_map_key)
  have found: "?js = file_ips (read_file ?env) (ip_files (listdir ?env))"
    unfolding files using plain by (intro file_ips_own [symmetric]) (simp add: publish_read)
  have readable: "\<forall>fn \<in> set (ip_files (listdir ?env)). \<forall>e. read_file ?env fn = Inl e \<longrightarrow> is_OSError e"
    unfolding files using plain(1) by (simp add: publish_read)
  have "?js \<noteq> []" using assms(1) by (metis length_0_conv length_sort)
  then have boot: "States_init (?env\<lparr>advertised_ip := ip\<rparr>) = Inr (booted_state ?env ?js ip)" for ip
    using assms(2,5) by (intro States_init_eq [OF found _ _ _ readable]) simp_all
  have init: "dyn_States_init None (?env\<lparr>advertised_ip := ip\<rparr>) = Inr (booted_state ?env ?js ip)"
    if "ip \<in> set ips" for ip
    using that assms(2) plain(1) free by (simp add: dyn_States_init_eq write_own_publish boot)
  have "sharded (set ?js) (\<lambda>ip. selfRecords (booted_state ?env ?js ip))"
    using assms(2) \<open>?js \<noteq> []\<close> by (intro cluster_sharded) (simp_all add: booted_state_settled)
  from sharded.owner_unique [OF this assms(6)] show ?thesis by (simp add: init cong: conj_cong)
qed

definition bare_env :: boot_env where
  "bare_env = \<lparr>advertised_ip = [], listdir = [''nodes.txt''], read_file = (\<lambda>fn. Inl FileNotFoundError),
     nodesTxtOk = True, stateTxtOk = True\<rparr>"

theorem self_discovery_partitions_alphabet_witness:
  "\<exists>!ip. ip \<in> {''10.0.0.7'', ''10.0.0.12''} \<and>
     (\<exists>s. dyn_States_init None (publish [''10.0.0.7'', ''10.0.0.12''] bare_env\<lparr>advertised_ip := ip\<rparr>) = Inr s
       \<and> CHR ''q'' \<in> selfRecords s)"
proof -
  have "''10.0.0.7'' = dotted 10 0 0 7" "''10.0.0.12'' = dotted 10 0 0 12" by code_simp+
  then have "IPv4Address ''10.0.0.7'' \<noteq> None" "IPv4Address ''10.0.0.12'' \<noteq> None"
    using IPv4Address_dotted [of 10 0 0 7] IPv4Address_dotted [of 10 0 0 12] by simp_all
  then have "\<forall>ip \<in> set [''10.0.0.7'', ''10.0.0.12'']. IPv4Address ip \<noteq> None" by simp
  from self_discovery_partitions_alphabet [OF _ _ this, of bare_env "CHR ''q''"]
  show ?thesis by (simp add: bare_env_def ALPHABET_def startswith_def)
qed

end
