(* ===== verification/Lru_Spec.thy ===== *)
theory Lru_Spec
  imports Py_Prelude
begin

text \<open>
  The contract of a least-recently-used store, as an interface (locale \<open>lru_store\<close>) over a
  list of items ordered from the least to the most recently used. The two cache servers each
  carry their own \<^verbatim>\<open>LRUCache\<close> class; both are interpretations of this interface, and the
  facts proved here once (capacity, refinement of an unbounded recency list, survival of a
  key under few other accesses) are facts about both.
\<close>

section \<open>Recency lists\<close>

definition touch :: "'k \<Rightarrow> 'v \<Rightarrow> ('k, 'v) dict \<Rightarrow> ('k, 'v) dict" where
  "touch k v d = ddel k d @ [(k, v)]"

definition lastN :: "nat \<Rightarrow> 'a list \<Rightarrow> 'a list" where
  "lastN n xs = drop (length xs - n) xs"

lemma length_lastN [simp]: "length (lastN n xs) = min n (length xs)"
  by (simp add: lastN_def)

lemma lastN_id: "length xs \<le> n \<Longrightarrow> lastN n xs = xs"
  by (simp add: lastN_def)

lemma lastN_append: "n \<le> length ys \<Longrightarrow> lastN n (xs @ ys) = lastN n ys"
  by (simp add: lastN_def)

lemma lastN_append_ge: "length ys \<le> n \<Longrightarrow> lastN n (xs @ ys) = lastN (n - length ys) xs @ ys"
  by (simp add: lastN_def)

lemma lastN_tl: "length xs = Suc n \<Longrightarrow> lastN n xs = tl xs"
  by (simp add: lastN_def drop_Suc)

lemma set_lastN: "set (lastN n xs) \<subseteq> set xs"
  by (simp add: lastN_def set_drop_subset)

lemma distinct_lastN: "distinct (dkeys d) \<Longrightarrow> distinct (dkeys (lastN n d))"
  by (simp add: lastN_def drop_map [symmetric])

lemma dkeys_touch: "dkeys (touch k v d) = filter (\<lambda>x. x \<noteq> k) (dkeys d) @ [k]"
  by (induction d) (auto simp: touch_def)

lemma distinct_touch: "distinct (dkeys d) \<Longrightarrow> distinct (dkeys (touch k v d))"
  by (simp add: dkeys_touch)

lemma map_of_touch: "map_of (touch k v d) = (map_of d)(k \<mapsto> v)"
proof
  fix x
  have "map_of (ddel k d) = (map_of d)(k := None)" by (rule AList.delete_conv')
  then show "map_of (touch k v d) x = ((map_of d)(k \<mapsto> v)) x"
    by (simp add: touch_def map_add_def split: option.split)
qed

lemma length_touch:
  "distinct (dkeys d) \<Longrightarrow>
   length (touch k v d) = (if k \<in> fst ` set d then length d else Suc (length d))"
  by (simp add: touch_def length_ddel_in)

lemma length_ddel_ge: "distinct (dkeys d) \<Longrightarrow> length d - 1 \<le> length (ddel k d)"
  using length_ddel_in [of d k] by (cases "k \<in> fst ` set d") auto

text \<open>Forgetting old entries before or after an access makes no difference.\<close>

lemma lastN_touch:
  assumes "distinct (dkeys d)"
  shows "lastN n (touch k v (lastN n d)) = lastN n (touch k v d)"
proof (cases "length d \<le> n \<or> n = 0")
  case True
  then show ?thesis by (auto simp: lastN_id) (simp add: lastN_def)
next
  case False
  then obtain m where n: "n = Suc m" and m: "m < length d" by (cases n) auto
  let ?pre = "take (length d - n) d" and ?suf = "lastN n d"
  have d: "d = ?pre @ ?suf" by (simp add: lastN_def)
  have "m \<le> length (ddel k ?suf)"
    using length_ddel_ge [OF distinct_lastN [OF assms], of n k] False n by simp
  moreover have "ddel k d = ddel k ?pre @ ddel k ?suf"
    by (subst d) (simp only: AList.delete_eq filter_append)
  ultimately have "lastN m (ddel k d) = lastN m (ddel k ?suf)"
    by (simp add: lastN_append)
  then show ?thesis by (simp add: touch_def n lastN_append_ge)
qed

lemma lastN_keep:
  "length B < n \<Longrightarrow> \<exists>A'. lastN n (A @ x # B) = A' @ x # B \<and> set A' \<subseteq> set A"
  using lastN_append_ge [of "x # B" n A] set_lastN by fastforce

section \<open>Ordered dictionaries as recency lists\<close>

lemma move_to_end_touch: "map_of d k = Some v \<Longrightarrow> move_to_end k d = touch k v d"
  by (simp add: move_to_end_def touch_def)

lemma in_dkeys_map_of: "k \<in> set (dkeys d) \<longleftrightarrow> (\<exists>v. map_of d k = Some v)"
  by (metis domIff list.set_map dom_map_of_conv_image_fst not_None_eq)

lemma dset_moved: "dset k v (if k \<in> set (dkeys d) then move_to_end k d else d) = touch k v d"
proof (cases "k \<in> set (dkeys d)")
  case True
  then obtain w where "map_of d k = Some w" using in_dkeys_map_of by metis
  then have "move_to_end k d = ddel k d @ [(k, w)]" by (simp add: move_to_end_touch touch_def)
  moreover have "k \<notin> fst ` set (ddel k d)" by (simp add: AList.delete_eq image_iff)
  ultimately show ?thesis using True by (simp add: touch_def dset_append_in)
next
  case False
  then show ?thesis by (simp add: touch_def dset_not_in)
qed

lemma evict_lastN:
  assumes "distinct (dkeys d)" and "length d \<le> n"
  shows "(let d2 = touch k v d in if length d2 > n then tl d2 else d2) = lastN n (touch k v d)"
  using assms by (auto simp: length_touch Let_def lastN_id lastN_tl split: if_splits)

section \<open>Sequences of accesses\<close>

datatype ('k, 'v) access = Get 'k | Put 'k 'v

primrec access_key :: "('k, 'v) access \<Rightarrow> 'k" where
  "access_key (Get k) = k"
| "access_key (Put k v) = k"

primrec is_put_of :: "'k \<Rightarrow> ('k, 'v) access \<Rightarrow> bool" where
  "is_put_of k (Get k') = False"
| "is_put_of k (Put k' v) = (k' = k)"

type_synonym ('c, 'k, 'v) getter = "'c \<Rightarrow> 'k \<Rightarrow> 'v option \<times> 'c"
type_synonym ('c, 'k, 'v) putter = "'c \<Rightarrow> 'k \<Rightarrow> 'v \<Rightarrow> 'c"

text \<open>The state after a sequence of accesses, and the accesses that used an entry.\<close>

fun run_accesses ::
    "('c, 'k, 'v) getter \<Rightarrow> ('c, 'k, 'v) putter \<Rightarrow> 'c \<Rightarrow> ('k, 'v) access list \<Rightarrow> 'c" where
  "run_accesses g p c [] = c"
| "run_accesses g p c (Get k # as) = run_accesses g p (snd (g c k)) as"
| "run_accesses g p c (Put k v # as) = run_accesses g p (p c k v) as"

fun uses ::
    "('c, 'k, 'v) getter \<Rightarrow> ('c, 'k, 'v) putter \<Rightarrow> 'c \<Rightarrow> ('k, 'v) access list \<Rightarrow> ('k \<times> 'v) list" where
  "uses g p c [] = []"
| "uses g p c (Get k # as) =
     (case fst (g c k) of None \<Rightarrow> [] | Some v \<Rightarrow> [(k, v)]) @ uses g p (snd (g c k)) as"
| "uses g p c (Put k v # as) = (k, v) # uses g p (p c k v) as"

text \<open>A cache that never forgets: the recency list after a sequence of uses.\<close>

definition recency :: "('k \<times> 'v) list \<Rightarrow> ('k, 'v) dict \<Rightarrow> ('k, 'v) dict" where
  "recency us d = fold (\<lambda>(k, v). touch k v) us d"

lemma recency_Nil [simp]: "recency [] d = d"
  by (simp add: recency_def)

lemma recency_Cons [simp]: "recency ((k, v) # us) d = recency us (touch k v d)"
  by (simp add: recency_def)

section \<open>The interface\<close>

locale lru_store =
  fixes cget :: "('c, 'k, 'v) getter"
    and cput :: "('c, 'k, 'v) putter"
    and citems :: "'c \<Rightarrow> ('k, 'v) dict"
    and ccap :: "'c \<Rightarrow> nat"
    and cwf :: "'c \<Rightarrow> bool"
  assumes wf_distinct: "cwf c \<Longrightarrow> distinct (dkeys (citems c))"
    and wf_bound: "cwf c \<Longrightarrow> length (citems c) \<le> ccap c"
    and get_value: "cwf c \<Longrightarrow> fst (cget c k) = map_of (citems c) k"
    and get_items: "cwf c \<Longrightarrow> citems (snd (cget c k)) =
          (case map_of (citems c) k of None \<Rightarrow> citems c | Some v \<Rightarrow> touch k v (citems c))"
    and put_items: "cwf c \<Longrightarrow> citems (cput c k v) = lastN (ccap c) (touch k v (citems c))"
    and get_cap: "ccap (snd (cget c k)) = ccap c"
    and put_cap: "ccap (cput c k v) = ccap c"
    and get_wf: "cwf c \<Longrightarrow> cwf (snd (cget c k))"
    and put_wf: "cwf c \<Longrightarrow> cwf (cput c k v)"
begin

lemma run_cap: "ccap (run_accesses cget cput c as) = ccap c"
proof (induction as arbitrary: c)
  case (Cons a as)
  then show ?case by (cases a) (simp_all add: get_cap put_cap)
qed simp

lemma run_wf: "cwf c \<Longrightarrow> cwf (run_accesses cget cput c as)"
proof (induction as arbitrary: c)
  case (Cons a as)
  then show ?case by (cases a) (simp_all add: get_wf put_wf)
qed simp

lemma run_bound: "cwf c \<Longrightarrow> length (citems (run_accesses cget cput c as)) \<le> ccap c"
  using wf_bound [OF run_wf] by (simp add: run_cap)

lemma get_hit_items:
  assumes "cwf c" and "map_of (citems c) k = Some v"
  shows "citems (snd (cget c k)) = lastN (ccap c) (touch k v (citems c))"
proof -
  have "k \<in> fst ` set (citems c)" using assms(2) by (force dest: map_of_SomeD)
  then have "length (touch k v (citems c)) \<le> ccap c"
    using assms(1) by (simp add: length_touch wf_distinct wf_bound)
  with assms show ?thesis by (simp add: get_items lastN_id)
qed

text \<open>The store is the unbounded recency list cut to its capacity.\<close>

lemma run_refines:
  assumes "cwf c" and "citems c = lastN (ccap c) d" and "distinct (dkeys d)"
  shows "citems (run_accesses cget cput c as) = lastN (ccap c) (recency (uses cget cput c as) d)"
  using assms
proof (induction as arbitrary: c d)
  case Nil
  then show ?case by simp
next
  case (Cons a as)
  show ?case
  proof (cases a)
    case (Put k v)
    have "citems (cput c k v) = lastN (ccap c) (touch k v d)"
      using Cons.prems by (simp add: put_items lastN_touch)
    with Put Cons.IH [of "cput c k v" "touch k v d"] Cons.prems show ?thesis
      by (simp add: put_wf put_cap distinct_touch)
  next
    case (Get k)
    show ?thesis
    proof (cases "map_of (citems c) k")
      case None
      then have "citems (snd (cget c k)) = citems c" using Cons.prems by (simp add: get_items)
      with Get None Cons.IH [of "snd (cget c k)" d] Cons.prems show ?thesis
        by (simp add: get_wf get_cap get_value)
    next
      case (Some v)
      then have "citems (snd (cget c k)) = lastN (ccap c) (touch k v d)"
        using Cons.prems by (simp add: get_hit_items lastN_touch)
      with Get Some Cons.IH [of "snd (cget c k)" "touch k v d"] Cons.prems show ?thesis
        by (simp add: get_wf get_cap get_value distinct_touch)
    qed
  qed
qed

text \<open>A key enters the store by a put of that key only.\<close>

lemma put_absent:
  "cwf c \<Longrightarrow> map_of (citems c) k = None \<Longrightarrow> k' \<noteq> k \<Longrightarrow> map_of (citems (cput c k' v)) k = None"
  using set_lastN [of "ccap c" "touch k' v (citems c)"]
  by (auto simp: put_items map_of_eq_None_iff touch_def AList.delete_eq)

lemma get_absent:
  "cwf c \<Longrightarrow> map_of (citems c) k = None \<Longrightarrow> map_of (citems (snd (cget c k'))) k = None"
  by (cases "k' = k"; cases "map_of (citems c) k'") (simp_all add: get_items map_of_touch)

lemma run_absent:
  assumes "cwf c" and "map_of (citems c) k = None" and "\<forall>a \<in> set as. \<not> is_put_of k a"
  shows "map_of (citems (run_accesses cget cput c as)) k = None"
  using assms
proof (induction as arbitrary: c)
  case (Cons a as)
  then show ?case by (cases a) (simp_all add: put_absent get_absent get_wf put_wf)
qed simp

text \<open>
  One access to a key other than \<open>k\<close> cannot push \<open>k\<close> out while fewer than
  \<open>ccap c\<close> other keys are in use.
\<close>

definition holds_with :: "'k \<Rightarrow> 'v \<Rightarrow> 'k set \<Rightarrow> 'c \<Rightarrow> bool" where
  "holds_with k v T c \<longleftrightarrow> (\<exists>A B. citems c = A @ (k, v) # B \<and> fst ` set B \<subseteq> T)"

lemma holds_lookup: "cwf c \<Longrightarrow> holds_with k v T c \<Longrightarrow> fst (cget c k) = Some v"
  using wf_distinct [of c] by (force simp: holds_with_def get_value)

lemma touch_holds:
  assumes wf: "cwf c" and h: "holds_with k v T c" and T: "finite T" "card T < ccap c" "k \<notin> T"
    and k': "k' \<in> T"
    and c': "citems c' = lastN (ccap c) (touch k' v' (citems c))"
  shows "holds_with k v T c'"
proof -
  obtain A B where i: "citems c = A @ (k, v) # B" and B: "fst ` set B \<subseteq> T"
    using h by (auto simp: holds_with_def)
  let ?B = "ddel k' B @ [(k', v')]"
  have t: "touch k' v' (citems c) = ddel k' A @ (k, v) # ?B"
    using k' T(3) by (auto simp: i touch_def AList.delete_eq)
  have "distinct (dkeys (touch k' v' (citems c)))"
    using wf by (simp add: distinct_touch wf_distinct)
  then have "distinct (dkeys ?B)" by (simp add: t)
  moreover have sub: "fst ` set ?B \<subseteq> T"
    using B k' by (auto simp: AList.delete_eq)
  ultimately have "length ?B \<le> card T"
    using card_mono [OF T(1) sub] distinct_card [of "dkeys ?B"] by simp
  with T(2) obtain A' where "lastN (ccap c) (ddel k' A @ (k, v) # ?B) = A' @ (k, v) # ?B"
    using lastN_keep [of ?B "ccap c" "ddel k' A" "(k, v)"] by auto
  then have "citems c' = A' @ (k, v) # ?B" by (simp add: c' t)
  with sub show ?thesis unfolding holds_with_def by blast
qed

lemma put_holds: "cwf c \<Longrightarrow> 0 < ccap c \<Longrightarrow> holds_with k v T (cput c k v)"
  unfolding holds_with_def
  by (rule exI [of _ "lastN (ccap c - 1) (ddel k (citems c))"], rule exI [of _ "[]"])
    (simp add: put_items touch_def lastN_append_ge)

lemma get_self_holds:
  assumes "cwf c" and "holds_with k v T c"
  shows "holds_with k v T (snd (cget c k))"
proof -
  have "map_of (citems c) k = Some v"
    using holds_lookup [OF assms] assms(1) by (simp add: get_value)
  then have "citems (snd (cget c k)) = ddel k (citems c) @ [(k, v)]"
    using assms(1) by (simp add: get_items touch_def)
  then show ?thesis unfolding holds_with_def by (metis empty_subsetI image_empty list.set(1))
qed

lemma run_holds:
  assumes "cwf c" and "holds_with k v T c" and "finite T" and "card T < ccap c" and "k \<notin> T"
    and "\<forall>a \<in> set as. access_key a \<in> insert k T \<and> \<not> is_put_of k a"
  shows "holds_with k v T (run_accesses cget cput c as)"
  using assms
proof (induction as arbitrary: c)
  case (Cons a as)
  show ?case
  proof (cases a)
    case (Put k' v')
    with Cons.prems have "k' \<in> T" by auto
    then have "holds_with k v T (cput c k' v')"
      by (rule touch_holds [OF Cons.prems(1-5), where v' = v']) (simp add: Cons.prems put_items)
    with Put Cons.prems Cons.IH [of "cput c k' v'"] show ?thesis
      by (simp add: put_wf put_cap)
  next
    case (Get k')
    consider "k' = k" | "k' \<in> T" "map_of (citems c) k' = None"
      | v' where "k' \<in> T" "map_of (citems c) k' = Some v'"
      using Cons.prems Get by fastforce
    then have "holds_with k v T (snd (cget c k'))"
    proof cases
      case 1
      with Cons.prems show ?thesis by (simp add: get_self_holds)
    next
      case 2
      with Cons.prems show ?thesis by (simp add: holds_with_def get_items)
    next
      case 3
      show ?thesis
        by (rule touch_holds [OF Cons.prems(1-5) 3(1), where v' = v'])
          (simp add: Cons.prems 3 get_hit_items)
    qed
    with Get Cons.prems Cons.IH [of "snd (cget c k')"] show ?thesis
      by (simp add: get_wf get_cap)
  qed
qed simp

lemma put_survives:
  assumes "cwf c" and "\<forall>a \<in> set as. \<not> is_put_of k a"
    and "card (access_key ` set as - {k}) < ccap c"
  shows "fst (cget (run_accesses cget cput (cput c k v) as) k) = Some v"
proof -
  let ?T = "access_key ` set as - {k}"
  have "holds_with k v ?T (run_accesses cget cput (cput c k v) as)"
    using assms by (intro run_holds) (auto simp: put_wf put_cap intro: put_holds)
  then show ?thesis
    using assms(1) by (intro holds_lookup [where T = ?T]) (simp_all add: run_wf put_wf)
qed

end

end
