(* ===== verification/Cache_Protocol.thy ===== *)
theory Cache_Protocol
  imports Lru_Spec
begin

text \<open>
  The text protocol both cache servers speak, as an interface: which access a command line
  denotes (\<open>cache_command\<close>), and the locale \<open>cache_server\<close> of a server whose store makes
  exactly these accesses. Proved once inside the locale: the store of a server after any
  sequence of command lines is the store after the accesses they denote, it never exceeds
  its capacity, and a value set under a key is what a later read of the key answers.
\<close>

abbreviation semi :: char where "semi \<equiv> CHR '';''"

definition cache_command :: "string \<Rightarrow> (string, string) access option" where
  "cache_command line =
     (if startswith (upper line) ''GET;'' then Some (Get (strip (drop 4 line)))
      else if startswith (upper line) ''SET;'' then
        (case split_max semi 2 line of
           [_, k, v] \<Rightarrow> Some (Put (strip k) (strip v))
         | _ \<Rightarrow> None)
      else None)"

lemma upper_append [simp]: "upper (a @ b) = upper a @ upper b"
  by (simp add: upper_def)

lemma upper_GET [simp]: "upper ''GET;'' = ''GET;''"
  by (simp add: upper_def upper_char_def)

lemma upper_SET [simp]: "upper ''SET;'' = ''SET;''"
  by (simp add: upper_def upper_char_def)

definition get_line :: "string \<Rightarrow> string" where
  "get_line k = ''GET;'' @ k"

definition set_line :: "string \<Rightarrow> string \<Rightarrow> string" where
  "set_line k v = ''SET;'' @ k @ semi # v"

lemma command_get_line: "cache_command (get_line k) = Some (Get (strip k))"
  by (simp add: cache_command_def get_line_def upper_def upper_char_def startswith_def)

lemma split_set_line:
  "semi \<notin> set k \<Longrightarrow> split_max semi 2 (set_line k v) = [''SET'', k, v]"
  using split_max_append [of semi "''SET''" 1 "k @ semi # v"] split_max_append [of semi k 0 v]
  by (simp add: set_line_def numeral_2_eq_2)

lemma command_set_line:
  "semi \<notin> set k \<Longrightarrow> cache_command (set_line k v) = Some (Put (strip k) (strip v))"
  using split_set_line [of k v]
  by (simp add: cache_command_def set_line_def upper_def upper_char_def startswith_def)

text \<open>Running a server over a sequence of timed command lines.\<close>

fun serve :: "(time \<Rightarrow> string \<Rightarrow> 's \<Rightarrow> string \<times> 's) \<Rightarrow> (time \<times> string) list \<Rightarrow> 's \<Rightarrow> 's" where
  "serve ex [] s = s"
| "serve ex ((t, line) # cs) s = serve ex cs (snd (ex t line s))"

definition accesses_of :: "(time \<times> string) list \<Rightarrow> (string, string) access list" where
  "accesses_of cs = List.map_filter (\<lambda>(t, line). cache_command line) cs"

lemma accesses_of_Nil [simp]: "accesses_of [] = []"
  by (simp add: accesses_of_def)

lemma accesses_of_Cons [simp]:
  "accesses_of ((t, line) # cs) =
     (case cache_command line of None \<Rightarrow> [] | Some a \<Rightarrow> [a]) @ accesses_of cs"
  by (simp add: accesses_of_def List.map_filter_simps split: option.split)

text \<open>The lines of a connection that reach the command interpreter.\<close>

fun conn_lines :: "conn_event list \<Rightarrow> string list" where
  "conn_lines [] = []"
| "conn_lines (RecvError e # es) = []"
| "conn_lines (Recv data ok # es) =
     (if data = [] then [] else rstrip data # (if ok then conn_lines es else []))"

locale cache_server = lru_store cget cput citems ccap cwf
  for cget :: "('c, string, string) getter"
    and cput :: "('c, string, string) putter"
    and citems ccap cwf +
  fixes exec :: "time \<Rightarrow> string \<Rightarrow> 's \<Rightarrow> string \<times> 's"
    and store :: "'s \<Rightarrow> 'c"
  assumes exec_bad: "cache_command line = None \<Longrightarrow> exec t line s = (''ERROR'', s)"
    and exec_put: "cache_command line = Some (Put k v) \<Longrightarrow> fst (exec t line s) = ''OK''"
    and exec_hit: "cache_command line = Some (Get k) \<Longrightarrow> fst (cget (store s) k) = Some v
          \<Longrightarrow> fst (exec t line s) = v"
    and exec_store: "cache_command line = Some a \<Longrightarrow>
          store (snd (exec t line s)) = run_accesses cget cput (store s) [a]"
begin

lemma serve_store:
  "store (serve exec cs s) = run_accesses cget cput (store s) (accesses_of cs)"
proof (induction cs arbitrary: s)
  case (Cons c cs)
  obtain t line where c: "c = (t, line)" by (cases c)
  show ?case
  proof (cases "cache_command line")
    case None
    with Cons c show ?thesis by (simp add: exec_bad)
  next
    case (Some a)
    with Cons c exec_store [OF Some, of t s] show ?thesis by (cases a) simp_all
  qed
qed simp

lemma serve_wf: "cwf (store s) \<Longrightarrow> cwf (store (serve exec cs s))"
  by (simp add: serve_store run_wf)

lemma serve_bound: "cwf (store s) \<Longrightarrow> length (citems (store (serve exec cs s))) \<le> ccap (store s)"
  by (simp add: serve_store run_bound)

lemma set_get:
  assumes wf: "cwf (store s)" and k: "semi \<notin> set k"
    and noput: "\<forall>a \<in> set (accesses_of cs). \<not> is_put_of (strip k) a"
    and few: "card (access_key ` set (accesses_of cs) - {strip k}) < ccap (store s)"
  shows "fst (exec t' (get_line k) (serve exec cs (snd (exec t (set_line k v) s)))) = strip v"
proof -
  let ?s = "snd (exec t (set_line k v) s)"
  have "store ?s = cput (store s) (strip k) (strip v)"
    using exec_store [OF command_set_line [OF k]] by simp
  then have "fst (cget (store (serve exec cs ?s)) (strip k)) = Some (strip v)"
    using put_survives [OF wf noput few, of "strip v"] by (simp add: serve_store)
  then show ?thesis by (rule exec_hit [OF command_get_line])
qed

end

end
