(* ===== verification/L1_Cache.thy ===== *)
theory L1_Cache
  imports Cache_Protocol
begin

text \<open>
  The L1 cache server (\<^verbatim>\<open>caches/l1_cache.py\<close>): its \<^verbatim>\<open>LRUCache\<close> class over an ordered
  dictionary, the command interpreter \<^verbatim>\<open>process_command\<close> and the per-connection loop
  \<^verbatim>\<open>handle_client\<close>. The class is an interpretation of \<open>lru_store\<close> and the interpreter one
  of \<open>cache_server\<close>.
\<close>

section \<open>class LRUCache\<close>

record l1_lru =
  capacity :: nat
  cache :: "(string, string) dict"

definition l1_init :: "nat \<Rightarrow> l1_lru" where
  "l1_init cap = \<lparr>capacity = cap, cache = []\<rparr>"

definition l1_get :: "l1_lru \<Rightarrow> string \<Rightarrow> string option \<times> l1_lru" where
  "l1_get c key =
     (if key \<notin> set (dkeys (cache c)) then (None, c)
      else let c' = c\<lparr>cache := move_to_end key (cache c)\<rparr> in (map_of (cache c') key, c'))"

definition l1_set :: "l1_lru \<Rightarrow> string \<Rightarrow> string \<Rightarrow> l1_lru" where
  "l1_set c key val =
     (let d1 = (if key \<in> set (dkeys (cache c)) then move_to_end key (cache c) else cache c);
          d2 = dset key val d1;
          d3 = (if length d2 > capacity c then tl d2 else d2)
      in c\<lparr>cache := d3\<rparr>)"

definition l1_len :: "l1_lru \<Rightarrow> nat" where
  "l1_len c = length (cache c)"

text \<open>The module's one cache object.\<close>

definition L1_CACHE :: l1_lru where
  "L1_CACHE = l1_init 50000"

section \<open>Commands and connections\<close>

definition l1_process_command :: "string \<Rightarrow> l1_lru \<Rightarrow> string \<times> l1_lru" where
  "l1_process_command line c =
     (if line = [] then (''ERROR'', c)
      else let up = upper line in
        if startswith up ''GET;'' then
          let key = strip (drop 4 line); (val, c') = l1_get c key
          in ((case val of Some v \<Rightarrow> v | None \<Rightarrow> ''N/A''), c')
        else if startswith up ''SET;'' then
          (case split_max semi 2 line of
             [_, key, val] \<Rightarrow> (''OK'', l1_set c (strip key) (strip val))
           | _ \<Rightarrow> (''ERROR'', c))
        else (''ERROR'', c))"

fun l1_handle_client :: "conn_event list \<Rightarrow> l1_lru \<Rightarrow> string list \<times> l1_lru" where
  "l1_handle_client [] c = ([], c)"
| "l1_handle_client (RecvError e # es) c = ([], c)"
| "l1_handle_client (Recv data ok # es) c =
     (if data = [] then ([], c)
      else let (response, c') = l1_process_command (rstrip data) c
        in if ok then let (rs, c'') = l1_handle_client es c' in ((response @ [NL]) # rs, c'')
           else ([], c'))"

section \<open>The class is a least-recently-used store\<close>

definition l1_wf :: "l1_lru \<Rightarrow> bool" where
  "l1_wf c \<longleftrightarrow> distinct (dkeys (cache c)) \<and> length (cache c) \<le> capacity c"

lemma l1_wf_init: "l1_wf (l1_init n)"
  by (simp add: l1_wf_def l1_init_def)

lemma l1_set_cache: "l1_wf c \<Longrightarrow> cache (l1_set c k v) = lastN (capacity c) (touch k v (cache c))"
  using evict_lastN [of "cache c" "capacity c" k v]
  by (simp only: l1_set_def l1_wf_def dset_moved Let_def) simp

lemma l1_get_hit:
  "map_of (cache c) k = Some v \<Longrightarrow> l1_get c k = (Some v, c\<lparr>cache := touch k v (cache c)\<rparr>)"
  using in_dkeys_map_of [of k "cache c"]
  by (simp add: l1_get_def Let_def move_to_end_touch map_of_touch)

lemma l1_get_miss: "map_of (cache c) k = None \<Longrightarrow> l1_get c k = (None, c)"
  using in_dkeys_map_of [of k "cache c"] by (simp add: l1_get_def)

interpretation l1: lru_store l1_get l1_set cache capacity l1_wf
proof
  fix c :: l1_lru and k v
  assume wf: "l1_wf c"
  show "distinct (dkeys (cache c))" and "length (cache c) \<le> capacity c"
    using wf by (simp_all add: l1_wf_def)
  show "fst (l1_get c k) = map_of (cache c) k"
    by (cases "map_of (cache c) k") (simp_all add: l1_get_hit l1_get_miss)
  show "cache (snd (l1_get c k)) =
      (case map_of (cache c) k of None \<Rightarrow> cache c | Some v \<Rightarrow> touch k v (cache c))"
    by (cases "map_of (cache c) k") (simp_all add: l1_get_hit l1_get_miss)
  show put: "cache (l1_set c k v) = lastN (capacity c) (touch k v (cache c))"
    using wf by (rule l1_set_cache)
  have "k \<in> fst ` set (cache c)" if "map_of (cache c) k = Some w" for w
    using that by (force dest: map_of_SomeD)
  then show "l1_wf (snd (l1_get c k))"
    using wf by (cases "map_of (cache c) k")
      (auto simp: l1_get_hit l1_get_miss l1_wf_def distinct_touch length_touch)
  show "l1_wf (l1_set c k v)"
    using wf put by (simp add: l1_wf_def distinct_lastN distinct_touch l1_set_def Let_def)
next
  fix c :: l1_lru and k v
  show "capacity (snd (l1_get c k)) = capacity c"
    by (cases "map_of (cache c) k") (simp_all add: l1_get_hit l1_get_miss)
  show "capacity (l1_set c k v) = capacity c"
    by (simp add: l1_set_def Let_def)
qed

interpretation l1s: cache_server l1_get l1_set cache capacity l1_wf
  "\<lambda>t. l1_process_command" "\<lambda>c. c"
proof
  fix line k v s a
  show "l1_process_command line s = (''ERROR'', s)" if "cache_command line = None"
    using that by (auto simp: cache_command_def l1_process_command_def split: if_splits list.splits)
  show "fst (l1_process_command line s) = ''OK''" if "cache_command line = Some (Put k v)"
    using that by (auto simp: cache_command_def l1_process_command_def Let_def startswith_def upper_def
        split: if_splits list.splits)
  show "fst (l1_process_command line s) = v"
    if "cache_command line = Some (Get k)" "fst (l1_get s k) = Some v"
    using that by (auto simp: cache_command_def l1_process_command_def Let_def startswith_def upper_def
        split: if_splits list.splits prod.splits)
  show "snd (l1_process_command line s) = run_accesses l1_get l1_set s [a]"
    if "cache_command line = Some a"
    using that by (auto simp: cache_command_def l1_process_command_def Let_def startswith_def upper_def
        split: if_splits list.splits prod.splits)
qed

section \<open>Properties\<close>

lemma l1_handle_client_serve:
  "snd (l1_handle_client es c) =
     serve (\<lambda>t. l1_process_command) (map (\<lambda>l. (0, l)) (conn_lines es)) c"
  by (induction es c rule: l1_handle_client.induct) (auto simp: Let_def split: prod.splits)

lemma l1_handle_client_wf: "l1_wf c \<Longrightarrow> l1_wf (snd (l1_handle_client es c))"
  by (simp add: l1_handle_client_serve l1s.serve_wf)

lemma l1_handle_client_capacity: "capacity (snd (l1_handle_client es c)) = capacity c"
  by (simp add: l1_handle_client_serve l1s.serve_store l1.run_cap)

text \<open>
  The L1 cache implements the least-recently-used specification. After any sequence of
  gets and sets on a new cache of capacity \<open>n\<close>, its contents, in order, are the last \<open>n\<close>
  entries of the recency list that never forgets: each key with the value it was last used
  with, ordered by last use (a set, or a get that hit).
\<close>

theorem l1_refines_recency:
  "cache (run_accesses l1_get l1_set (l1_init n) as) =
     lastN n (recency (uses l1_get l1_set (l1_init n) as) [])"
  using l1.run_refines [OF l1_wf_init, of n "[]" as]
  by (simp add: l1_init_def lastN_def)

text \<open>
  A value that was set stays readable until at least as many other keys as the capacity
  have been accessed: after \<open>set k v\<close> and any accesses without another set of \<open>k\<close> that
  touch fewer than \<open>capacity\<close> other keys, \<open>get k\<close> returns \<open>v\<close>.
\<close>

theorem l1_value_survives:
  assumes "l1_wf c" and "\<forall>a \<in> set as. \<not> is_put_of k a"
    and "card (access_key ` set as - {k}) < capacity c"
  shows "fst (l1_get (run_accesses l1_get l1_set (l1_set c k v) as) k) = Some v"
  using assms by (rule l1.put_survives)

theorem l1_value_survives_witness:
  "fst (l1_get (run_accesses l1_get l1_set (l1_set (l1_init 2) ''a'' ''1'')
      [Put ''b'' ''2'', Get ''a'', Get ''b'']) ''a'') = Some ''1''"
proof (rule l1_value_survives [OF l1_wf_init])
  show "card (access_key ` set [Put ''b'' ''2'', Get ''a'', Get ''b''] - {''a''}) < capacity (l1_init 2)"
    by code_simp
qed simp

text \<open>
  The server keeps the class invariant on any traffic: whatever lines, undecodable input
  or failing replies the connections bring, one connection after the other, the cache has
  distinct keys and at most 50000 entries.
\<close>

theorem l1_server_bounded:
  "let c = fold (\<lambda>es c. snd (l1_handle_client es c)) conns L1_CACHE
   in distinct (dkeys (cache c)) \<and> l1_len c \<le> 50000"
proof -
  let ?run = "\<lambda>c. fold (\<lambda>es c. snd (l1_handle_client es c)) conns c"
  have "l1_wf c \<Longrightarrow> l1_wf (?run c) \<and> capacity (?run c) = capacity c" for c
    by (induction conns arbitrary: c) (simp_all add: l1_handle_client_wf l1_handle_client_capacity)
  then have "l1_wf (?run L1_CACHE)" and "capacity (?run L1_CACHE) = 50000"
    by (simp_all add: L1_CACHE_def l1_wf_init) (simp add: l1_init_def)
  then show ?thesis by (simp add: Let_def l1_wf_def l1_len_def)
qed

text \<open>
  Round trip through the text protocol. After the command \<^verbatim>\<open>SET;k;v\<close>, for a key without
  semicolon, and any further commands that do not set \<open>k\<close> and mention fewer other keys than
  the capacity, the command \<^verbatim>\<open>GET;k\<close> answers \<open>v\<close>, trimmed.
\<close>

theorem l1_set_then_get:
  assumes "l1_wf c" and "semi \<notin> set k"
    and "\<forall>a \<in> set (accesses_of cs). \<not> is_put_of (strip k) a"
    and "card (access_key ` set (accesses_of cs) - {strip k}) < capacity c"
  shows "fst (l1_process_command (get_line k)
      (serve (\<lambda>t. l1_process_command) cs (snd (l1_process_command (set_line k v) c)))) = strip v"
  using assms by (rule l1s.set_get)

theorem l1_set_then_get_witness:
  "fst (l1_process_command (get_line ''a.com'')
      (serve (\<lambda>t. l1_process_command) [(0, ''get;b.com''), (0, ''nonsense'')]
        (snd (l1_process_command (set_line ''a.com'' ''1.2.3.4;x'') (l1_init 2))))) = strip ''1.2.3.4;x''"
proof (rule l1_set_then_get [OF l1_wf_init])
  have "cache_command ''get;b.com'' = Some (Get ''b.com'')" "cache_command ''nonsense'' = None"
    by code_simp+
  then have acc: "accesses_of [(0, ''get;b.com''), (0, ''nonsense'')] = [Get ''b.com'']"
    by simp
  show "\<forall>a \<in> set (accesses_of [(0, ''get;b.com''), (0, ''nonsense'')]). \<not> is_put_of (strip ''a.com'') a"
    unfolding acc by simp
  show "card (access_key ` set (accesses_of [(0, ''get;b.com''), (0, ''nonsense'')]) - {strip ''a.com''})
      < capacity (l1_init 2)"
    unfolding acc by code_simp
qed simp

text \<open>
  Error path of the command interpreter. A line that is neither \<^verbatim>\<open>GET;\<close> nor a
  \<^verbatim>\<open>SET;\<close> with both fields (in any letter case) is answered \<^verbatim>\<open>ERROR\<close> and changes
  nothing; on every other line the answer is \<^verbatim>\<open>OK\<close> for a set, and for a get the cached value
  or \<^verbatim>\<open>N/A\<close>.
\<close>

theorem l1_process_command_cases:
  "l1_process_command line c =
     (case cache_command line of
        None \<Rightarrow> (''ERROR'', c)
      | Some (Put k v) \<Rightarrow> (''OK'', l1_set c k v)
      | Some (Get k) \<Rightarrow>
          (case map_of (cache c) k of
             Some v \<Rightarrow> (v, c\<lparr>cache := touch k v (cache c)\<rparr>)
           | None \<Rightarrow> (''N/A'', c)))"
proof (cases "cache_command line")
  case None
  then show ?thesis by (simp add: l1s.exec_bad)
next
  case (Some a)
  note out = l1s.exec_store [OF Some, of c]
  show ?thesis
  proof (cases a)
    case (Put k v)
    with Some out show ?thesis by (simp add: l1s.exec_put prod_eq_iff)
  next
    case (Get k)
    with Some have line: "line \<noteq> []" "startswith (upper line) ''GET;''" "k = strip (drop 4 line)"
      by (auto simp: cache_command_def startswith_def upper_def split: if_splits list.splits)
    with Some Get show ?thesis
      by (cases "map_of (cache c) k")
        (simp_all add: l1_process_command_def Let_def l1_get_hit l1_get_miss)
  qed
qed

text \<open>
  The connection loop answers every line it reads with exactly one line, in order, until
  a read or a reply fails: on a connection whose reads and replies all succeed, the number of
  replies is the number of lines read, and every reply ends with a line feed.
\<close>

theorem l1_one_reply_per_line:
  assumes "\<forall>e \<in> set es. \<exists>d. e = Recv d True \<and> d \<noteq> []"
  shows "length (fst (l1_handle_client es c)) = length es
    \<and> (\<forall>r \<in> set (fst (l1_handle_client es c)). last r = NL)"
  using assms
proof (induction es arbitrary: c)
  case (Cons e es)
  then obtain d where e: "e = Recv d True" "d \<noteq> []" by auto
  obtain r c' where p: "l1_process_command (rstrip d) c = (r, c')" by fastforce
  from Cons.IH [of c'] Cons.prems show ?case
    by (auto simp: e p split: prod.splits)
qed simp

theorem l1_one_reply_per_line_witness:
  "length (fst (l1_handle_client [Recv (set_line ''a'' ''1'' @ [NL]) True, Recv (get_line ''a'') True]
     L1_CACHE)) = 2"
  using l1_one_reply_per_line
    [of "[Recv (set_line ''a'' ''1'' @ [NL]) True, Recv (get_line ''a'') True]" L1_CACHE]
  by (simp add: set_line_def get_line_def)

end
