(* ===== verification/L2_Cache.thy ===== *)
theory L2_Cache
  imports Cache_Protocol
begin

text \<open>
  The L2 cache server (\<^verbatim>\<open>caches/l2_cache.py\<close>): its own \<^verbatim>\<open>LRUCache\<close> class, the lease table
  that lets one client at a time fetch a missing key, the command interpreter and the
  connection loop. The clock reading of \<^verbatim>\<open>time.monotonic()\<close> is an argument of the
  interpreter. The class interprets \<open>lru_store\<close>, the interpreter \<open>cache_server\<close>.
\<close>

section \<open>class LRUCache\<close>

record l2_lru =
  l2_capacity :: nat
  l2_cache :: "(string, string) dict"

definition l2_init :: "nat \<Rightarrow> l2_lru" where
  "l2_init cap = \<lparr>l2_capacity = cap, l2_cache = []\<rparr>"

definition l2_get :: "l2_lru \<Rightarrow> string \<Rightarrow> string option \<times> l2_lru" where
  "l2_get c key =
     (if key \<notin> set (dkeys (l2_cache c)) then (None, c)
      else let c' = c\<lparr>l2_cache := move_to_end key (l2_cache c)\<rparr> in (map_of (l2_cache c') key, c'))"

definition l2_set :: "l2_lru \<Rightarrow> string \<Rightarrow> string \<Rightarrow> l2_lru" where
  "l2_set c key val =
     (let d1 = (if key \<in> set (dkeys (l2_cache c)) then move_to_end key (l2_cache c) else l2_cache c);
          d2 = dset key val d1;
          d3 = (if length d2 > l2_capacity c then tl d2 else d2)
      in c\<lparr>l2_cache := d3\<rparr>)"

definition l2_len :: "l2_lru \<Rightarrow> nat" where
  "l2_len c = length (l2_cache c)"

section \<open>Leases, commands and connections\<close>

definition LEASE_TTL_SECONDS :: time where
  "LEASE_TTL_SECONDS = 5"

record l2_server =
  l2_CACHE :: l2_lru
  lease_map :: "string \<rightharpoonup> time"

definition L2_START :: l2_server where
  "L2_START = \<lparr>l2_CACHE = l2_init 100000, lease_map = Map.empty\<rparr>"

definition l2_process_command :: "time \<Rightarrow> string \<Rightarrow> l2_server \<Rightarrow> string \<times> l2_server" where
  "l2_process_command now line s =
     (if line = [] then (''ERROR'', s)
      else let up = upper line in
        if startswith up ''GET;'' then
          let key = strip (drop 4 line); (val, c') = l2_get (l2_CACHE s) key; s' = s\<lparr>l2_CACHE := c'\<rparr>
          in (case val of
                Some v \<Rightarrow> (v, s'\<lparr>lease_map := (lease_map s')(key := None)\<rparr>)
              | None \<Rightarrow>
                  if (case lease_map s' key of None \<Rightarrow> True | Some t0 \<Rightarrow> now - t0 > LEASE_TTL_SECONDS)
                  then (''LEASE;GRANTED'', s'\<lparr>lease_map := (lease_map s')(key \<mapsto> now)\<rparr>)
                  else (''LEASE;WAITING'', s'))
        else if startswith up ''SET;'' then
          (case split_max semi 2 line of
             [_, key, val] \<Rightarrow>
               (''OK'', s\<lparr>l2_CACHE := l2_set (l2_CACHE s) (strip key) (strip val),
                         lease_map := (lease_map s)(strip key := None)\<rparr>)
           | _ \<Rightarrow> (''ERROR'', s))
        else (''ERROR'', s))"

text \<open>Each event of a connection carries the clock reading at which its line is executed.\<close>

fun l2_handle_client :: "(time \<times> conn_event) list \<Rightarrow> l2_server \<Rightarrow> string list \<times> l2_server" where
  "l2_handle_client [] s = ([], s)"
| "l2_handle_client ((t, RecvError e) # es) s = ([], s)"
| "l2_handle_client ((t, Recv data ok) # es) s =
     (if data = [] then ([], s)
      else let (response, s') = l2_process_command t (rstrip data) s
        in if ok then let (rs, s'') = l2_handle_client es s' in ((response @ [NL]) # rs, s'')
           else ([], s'))"

section \<open>The class is a least-recently-used store\<close>

definition l2_wf :: "l2_lru \<Rightarrow> bool" where
  "l2_wf c \<longleftrightarrow> distinct (dkeys (l2_cache c)) \<and> length (l2_cache c) \<le> l2_capacity c"

lemma l2_wf_init: "l2_wf (l2_init n)"
  by (simp add: l2_wf_def l2_init_def)

lemma l2_set_cache:
  "l2_wf c \<Longrightarrow> l2_cache (l2_set c k v) = lastN (l2_capacity c) (touch k v (l2_cache c))"
  using evict_lastN [of "l2_cache c" "l2_capacity c" k v]
  by (simp only: l2_set_def l2_wf_def dset_moved Let_def) simp

lemma l2_get_hit:
  "map_of (l2_cache c) k = Some v \<Longrightarrow> l2_get c k = (Some v, c\<lparr>l2_cache := touch k v (l2_cache c)\<rparr>)"
  using in_dkeys_map_of [of k "l2_cache c"]
  by (simp add: l2_get_def Let_def move_to_end_touch map_of_touch)

lemma l2_get_miss: "map_of (l2_cache c) k = None \<Longrightarrow> l2_get c k = (None, c)"
  using in_dkeys_map_of [of k "l2_cache c"] by (simp add: l2_get_def)

interpretation l2: lru_store l2_get l2_set l2_cache l2_capacity l2_wf
proof
  fix c :: l2_lru and k v
  assume wf: "l2_wf c"
  show "distinct (dkeys (l2_cache c))" and "length (l2_cache c) \<le> l2_capacity c"
    using wf by (simp_all add: l2_wf_def)
  show "fst (l2_get c k) = map_of (l2_cache c) k"
    by (cases "map_of (l2_cache c) k") (simp_all add: l2_get_hit l2_get_miss)
  show "l2_cache (snd (l2_get c k)) =
      (case map_of (l2_cache c) k of None \<Rightarrow> l2_cache c | Some v \<Rightarrow> touch k v (l2_cache c))"
    by (cases "map_of (l2_cache c) k") (simp_all add: l2_get_hit l2_get_miss)
  show put: "l2_cache (l2_set c k v) = lastN (l2_capacity c) (touch k v (l2_cache c))"
    using wf by (rule l2_set_cache)
  have "k \<in> fst ` set (l2_cache c)" if "map_of (l2_cache c) k = Some w" for w
    using that by (force dest: map_of_SomeD)
  then show "l2_wf (snd (l2_get c k))"
    using wf by (cases "map_of (l2_cache c) k")
      (auto simp: l2_get_hit l2_get_miss l2_wf_def distinct_touch length_touch)
  show "l2_wf (l2_set c k v)"
    using wf put by (simp add: l2_wf_def distinct_lastN distinct_touch l2_set_def Let_def)
next
  fix c :: l2_lru and k v
  show "l2_capacity (snd (l2_get c k)) = l2_capacity c"
    by (cases "map_of (l2_cache c) k") (simp_all add: l2_get_hit l2_get_miss)
  show "l2_capacity (l2_set c k v) = l2_capacity c"
    by (simp add: l2_set_def Let_def)
qed

text \<open>What a line does, by the access it denotes.\<close>

lemma l2_exec_bad: "cache_command line = None \<Longrightarrow> l2_process_command t line s = (''ERROR'', s)"
  by (auto simp: cache_command_def l2_process_command_def split: if_splits list.splits)

lemma l2_exec_put:
  "cache_command line = Some (Put k v) \<Longrightarrow> l2_process_command t line s =
     (''OK'', s\<lparr>l2_CACHE := l2_set (l2_CACHE s) k v, lease_map := (lease_map s)(k := None)\<rparr>)"
  by (auto simp: cache_command_def l2_process_command_def Let_def startswith_def upper_def
      split: if_splits list.splits)

lemma l2_exec_get:
  assumes "cache_command line = Some (Get k)"
  shows "l2_process_command t line s =
     (case map_of (l2_cache (l2_CACHE s)) k of
        Some v \<Rightarrow> (v, s\<lparr>l2_CACHE := (l2_CACHE s)\<lparr>l2_cache := touch k v (l2_cache (l2_CACHE s))\<rparr>,
                       lease_map := (lease_map s)(k := None)\<rparr>)
      | None \<Rightarrow>
          if (case lease_map s k of None \<Rightarrow> True | Some t0 \<Rightarrow> t - t0 > LEASE_TTL_SECONDS)
          then (''LEASE;GRANTED'', s\<lparr>lease_map := (lease_map s)(k \<mapsto> t)\<rparr>)
          else (''LEASE;WAITING'', s))"
proof -
  have "line \<noteq> []" "startswith (upper line) ''GET;''" "k = strip (drop 4 line)"
    using assms by (auto simp: cache_command_def startswith_def upper_def split: if_splits list.splits)
  then show ?thesis
    by (cases "map_of (l2_cache (l2_CACHE s)) k")
      (simp_all add: l2_process_command_def Let_def l2_get_hit l2_get_miss)
qed

interpretation l2s: cache_server l2_get l2_set l2_cache l2_capacity l2_wf
  l2_process_command l2_CACHE
proof
  fix line t s k v a
  show "l2_process_command t line s = (''ERROR'', s)" if "cache_command line = None"
    using that by (rule l2_exec_bad)
  show "fst (l2_process_command t line s) = ''OK''" if "cache_command line = Some (Put k v)"
    using that by (simp add: l2_exec_put)
  show "fst (l2_process_command t line s) = v"
    if "cache_command line = Some (Get k)" "fst (l2_get (l2_CACHE s) k) = Some v"
    using that by (cases "map_of (l2_cache (l2_CACHE s)) k")
      (simp_all add: l2_exec_get l2_get_hit l2_get_miss)
  show "l2_CACHE (snd (l2_process_command t line s)) = run_accesses l2_get l2_set (l2_CACHE s) [a]"
    if "cache_command line = Some a"
  proof (cases a)
    case (Get k')
    with that show ?thesis
      by (cases "map_of (l2_cache (l2_CACHE s)) k'") (simp_all add: l2_exec_get l2_get_hit l2_get_miss)
  qed (use that in \<open>simp add: l2_exec_put\<close>)
qed

section \<open>Leases\<close>

text \<open>A key is never cached and leased at the same time.\<close>

definition l2_inv :: "l2_server \<Rightarrow> bool" where
  "l2_inv s \<longleftrightarrow> l2_wf (l2_CACHE s) \<and>
     (\<forall>k. lease_map s k \<noteq> None \<longrightarrow> map_of (l2_cache (l2_CACHE s)) k = None)"

lemma l2_inv_START: "l2_inv L2_START"
  by (simp add: l2_inv_def L2_START_def l2_wf_init)

lemma l2_step_inv:
  assumes "l2_inv s"
  shows "l2_inv (snd (l2_process_command t line s))"
proof (cases "cache_command line")
  case None
  then show ?thesis using assms by (simp add: l2_exec_bad)
next
  case (Some a)
  have wf: "l2_wf (l2_CACHE s)" using assms by (simp add: l2_inv_def)
  show ?thesis
  proof (cases a)
    case (Put k v)
    with Some assms show ?thesis
      by (auto simp: l2_inv_def l2_exec_put l2.put_wf intro: l2.put_absent)
  next
    case (Get k)
    show ?thesis
    proof (cases "map_of (l2_cache (l2_CACHE s)) k")
      case None
      with Some Get assms show ?thesis by (auto simp: l2_inv_def l2_exec_get)
    next
      case hit: (Some v)
      have "l2_wf ((l2_CACHE s)\<lparr>l2_cache := touch k v (l2_cache (l2_CACHE s))\<rparr>)"
        using l2.get_wf [OF wf, of k] by (simp add: l2_get_hit hit)
      with Some Get hit assms show ?thesis by (auto simp: l2_inv_def l2_exec_get map_of_touch)
    qed
  qed
qed

lemma l2_serve_inv: "l2_inv s \<Longrightarrow> l2_inv (serve l2_process_command cs s)"
proof (induction cs arbitrary: s)
  case (Cons c cs)
  obtain t line where c: "c = (t, line)" by (cases c)
  have "l2_inv (snd (l2_process_command t line s))" using Cons.prems by (rule l2_step_inv)
  then show ?case by (simp add: c Cons.IH)
qed simp

text \<open>
  The times at which a sequence of timed commands grants a lease on \<open>k\<close>: a read of the key
  that misses and is answered \<^verbatim>\<open>LEASE;GRANTED\<close>.
\<close>

definition is_grant :: "string \<Rightarrow> time \<Rightarrow> string \<Rightarrow> l2_server \<Rightarrow> bool" where
  "is_grant k t line s \<longleftrightarrow>
     cache_command line = Some (Get k) \<and> map_of (l2_cache (l2_CACHE s)) k = None
     \<and> fst (l2_process_command t line s) = ''LEASE;GRANTED''"

fun grants :: "string \<Rightarrow> (time \<times> string) list \<Rightarrow> l2_server \<Rightarrow> time list" where
  "grants k [] s = []"
| "grants k ((t, line) # cs) s =
     (if is_grant k t line s then [t] else []) @ grants k cs (snd (l2_process_command t line s))"

text \<open>The moment the current lease on a missing key stops, if one is held.\<close>

definition free_at :: "string \<Rightarrow> time \<Rightarrow> l2_server \<Rightarrow> bool" where
  "free_at k t s \<longleftrightarrow> (case lease_map s k of None \<Rightarrow> True | Some t0 \<Rightarrow> t - t0 > LEASE_TTL_SECONDS)"

lemma is_grant_free:
  "is_grant k t line s \<Longrightarrow> free_at k t s \<and> lease_map (snd (l2_process_command t line s)) k = Some t"
  by (auto simp: is_grant_def free_at_def l2_exec_get split: if_splits option.splits)

lemma lease_unchanged:
  assumes "l2_inv s" and "map_of (l2_cache (l2_CACHE s)) k = None"
    and "\<not> is_grant k t line s" and "\<forall>a. cache_command line = Some a \<longrightarrow> \<not> is_put_of k a"
  shows "lease_map (snd (l2_process_command t line s)) k = lease_map s k"
proof (cases "cache_command line")
  case None
  then show ?thesis by (simp add: l2_exec_bad)
next
  case (Some a)
  show ?thesis
  proof (cases a)
    case (Put k' v)
    with Some assms(4) show ?thesis by (simp add: l2_exec_put)
  next
    case (Get k')
    with Some assms(2,3) show ?thesis
      by (cases "k' = k"; cases "map_of (l2_cache (l2_CACHE s)) k'")
        (auto simp: l2_exec_get is_grant_def split: if_splits)
  qed
qed

lemma absent_step:
  assumes "l2_inv s" and "map_of (l2_cache (l2_CACHE s)) k = None"
    and "\<forall>a. cache_command line = Some a \<longrightarrow> \<not> is_put_of k a"
  shows "map_of (l2_cache (l2_CACHE (snd (l2_process_command t line s)))) k = None"
  using assms l2.run_absent [of "l2_CACHE s" k] l2s.exec_store [of line _ t s]
  by (cases "cache_command line") (auto simp: l2_exec_bad l2_inv_def simp del: run_accesses.simps)

lemma lease_kept:
  assumes "l2_inv s" and "map_of (l2_cache (l2_CACHE s)) k = None" and "lease_map s k = Some t0"
    and "\<forall>a \<in> set (accesses_of cs). \<not> is_put_of k a" and "\<forall>(u, line) \<in> set cs. u \<le> t0 + 5"
  shows "map_of (l2_cache (l2_CACHE (serve l2_process_command cs s))) k = None
    \<and> lease_map (serve l2_process_command cs s) k = Some t0"
  using assms
proof (induction cs arbitrary: s)
  case (Cons c cs)
  obtain t line where c: "c = (t, line)" by (cases c)
  let ?s = "snd (l2_process_command t line s)"
  have noput: "\<forall>a. cache_command line = Some a \<longrightarrow> \<not> is_put_of k a"
    using Cons.prems(4) by (auto simp: c)
  have "\<not> is_grant k t line s"
    using Cons.prems(3,5) is_grant_free by (fastforce simp: c free_at_def LEASE_TTL_SECONDS_def)
  then have "lease_map ?s k = Some t0"
    using lease_unchanged [OF Cons.prems(1,2) _ noput] Cons.prems(3) by simp
  moreover note absent_step [OF Cons.prems(1,2) noput, of t] l2_step_inv [OF Cons.prems(1)]
  ultimately show ?case
    using Cons.prems(4,5) Cons.IH [of ?s] by (simp add: c split: option.splits)
qed simp

lemma grants_spaced:
  assumes "l2_inv s" and "map_of (l2_cache (l2_CACHE s)) k = None"
    and "\<forall>a \<in> set (accesses_of cs). \<not> is_put_of k a"
  shows "sorted_wrt (\<lambda>a b. b - a > LEASE_TTL_SECONDS) (grants k cs s)
    \<and> (\<forall>t0. lease_map s k = Some t0 \<longrightarrow> (\<forall>g \<in> set (grants k cs s). g - t0 > LEASE_TTL_SECONDS))"
  using assms
proof (induction cs arbitrary: s)
  case (Cons c cs)
  obtain t line where c: "c = (t, line)" by (cases c)
  let ?s = "snd (l2_process_command t line s)"
  have noput: "\<forall>a. cache_command line = Some a \<longrightarrow> \<not> is_put_of k a"
    using Cons.prems(3) by (auto simp: c)
  have absent: "map_of (l2_cache (l2_CACHE ?s)) k = None"
    using Cons.prems(1,2) noput by (rule absent_step)
  have IH: "sorted_wrt (\<lambda>a b. b - a > LEASE_TTL_SECONDS) (grants k cs ?s)
    \<and> (\<forall>t0. lease_map ?s k = Some t0 \<longrightarrow> (\<forall>g \<in> set (grants k cs ?s). g - t0 > LEASE_TTL_SECONDS))"
    using Cons.prems absent by (intro Cons.IH) (auto simp: c l2_step_inv split: option.splits)
  show ?case
  proof (cases "is_grant k t line s")
    case True
    from is_grant_free [OF True] IH show ?thesis
      by (fastforce simp: c True free_at_def LEASE_TTL_SECONDS_def)
  next
    case False
    with IH lease_unchanged [OF Cons.prems(1,2) False noput] show ?thesis
      by (simp add: c)
  qed
qed simp

section \<open>Properties\<close>

lemma l2_handle_client_inv: "l2_inv s \<Longrightarrow> l2_inv (snd (l2_handle_client es s))"
  using l2_step_inv
  by (induction es s rule: l2_handle_client.induct) (auto simp: Let_def split: prod.splits, (metis snd_conv)+)

text \<open>
  No thundering herd. On a key that is not cached, over any sequence of timed commands
  that does not set the key (other clients may read and set anything else, malformed lines
  included), any two leases granted on it are more than \<^verbatim>\<open>LEASE_TTL_SECONDS\<close> apart.
\<close>

theorem l2_leases_spaced:
  assumes "l2_inv s" and "map_of (l2_cache (l2_CACHE s)) k = None"
    and "\<forall>a \<in> set (accesses_of cs). \<not> is_put_of k a"
  shows "sorted_wrt (\<lambda>a b. b - a > LEASE_TTL_SECONDS) (grants k cs s)"
  using grants_spaced [OF assms] by simp

theorem l2_leases_spaced_witness:
  "sorted_wrt (\<lambda>a b. b - a > LEASE_TTL_SECONDS)
     (grants ''a'' [(0, ''GET;a''), (3, ''GET;a''), (6, ''GET;a'')] L2_START)
   \<and> grants ''a'' [(0, ''GET;a''), (3, ''GET;a''), (6, ''GET;a'')] L2_START = [0, 6]"
proof
  have g: "cache_command ''GET;a'' = Some (Get ''a'')" by code_simp
  show "sorted_wrt (\<lambda>a b. b - a > LEASE_TTL_SECONDS)
     (grants ''a'' [(0, ''GET;a''), (3, ''GET;a''), (6, ''GET;a'')] L2_START)"
  proof (rule l2_leases_spaced [OF l2_inv_START])
    have acc: "accesses_of [(0, ''GET;a''), (3, ''GET;a''), (6, ''GET;a'')] = [Get ''a'', Get ''a'', Get ''a'']"
      using g by simp
    show "\<forall>a \<in> set (accesses_of [(0, ''GET;a''), (3, ''GET;a''), (6, ''GET;a'')]). \<not> is_put_of ''a'' a"
      unfolding acc by simp
  qed (simp add: L2_START_def l2_init_def)
  show "grants ''a'' [(0, ''GET;a''), (3, ''GET;a''), (6, ''GET;a'')] L2_START = [0, 6]"
    using g by (simp add: is_grant_def l2_exec_get L2_START_def l2_init_def LEASE_TTL_SECONDS_def)
qed

text \<open>
  While a lease is live every other reader waits, and an expired lease is taken over. Let
  a lease on the missing key \<open>k\<close> be held since \<open>t0\<close>, and let any commands follow, none of
  them a set of \<open>k\<close> and none later than \<open>t0 + 5\<close>. Then a read of \<open>k\<close> is answered
  \<^verbatim>\<open>LEASE;WAITING\<close> up to \<open>t0 + 5\<close> and \<^verbatim>\<open>LEASE;GRANTED\<close> after it.
\<close>

theorem l2_lease_lifecycle:
  assumes "l2_inv s" and "map_of (l2_cache (l2_CACHE s)) (strip k) = None"
    and "lease_map s (strip k) = Some t0"
    and "\<forall>a \<in> set (accesses_of cs). \<not> is_put_of (strip k) a" and "\<forall>(u, line) \<in> set cs. u \<le> t0 + 5"
  shows "fst (l2_process_command t (get_line k) (serve l2_process_command cs s)) =
    (if t \<le> t0 + 5 then ''LEASE;WAITING'' else ''LEASE;GRANTED'')"
  using lease_kept [OF assms]
  by (auto simp: l2_exec_get [OF command_get_line] LEASE_TTL_SECONDS_def)

theorem l2_lease_lifecycle_witness:
  "fst (l2_process_command 4 (get_line ''a'') (serve l2_process_command [(3, ''GET;a'')]
      (L2_START\<lparr>lease_map := [''a'' \<mapsto> 1]\<rparr>))) = (if (4::time) \<le> 1 + 5 then ''LEASE;WAITING'' else ''LEASE;GRANTED'')"
proof (rule l2_lease_lifecycle)
  have "cache_command ''GET;a'' = Some (Get ''a'')" by code_simp
  then have acc: "accesses_of [(3, ''GET;a'')] = [Get ''a'']" by simp
  show "\<forall>a \<in> set (accesses_of [(3, ''GET;a'')]). \<not> is_put_of (strip ''a'') a"
    unfolding acc by simp
  show "l2_inv (L2_START\<lparr>lease_map := [''a'' \<mapsto> 1]\<rparr>)"
    by (simp add: l2_inv_def L2_START_def l2_wf_init l2_init_def l2_wf_def)
qed (simp_all add: L2_START_def l2_init_def py_eval)

text \<open>
  The server keeps its invariant on any traffic: from the start state, whatever the
  connections send and at whatever times, the cache has distinct keys and at most 100000
  entries, and no key is leased while it is cached.
\<close>

theorem l2_server_invariant:
  "l2_inv (fold (\<lambda>es s. snd (l2_handle_client es s)) conns L2_START)"
proof -
  have "l2_inv s \<Longrightarrow> l2_inv (fold (\<lambda>es s. snd (l2_handle_client es s)) conns s)" for s
    by (induction conns arbitrary: s) (simp_all add: l2_handle_client_inv)
  then show ?thesis using l2_inv_START .
qed

text \<open>
  The lease holder's \<^verbatim>\<open>SET\<close> publishes the value. After \<^verbatim>\<open>SET;k;v\<close> (key without
  semicolon) the lease on \<open>k\<close> is gone, and after any further commands that do not set \<open>k\<close>
  and mention fewer other keys than the capacity, \<^verbatim>\<open>GET;k\<close> answers \<open>v\<close>, trimmed, at any
  time.
\<close>

theorem l2_set_publishes:
  assumes "l2_inv s" and "semi \<notin> set k"
    and "\<forall>a \<in> set (accesses_of cs). \<not> is_put_of (strip k) a"
    and "card (access_key ` set (accesses_of cs) - {strip k}) < l2_capacity (l2_CACHE s)"
  shows "lease_map (snd (l2_process_command t (set_line k v) s)) (strip k) = None
    \<and> fst (l2_process_command t' (get_line k)
        (serve l2_process_command cs (snd (l2_process_command t (set_line k v) s)))) = strip v"
  using l2s.set_get [of s k cs t' t v] assms
  by (simp add: l2_inv_def l2_exec_put [OF command_set_line])

theorem l2_set_publishes_witness:
  "lease_map (snd (l2_process_command 1 (set_line ''a.com'' ''1.2.3.4'') L2_START)) (strip ''a.com'') = None
    \<and> fst (l2_process_command 7 (get_line ''a.com'')
        (serve l2_process_command [(2, ''GET;b.com'')]
          (snd (l2_process_command 1 (set_line ''a.com'' ''1.2.3.4'') L2_START)))) = strip ''1.2.3.4''"
proof (rule l2_set_publishes [OF l2_inv_START])
  have "cache_command ''GET;b.com'' = Some (Get ''b.com'')" by code_simp
  then have acc: "accesses_of [(2, ''GET;b.com'')] = [Get ''b.com'']" by simp
  show "\<forall>a \<in> set (accesses_of [(2, ''GET;b.com'')]). \<not> is_put_of (strip ''a.com'') a"
    unfolding acc by simp
  have "card (access_key ` set [Get ''b.com''] - {strip ''a.com''}) \<le> 1"
    by code_simp
  then show "card (access_key ` set (accesses_of [(2, ''GET;b.com'')]) - {strip ''a.com''})
      < l2_capacity (l2_CACHE L2_START)"
    unfolding acc by (simp add: L2_START_def l2_init_def)
qed simp

end
