(* ===== verification/Cache_Clients.thy ===== *)
theory Cache_Clients
  imports L1_Cache L2_Cache Sessions
begin

text \<open>
  The cache servers with all their clients (\<^verbatim>\<open>main\<close> of \<^verbatim>\<open>caches/l1_cache.py\<close> and
  \<^verbatim>\<open>caches/l2_cache.py\<close>): \<^verbatim>\<open>asyncio.start_server\<close> runs \<^verbatim>\<open>handle_client\<close> for every connection on one
  event loop. Between the read of a line and the write of its reply the handler does not give up
  control, so a line is handled as one step, and the clients interleave at the granularity of
  lines.
\<close>

section \<open>The loop body\<close>

definition cache_line :: "(time \<Rightarrow> string \<Rightarrow> 's \<Rightarrow> string \<times> 's) \<Rightarrow> (time, 's) line_handler" where
  "cache_line ex t e s =
     (case e of
        RecvError _ \<Rightarrow> (([], False), s)
      | Recv data ok \<Rightarrow>
          if data = [] then (([], False), s)
          else (case ex t (rstrip data) s of
                  (response, s') \<Rightarrow> if ok then (([response @ [NL]], True), s') else (([], False), s')))"

definition l1_line :: "(time, l1_lru) line_handler" where
  "l1_line = cache_line (\<lambda>t. l1_process_command)"

definition l2_line :: "(time, l2_server) line_handler" where
  "l2_line = cache_line l2_process_command"

text \<open>A connection that is alone runs the loop of \<^verbatim>\<open>handle_client\<close>.\<close>

lemma l1_handle_client_lines: "l1_handle_client es c = serve_conn l1_line (map (\<lambda>e. (t, e)) es) c"
  by (induction es c rule: l1_handle_client.induct)
    (auto simp: l1_line_def cache_line_def Let_def split: prod.splits)

lemma l2_handle_client_lines: "l2_handle_client es s = serve_conn l2_line es s"
  by (induction es s rule: l2_handle_client.induct)
    (auto simp: l2_line_def cache_line_def Let_def split: prod.splits)

definition l1_served :: "(time, l1_lru) conf \<Rightarrow> bool" where
  "l1_served c \<longleftrightarrow> reaches l1_line L1_CACHE c"

definition l2_served :: "(time, l2_server) conf \<Rightarrow> bool" where
  "l2_served c \<longleftrightarrow> reaches l2_line L2_START c"

section \<open>Traces as command sequences\<close>

fun line_cmds :: "time taken \<Rightarrow> (time \<times> string) list" where
  "line_cmds (i, t, Recv data ok) = (if data = [] then [] else [(t, rstrip data)])"
| "line_cmds (i, t, RecvError e) = []"

definition timed_cmds :: "time taken list \<Rightarrow> (time \<times> string) list" where
  "timed_cmds tr = concat (map line_cmds tr)"

lemma serve_append: "serve ex (cs @ cs') s = serve ex cs' (serve ex cs s)"
  by (induction ex cs s rule: serve.induct) simp_all

lemma cache_line_serve: "snd (cache_line ex t e s) = serve ex (line_cmds (i, t, e)) s"
  by (cases e) (simp_all add: cache_line_def split: prod.split)

lemma run_trace_serve: "run_trace (cache_line ex) tr s = serve ex (timed_cmds tr) s"
proof (induction tr arbitrary: s)
  case (Cons p tr)
  obtain i t e where p: "p = (i, t, e)" by (cases p)
  have "run_trace (cache_line ex) (p # tr) s = run_trace (cache_line ex) tr (snd (cache_line ex t e s))"
    by (simp add: run_trace_def p)
  also have "\<dots> = serve ex (timed_cmds tr) (serve ex (line_cmds (i, t, e)) s)"
    by (simp add: Cons cache_line_serve [of ex t e s i])
  finally show ?case by (simp add: timed_cmds_def p serve_append)
qed (simp add: timed_cmds_def)

context cache_server
begin

lemma trace_store:
  "store (run_trace (cache_line exec) tr s) = run_accesses cget cput (store s) (accesses_of (timed_cmds tr))"
  by (simp add: run_trace_serve serve_store)

end

interpretation l1_clients: shared_server l1_line l1_wf
proof
  fix s t e assume "l1_wf s"
  then show "l1_wf (snd (l1_line t e s))"
    by (simp add: l1_line_def cache_line_serve [of _ _ _ _ 0] l1s.serve_wf)
qed

interpretation l2_clients: shared_server l2_line l2_inv
proof
  fix s t e assume "l2_inv s"
  then show "l2_inv (snd (l2_line t e s))"
    by (simp add: l2_line_def cache_line_serve [of _ _ _ _ 0] l2_serve_inv)
qed

section \<open>Properties\<close>

text \<open>
  C32: the L1 server is a linearizable least-recently-used store of bounded size. Whatever clients
  connect and however their lines interleave, the cache holds distinct keys, at most 50000 of
  them, namely the most recently used ones over the gets and sets of all clients in the order in
  which the lines were taken up; and each client has been sent the replies to its own lines, in
  its order, as if the lines of all clients had come over one connection in that order.
\<close>

theorem l1_clients_linear:
  assumes "l1_served c"
  shows "cache (shared c) = lastN 50000 (recency (uses l1_get l1_set L1_CACHE (accesses_of (timed_cmds (trace c)))) [])
    \<and> distinct (dkeys (cache (shared c))) \<and> l1_len (shared c) \<le> 50000
    \<and> (\<forall>i < length (sessions c). input (sessions c ! i) = events_of i (trace c) @ unread (sessions c ! i)
          \<and> replies (sessions c ! i) = replies_to l1_line i (trace c) L1_CACHE)"
proof -
  note lin = linear [OF assms [unfolded l1_served_def]]
  have "shared c = run_accesses l1_get l1_set L1_CACHE (accesses_of (timed_cmds (trace c)))"
    using lin l1s.trace_store [of "trace c" L1_CACHE] by (simp add: l1_line_def)
  then have r: "cache (shared c) = lastN 50000 (recency (uses l1_get l1_set L1_CACHE (accesses_of (timed_cmds (trace c)))) [])"
    using l1.run_refines [OF l1_wf_init, of 50000 "[]"] by (simp add: L1_CACHE_def) (simp add: l1_init_def lastN_def)
  have "l1_wf (shared c)"
    using l1_clients.reaches_inv [OF assms [unfolded l1_served_def]] by (simp add: L1_CACHE_def l1_wf_init)
  then show ?thesis using r lin
    by (simp add: l1_wf_def l1_len_def session_linear_def)
qed

text \<open>Two clients on the L1 server: the second one's line overtakes the first one's second line.\<close>

definition example_conf :: "(time, l1_lru) conf" where
  "example_conf = \<lparr>shared = l1_set (l1_set L1_CACHE ''a'' ''1'') ''a'' ''2'',
     sessions = [\<lparr>input = [Recv ''SET;a;1'' True, Recv ''GET;a'' True], unread = [Recv ''GET;a'' True],
                  replies = [''OK'' @ [NL]], is_open = True\<rparr>,
                 \<lparr>input = [Recv ''SET;a;2'' True], unread = [], replies = [''OK'' @ [NL]], is_open = True\<rparr>],
     trace = [(0, 0, Recv ''SET;a;1'' True), (1, 0, Recv ''SET;a;2'' True)]\<rparr>"

lemma example_line:
  "l1_line 0 (Recv ''SET;a;1'' True) c = (([''OK'' @ [NL]], True), l1_set c ''a'' ''1'')"
  "l1_line 0 (Recv ''SET;a;2'' True) c = (([''OK'' @ [NL]], True), l1_set c ''a'' ''2'')"
proof -
  have "rstrip ''SET;a;1'' = ''SET;a;1''" "rstrip ''SET;a;2'' = ''SET;a;2''"
    "cache_command ''SET;a;1'' = Some (Put ''a'' ''1'')" "cache_command ''SET;a;2'' = Some (Put ''a'' ''2'')"
    by code_simp+
  then show "l1_line 0 (Recv ''SET;a;1'' True) c = (([''OK'' @ [NL]], True), l1_set c ''a'' ''1'')"
    "l1_line 0 (Recv ''SET;a;2'' True) c = (([''OK'' @ [NL]], True), l1_set c ''a'' ''2'')"
    using l1s.exec_put l1s.exec_store
    by (simp_all add: l1_line_def cache_line_def split: prod.split) (metis run_accesses.simps fst_conv snd_conv)+
qed

lemma example_conf_served: "l1_served example_conf"
proof -
  note first = reaches_first [of l1_line 0 _ L1_CACHE, OF example_line(1), of "[Recv ''GET;a'' True]"]
  show ?thesis
    unfolding l1_served_def
    by (rule reaches_lineI [OF reaches.accept [OF first, of "[Recv ''SET;a;2'' True]"], where i = 1])
      (simp_all add: example_line(2) example_conf_def new_session_def advance_def)
qed

theorem l1_clients_linear_witness: "l1_len (shared example_conf) \<le> 50000"
  using l1_clients_linear [OF example_conf_served] by simp

text \<open>
  C33: no thundering herd among concurrent clients. However the lines of any number of clients
  interleave on the L2 server, in every stretch of a run that begins with the key missing and in
  which nobody sets it, any two leases granted on the key are more than \<^verbatim>\<open>LEASE_TTL_SECONDS\<close>
  apart; and at every moment of every run no key is both cached and leased.
\<close>

theorem l2_clients_leases:
  assumes "l2_served c" and "trace c = tr1 @ tr2"
    and "map_of (l2_cache (l2_CACHE (run_trace l2_line tr1 L2_START))) k = None"
    and "\<forall>a \<in> set (accesses_of (timed_cmds tr2)). \<not> is_put_of k a"
  shows "sorted_wrt (\<lambda>a b. b - a > LEASE_TTL_SECONDS) (grants k (timed_cmds tr2) (run_trace l2_line tr1 L2_START))
    \<and> shared c = serve l2_process_command (timed_cmds tr2) (run_trace l2_line tr1 L2_START)
    \<and> l2_inv (shared c)"
proof -
  have i: "l2_inv (run_trace l2_line tr1 L2_START)" by (rule l2_clients.trace_keeps [OF l2_inv_START])
  have "shared c = run_trace l2_line tr2 (run_trace l2_line tr1 L2_START)"
    using linear [OF assms(1) [unfolded l2_served_def]] assms(2) by (simp add: run_trace_append)
  moreover have "l2_inv (shared c)"
    using l2_clients.reaches_inv [OF assms(1) [unfolded l2_served_def] l2_inv_START] .
  ultimately show ?thesis using grants_spaced [OF i assms(3,4)] by (simp add: l2_line_def run_trace_serve)
qed

theorem l2_clients_leases_witness:
  "\<exists>c. l2_served c \<and> trace c = [(0, 0, Recv ''GET;a'' True)]
     \<and> sorted_wrt (\<lambda>a b. b - a > LEASE_TTL_SECONDS) (grants ''a'' [(0, ''GET;a'')] L2_START)"
proof -
  obtain rs go s' where l: "l2_line 0 (Recv ''GET;a'' True) L2_START = ((rs, go), s')"
    by (metis prod.collapse)
  from reaches_first [of l2_line, OF l, of "[]"]
  obtain c where c: "l2_served c" "trace c = [(0, 0, Recv ''GET;a'' True)]"
    by (auto simp: l2_served_def)
  have cmds: "timed_cmds [(0, 0, Recv ''GET;a'' True)] = [(0, ''GET;a'')]" by code_simp
  have "cache_command ''GET;a'' = Some (Get ''a'')" by code_simp
  then have acc: "accesses_of [(0, ''GET;a'')] = [Get ''a'']" by simp
  have "map_of (l2_cache (l2_CACHE (run_trace l2_line [] L2_START))) ''a'' = None"
    by (simp add: L2_START_def l2_init_def)
  then show ?thesis
    using l2_clients_leases [OF c(1), of "[]" _ "''a''"] c acc cmds by auto
qed

end
