(* ===== verification/Process_Start.thy ===== *)
theory Process_Start
  imports Node_Threads Node_State_Dyn Cache_Clients
begin

text \<open>
  How the processes come up: the search for the own address (\<^verbatim>\<open>get_advertised_ip\<close> of both state
  classes), the whole of \<^verbatim>\<open>data_plane/main.py\<close> with the servers it starts (\<^verbatim>\<open>Server.start\<close> and the
  opening of the sockets in \<^verbatim>\<open>_serve\<close>), and the ports of the cache servers. What the operating system
  answers is an argument. A server whose socket cannot be opened ends with an exception in its own
  thread; the node goes on without it.
\<close>

section \<open>The own address\<close>

text \<open>The answers to opening a datagram socket, connecting it, and asking for its own name.\<close>

record udp_probe =
  open_fault :: "exn option"
  connect_fault :: "exn option"
  sock_name :: "exn + string"

definition get_advertised_ip :: "udp_probe \<Rightarrow> exn + string" where
  "get_advertised_ip p =
     (case open_fault p of
        Some e \<Rightarrow> Inl e
      | None \<Rightarrow> (case connect_fault p of Some e \<Rightarrow> Inl e | None \<Rightarrow> sock_name p))"

definition dyn_get_advertised_ip :: "udp_probe \<Rightarrow> exn + string" where
  "dyn_get_advertised_ip p =
     (case open_fault p of
        Some e \<Rightarrow> Inl e
      | None \<Rightarrow> (case connect_fault p of Some e \<Rightarrow> Inl e | None \<Rightarrow> sock_name p))"

text \<open>The constructor of the alternative class, with the address it finds.\<close>

definition dyn_start :: "udp_probe \<Rightarrow> exn option \<Rightarrow> boot_env \<Rightarrow> exn + states" where
  "dyn_start p own_fault env =
     (case dyn_get_advertised_ip p of Inl e \<Rightarrow> Inl e | Inr ip \<Rightarrow> dyn_States_init own_fault (env\<lparr>advertised_ip := ip\<rparr>))"

section \<open>The servers of a node\<close>

text \<open>
  What creating, binding and listening on the socket of a port raises, if anything. The ports that
  are served are those where nothing is raised.
\<close>

definition Server_start :: "(nat \<Rightarrow> exn option) \<Rightarrow> nat list" where
  "Server_start setup = filter (\<lambda>port. setup port = None) [8000, 9000, 7001]"

definition node_main ::
    "udp_probe \<Rightarrow> boot_env \<Rightarrow> time \<Rightarrow> char list \<Rightarrow> disk \<Rightarrow> (nat \<Rightarrow> exn option) \<Rightarrow> exn + node \<times> nat list" where
  "node_main p env now order dk setup =
     (case get_advertised_ip p of
        Inl e \<Rightarrow> Inl e
      | Inr ip \<Rightarrow>
          (case boot (env\<lparr>advertised_ip := ip\<rparr>) now order dk of
             Inl e \<Rightarrow> Inl e
           | Inr n \<Rightarrow> Inr (n, Server_start setup)))"

text \<open>The port a step of a node's threads comes in on, if it needs one.\<close>

fun step_port :: "thread_step \<Rightarrow> nat option" where
  "step_port (ReadLine r e) = Some 8000"
| "step_port (WriteLine e) = Some 9000"
| "step_port (SyncLine now e) = Some 7001"
| "step_port (HeartRound now) = None"
| "step_port (RefreshLine live l) = None"

inductive served :: "nat list \<Rightarrow> time \<times> node \<Rightarrow> time \<times> node \<Rightarrow> bool" for ports c0 where
  begin_served: "served ports c0 c0"
| step_served: "served ports c0 c \<Longrightarrow> (\<forall>port. step_port a = Some port \<longrightarrow> port \<in> set ports) \<Longrightarrow>
    served ports c0 (node_step a c)"

lemma served_runs: "served ports c0 c \<Longrightarrow> node_runs c0 c"
  by (induction rule: served.induct) (auto intro: node_runs.intros)

section \<open>Who a node follows\<close>

text \<open>Whether a node leads, whom it follows and its own address: only heartbeats and time-outs change these.\<close>

definition role :: "'a core_scheme \<Rightarrow> bool \<times> string \<times> string" where
  "role n = (leader (rf n), leaderIp (st n), selfIp (st n))"

lemma role_updates [simp]:
  "role (n\<lparr>net := ps\<rparr>) = role n" "role (m\<lparr>wr := w\<rparr>) = role m" "role (m\<lparr>dsk := dk\<rparr>) = role m"
  "role (n\<lparr>st := (st n)\<lparr>records := rs\<rparr>\<rparr>) = role n" "role (n\<lparr>rf := (rf n)\<lparr>currLogNum := k\<rparr>\<rparr>) = role n"
  "role (m\<lparr>wr := w, rf := (rf m)\<lparr>currLogNum := k\<rparr>\<rparr>) = role m"
  "role (sendToFollower port msg n) = role n" "role (sendAck num n) = role n" "role (sendBeat n) = role n"
  by (simp_all add: role_def sendToFollower_eq sendAck_def sendBeat_eq send_raw_def)

lemma commit_role: "role (snd (commitHandler num n)) = role n"
  by (simp add: role_def commitHandler_def Let_def split: option.split list.split sum.split)

lemma writeStarter_role: "role (snd (writeStarter update num n)) = role n"
  by (auto simp: writeStarter_def sendLog_def commit_role Let_def split: option.split)

lemma replicate_role: "role (replicate_in num update n) = role n"
  by (simp add: role_def replicate_in_def Let_def sendAck_def send_raw_def split: list.split)

lemma writeHandler_role: "role (snd (writeHandler query n)) = role n"
  by (simp add: writeHandler_def Let_def next_num_def ackHandler_def commit_role writeStarter_role replicate_role
      split: list.split)

lemma newRecord_role: "role (snd (newRecord live d n)) = role n"
proof -
  have "role m = role n" if "writeStarter u k (n\<lparr>rf := (rf n)\<lparr>currLogNum := i\<rparr>\<rparr>) = (oc, m)" for u k i oc m
    using writeStarter_role [of u k "n\<lparr>rf := (rf n)\<lparr>currLogNum := i\<rparr>\<rparr>"] that by simp
  then show ?thesis
    by (auto simp: newRecord_def Let_def next_num_def split: option.split prod.split outcome.split)
qed

lemma resolve_role: "role (snd (resolve r d n)) = role n"
  by (simp add: resolve_def Let_def newRecord_role)

lemma step_role:
  assumes "step_port a \<noteq> Some 7001" and "leader (rf n)"
  shows "role (snd (node_step a (nxt, n))) = role n"
proof (cases a)
  case (ReadLine r e)
  have "role (snd (read_request r line n)) = role n" for line by (simp add: read_request_def resolve_role)
  then have "role m = role n" if "read_request r line n = (v, m)" for line v m using that by (metis snd_conv)
  then show ?thesis by (auto simp: ReadLine read_line_def split: conn_event.split prod.split)
next
  case (WriteLine e)
  have "role m = role n" if "writeHandler q n = (oc, m)" for q oc m using writeHandler_role [of q n] that by simp
  then show ?thesis by (auto simp: WriteLine write_line_def split: conn_event.split prod.split outcome.split)
next
  case (HeartRound now)
  then show ?thesis using assms(2) by (simp add: round_leader)
next
  case (RefreshLine live l)
  then show ?thesis by (auto simp: process_line_def Let_def send_raw_def split: list.split option.split)
qed (use assms(1) in simp)

section \<open>Properties\<close>

text \<open>
  C37: a node whose heartbeat port is taken leads for ever. \<^verbatim>\<open>Server.start\<close> does not notice that one of
  its servers could not open its port. If that is the heartbeat port, then from start-up on, in every
  state the node reaches through its other ports and threads, it considers itself the leader and
  follows nobody else, whatever the other members are.
\<close>

theorem deaf_node_stays_leader:
  assumes "node_main p env now order dk setup = Inr (n0, ports)" and "setup 7001 = Some e"
    and "served ports (nxt0, n0) (nxt, n)"
  shows "leader (rf n) \<and> leaderIp (st n) = selfIp (st n) \<and> Inr (selfIp (st n)) = get_advertised_ip p"
proof -
  obtain ip where ip: "get_advertised_ip p = Inr ip" "boot (env\<lparr>advertised_ip := ip\<rparr>) now order dk = Inr n0"
    and ports: "ports = Server_start setup"
    using assms(1) by (auto simp: node_main_def split: sum.splits)
  have start: "role n0 = (True, ip, ip)"
    using ip(2) by (auto simp: role_def boot_def States_init_def Reader_init_def Let_def raft_init_def split: sum.splits)
  have "role (snd (nxt, n)) = (True, ip, ip)"
    using assms(3)
  proof (induction rule: served.induct)
    case (step_served c a)
    have "7001 \<notin> set ports" using assms(2) by (simp add: ports Server_start_def)
    then have "step_port a \<noteq> Some 7001" using step_served.hyps(2) by auto
    moreover have "leader (rf (snd c))" using step_served.IH by (simp add: role_def)
    ultimately show ?case using step_role [of a "snd c" "fst c"] step_served.IH by simp
  qed (simp add: start)
  then show ?thesis using ip(1) by (simp add: role_def)
qed

text \<open>A node without a route does not start, and one that starts has its files and directory read.\<close>

lemma node_main_faults:
  "get_advertised_ip p = Inl e \<Longrightarrow> node_main p env now order dk setup = Inl e"
  "get_advertised_ip p = Inr ip \<Longrightarrow> boot (env\<lparr>advertised_ip := ip\<rparr>) now order dk = Inl e \<Longrightarrow>
     node_main p env now order dk setup = Inl e"
  by (simp_all add: node_main_def)

lemma dyn_start_eq:
  "dyn_get_advertised_ip p = get_advertised_ip p"
  "get_advertised_ip p = Inr ip \<Longrightarrow> dyn_start p own_fault env = dyn_States_init own_fault (env\<lparr>advertised_ip := ip\<rparr>)"
  by (simp_all add: dyn_get_advertised_ip_def get_advertised_ip_def dyn_start_def)

definition node3_probe :: udp_probe where
  "node3_probe = \<lparr>open_fault = None, connect_fault = None, sock_name = Inr ''10.0.0.3''\<rparr>"

definition taken :: "nat \<Rightarrow> exn option" where
  "taken port = (if port = 7001 then Some OSError else None)"

theorem deaf_node_stays_leader_witness:
  "\<exists>n0 ports. node_main node3_probe example_env 0 (shard_order example_ips ''10.0.0.3'') example_disk taken = Inr (n0, ports)
    \<and> leader (rf (snd (node_step (WriteLine (Recv ''4;1'' True)) (node_step (HeartRound 500) (100, n0)))))"
proof -
  let ?n = "boot_all example_env example_ips example_disk ''10.0.0.3''"
  have a: "get_advertised_ip node3_probe = Inr ''10.0.0.3''" by (simp add: get_advertised_ip_def node3_probe_def)
  have ports: "Server_start taken = [8000, 9000]" by (simp add: Server_start_def taken_def)
  have m: "node_main node3_probe example_env 0 (shard_order example_ips ''10.0.0.3'') example_disk taken = Inr (?n, [8000, 9000])"
    using boot_all_started [OF example_directory example_serving] by (simp add: node_main_def a started_def ports)
  let ?c = "node_step (WriteLine (Recv ''4;1'' True)) (node_step (HeartRound 500) (100, ?n))"
  have "served [8000, 9000] (100, ?n) (node_step (HeartRound 500) (100, ?n))" by (rule served.intros(2) [OF served.intros(1)]) simp
  then have "served [8000, 9000] (100, ?n) ?c" by (rule served.intros(2)) simp
  then have "served [8000, 9000] (100, ?n) (fst ?c, snd ?c)" by (simp only: prod.collapse)
  with deaf_node_stays_leader [OF m, of OSError 100 "fst ?c" "snd ?c"] have "leader (rf (snd ?c))" by (simp add: taken_def)
  with m show ?thesis by blast
qed

section \<open>The ports of the caches\<close>

text \<open>The port from the command line, where \<^verbatim>\<open>int\<close> may raise, or the default.\<close>

definition argv_port :: "int \<Rightarrow> string list \<Rightarrow> exn + int" where
  "argv_port dflt argv =
     (if length argv > 1 then (case py_int (argv ! 1) of None \<Rightarrow> Inl ValueError | Some i \<Rightarrow> Inr i) else Inr dflt)"

definition l1_port :: "string list \<Rightarrow> exn + int" where
  "l1_port = argv_port 8100"

definition l2_port :: "string list \<Rightarrow> exn + int" where
  "l2_port = argv_port 8200"

lemma printed_port: "printable i \<Longrightarrow> l1_port [prog, str_int i] = Inr i \<and> l2_port [prog, str_int i] = Inr i"
  by (simp add: l1_port_def l2_port_def argv_port_def py_int_str_int printable_def)

lemma default_ports: "l1_port [prog] = Inr 8100" "l2_port [prog] = Inr 8200"
  by (simp_all add: l1_port_def l2_port_def argv_port_def)

end
