(* ===== verification/Refresh.thy ===== *)
theory Refresh
  imports Batch
begin

text \<open>
  The stand-alone refresh program of the control plane (\<^verbatim>\<open>control_plane/process.py\<close>). It reads
  the snapshot \<^verbatim>\<open>states.txt\<close> (parameter: what loading it gives, or the exception), scans the
  shard files and sends an update to the leader for every record whose live address differs.
  The result is how the program ends and the packets it tried to send. Live resolution is the
  parameter \<open>live\<close>: an address or an exception (\<^verbatim>\<open>socket.gaierror\<close> is \<^const>\<open>GaiError\<close>; a name
  that cannot be encoded raises a \<^verbatim>\<open>UnicodeError\<close>, a \<^const>\<open>ValueError\<close>).
\<close>

section \<open>The program\<close>

text \<open>The two keys of the snapshot that the program reads; each may be missing.\<close>

record snapshot =
  j_selfRecords :: "string list option"
  j_leaderIp :: "string option"

definition send_update :: "string \<Rightarrow> string \<Rightarrow> string \<Rightarrow> packet list \<Rightarrow> packet list" where
  "send_update domain ip leader_ip out =
     out @ [(leader_ip, 9000, ''1;'' @ domain @ '',A,'' @ ip @ [NL])]"

text \<open>\<^verbatim>\<open>os.path.join(a, b)\<close>\<close>

definition path_join :: "string \<Rightarrow> string \<Rightarrow> string" where
  "path_join a b =
     (if startswith b ''/'' then b else if a = [] \<or> endswith a ''/'' then a @ b else a @ ''/'' @ b)"

fun refresh_lines ::
    "(string \<Rightarrow> exn + string) \<Rightarrow> string \<Rightarrow> string list \<Rightarrow> packet list \<Rightarrow> outcome \<times> packet list" where
  "refresh_lines live leader_ip [] out = (Done, out)"
| "refresh_lines live leader_ip (line0 # ls) out =
     (let line = strip line0
      in if line = [] \<or> startswith line ''#'' then refresh_lines live leader_ip ls out
         else (case split_on comma line of
                 p0 # p1 # p2 # _ \<Rightarrow>
                   (let domain = strip p0; stored_ip = strip p2
                    in case live domain of
                         Inr live_ip \<Rightarrow>
                           refresh_lines live leader_ip ls
                             (if live_ip \<noteq> stored_ip then send_update domain live_ip leader_ip out else out)
                       | Inl e \<Rightarrow>
                           if e = GaiError then refresh_lines live leader_ip ls out else (Raised e, out))
               | _ \<Rightarrow> refresh_lines live leader_ip ls out))"

fun refresh_shards ::
    "(string \<Rightarrow> exn + string) \<Rightarrow> string \<Rightarrow> string \<Rightarrow> disk \<Rightarrow> string list \<Rightarrow> packet list \<Rightarrow> outcome \<times> packet list"
where
  "refresh_shards live dir leader_ip dk [] out = (Done, out)"
| "refresh_shards live dir leader_ip dk (head # heads) out =
     (let path = path_join dir (head @ ''.txt'')
      in if files dk path = None then refresh_shards live dir leader_ip dk heads out
         else (case open_read path dk of
                 Inl e \<Rightarrow> (Raised e, out)
               | Inr content \<Rightarrow>
                   (case refresh_lines live leader_ip (file_lines content) out of
                      (Raised e, out') \<Rightarrow> (Raised e, out')
                    | (Done, out') \<Rightarrow> refresh_shards live dir leader_ip dk heads out')))"

definition refresh_main ::
    "(string \<Rightarrow> exn + string) \<Rightarrow> string \<Rightarrow> exn + snapshot \<Rightarrow> disk \<Rightarrow> outcome \<times> packet list" where
  "refresh_main live dir data dk =
     (case data of
        Inl e \<Rightarrow> if e = FileNotFoundError \<or> e = JSONDecodeError then (Done, []) else (Raised e, [])
      | Inr j \<Rightarrow>
          let self_records = (case j_selfRecords j of None \<Rightarrow> [] | Some rs \<Rightarrow> rs);
              leader_ip = (case j_leaderIp j of None \<Rightarrow> ''127.0.0.1'' | Some ip \<Rightarrow> ip)
          in refresh_shards live dir leader_ip dk self_records [])"

section \<open>Agreement with the refresh of the nodes\<close>

text \<open>The live source as the nodes see it, who skip every failing name.\<close>

definition known :: "(string \<Rightarrow> exn + string) \<Rightarrow> string \<Rightarrow> string option" where
  "known live d = (case live d of Inr ip \<Rightarrow> Some ip | Inl e \<Rightarrow> None)"

text \<open>The snapshot of a node's state, as it is written to \<^verbatim>\<open>states.txt\<close>.\<close>

definition snapshot_of :: "char list \<Rightarrow> state_dict \<Rightarrow> snapshot" where
  "snapshot_of order sd = \<lparr>j_selfRecords = Some (map (\<lambda>c. [c]) order), j_leaderIp = Some (d_leaderIp sd)\<rparr>"

text \<open>All records of a shard file are address records.\<close>

definition address_shard :: "disk \<Rightarrow> char \<Rightarrow> bool" where
  "address_shard dk c \<longleftrightarrow> (\<forall>l \<in> set (shard_lines dk c). \<forall>d t v. line_record l = Some ((d, t), v) \<longrightarrow> t = ''A'')"

definition only_gai :: "(string \<Rightarrow> exn + string) \<Rightarrow> bool" where
  "only_gai live \<longleftrightarrow> (\<forall>d e. live d = Inl e \<longrightarrow> e = GaiError)"

lemma refresh_lines_eq:
  assumes "only_gai live" and "\<forall>l \<in> set ls. tidy_line c l \<and> (\<forall>d t v. line_record l = Some ((d, t), v) \<longrightarrow> t = ''A'')"
  shows "refresh_lines live ip ls out =
    (Done, out @ map (correction_packet ip) (List.map_filter (correction (known live)) ls))"
  using assms(2)
proof (induction ls arbitrary: out)
  case (Cons l ls)
  obtain d t v where u: "update_ok d t v" "l = update_text d t v @ [NL]"
    using Cons.prems by (auto simp: tidy_line_def)
  have r: "line_record l = Some ((d, t), v)" using line_record_update [OF u(1)] u(2) by simp
  have t: "t = ''A''" using Cons.prems r by simp
  have f: "strip d = d" "strip v = v" using u(1) by (simp_all add: update_ok_def field_strip)
  have h: "\<not> startswith (update_text d t v) ''#''"
    using u(1) by (cases d) (auto simp: update_ok_def field_ok_def update_text_def startswith_def)
  have pkt: "send_update d w ip out = out @ [correction_packet ip (d, t, w)]" for w out
    by (simp add: send_update_def correction_packet_def write_msg_def update_text_def t)
  have "refresh_lines live ip (l # ls) out = (case live d of
      Inr w \<Rightarrow> refresh_lines live ip ls (if w \<noteq> v then out @ [correction_packet ip (d, t, w)] else out)
    | Inl e \<Rightarrow> if e = GaiError then refresh_lines live ip ls out else (Raised e, out))"
    using h f update_chars [OF u(1)] by (simp add: u(2) update_strip [OF u(1)] update_split [OF u(1)] pkt split: sum.split)
  then show ?case
    using Cons.IH Cons.prems r assms(1)
    by (auto simp: List.map_filter_simps correction_def known_def only_gai_def split: sum.split)
qed (simp add: List.map_filter_simps)

lemma path_join_shard: "path_join ''../records'' ([c] @ ''.txt'') = shard_path c" if "c \<noteq> CHR ''/''"
  using that by (simp add: path_join_def startswith_def endswith_def shard_path_def)

lemma refresh_shards_eq:
  assumes "only_gai live"
    and "\<forall>c \<in> set order. c \<noteq> CHR ''/'' \<and> read_fault dk (shard_path c) = None \<and> tidy dk c \<and> address_shard dk c"
  shows "refresh_shards live ''../records'' ip dk (map (\<lambda>c. [c]) order) out =
    (Done, out @ map (correction_packet ip) (corrections (known live) dk order))"
  using assms(2)
proof (induction order arbitrary: out)
  case (Cons c order)
  show ?case
  proof (cases "files dk (shard_path c)")
    case None
    then show ?thesis using Cons path_join_shard [of c]
      by (simp add: corrections_def shard_lines_def List.map_filter_simps)
  next
    case (Some content)
    then have "shard_lines dk c = file_lines content" by (simp add: shard_lines_def)
    moreover from this have "refresh_lines live ip (file_lines content) out =
        (Done, out @ map (correction_packet ip) (List.map_filter (correction (known live)) (shard_lines dk c)))"
      using Cons.prems refresh_lines_eq [OF assms(1), of "shard_lines dk c" c ip out]
      by (simp add: tidy_def address_shard_def)
    ultimately show ?thesis using Cons Some path_join_shard [of c]
      by (simp add: corrections_def open_read_def)
  qed
qed (simp add: corrections_def)

text \<open>
  C36: the refresh program of the control plane and the refresh pass of a node agree. Started on the
  snapshot a node wrote, over well-formed shard files that hold only address records, and with a
  live source that fails with \<^verbatim>\<open>gaierror\<close> only, the program ends normally and sends exactly
  the messages, in the same order and to the same address, that a pass of that node sends.
\<close>

theorem refresh_program_agrees:
  assumes "only_gai live" and "d_leaderIp sd = leaderIp (st n)"
    and "\<forall>c \<in> set order. c \<noteq> CHR ''/'' \<and> read_fault (dsk n) (shard_path c) = None \<and> tidy (dsk n) c
           \<and> address_shard (dsk n) c"
  shows "\<exists>n'. process (known live) order n = (Done, n')
    \<and> net n' = net n @ snd (refresh_main live ''../records'' (Inr (snapshot_of order sd)) (dsk n))
    \<and> fst (refresh_main live ''../records'' (Inr (snapshot_of order sd)) (dsk n)) = Done"
  using process_eq [of order n "known live"] refresh_shards_eq [OF assms(1,3)] assms(2,3)
  by (simp add: refresh_main_def snapshot_of_def)

definition example_live :: "string \<Rightarrow> exn + string" where
  "example_live d = (if d = ''a.com'' then Inr ''2.2.2.2'' else Inl GaiError)"

theorem refresh_program_agrees_witness:
  "snd (refresh_main example_live ''../records'' (Inr (snapshot_of ''a'' (to_state_dict (st example_leader))))
     example_disk) = [correction_packet ''10.0.0.9'' (''a.com'', ''A'', ''2.2.2.2'')]"
proof -
  have live: "only_gai example_live" "known example_live = [''a.com'' \<mapsto> ''2.2.2.2'']"
    by (auto simp: only_gai_def known_def example_live_def split: if_splits)
  have l: "line_record (''a.com,A,1.1.1.1'' @ [NL]) = Some ((''a.com'', ''A''), ''1.1.1.1'')"
    "line_record (''a.com,A,2.2.2.2'' @ [NL]) = Some ((''a.com'', ''A''), ''2.2.2.2'')"
    by code_simp+
  have a: "\<forall>c \<in> set ''a''. c \<noteq> CHR ''/'' \<and> read_fault (dsk example_leader) (shard_path c) = None
      \<and> tidy (dsk example_leader) c \<and> address_shard (dsk example_leader) c"
    using l example_tidy example_disk_sound
    by (simp add: example_leader_fields address_shard_def example_lines disk_sound_def)
  have ip: "leaderIp (st example_leader) = ''10.0.0.9''"
    by (simp add: example_leader_def with_disk_def booted_node_def member_state_def)
  have "process (known example_live) ''a'' example_leader =
      (Done, example_leader\<lparr>net := [correction_packet ''10.0.0.9'' (''a.com'', ''A'', ''2.2.2.2'')]\<rparr>)"
    using process_eq [of "''a''" example_leader "known example_live"] a
    by (simp add: live example_leader_fields example_corrections ip)
  with refresh_program_agrees [OF live(1) _ a, of "to_state_dict (st example_leader)"] show ?thesis
    by (auto simp: to_state_dict_def example_leader_fields)
qed

end
