(* ===== verification/Collect.thy ===== *)
theory Collect
  imports Reader
begin

text \<open>
  The script that collects the records (\<^verbatim>\<open>records/parse.py\<close>): it reads the ranked list
  \<^verbatim>\<open>top-1m.csv\<close>, resolves each domain and appends the results to the shard files, a hundred
  ranks at a time; after a run of more than 200 failures that ends it starts over, recursively,
  from the first failure. The outcome of the \<open>k\<close>-th name resolution is the parameter
  \<open>dns k\<close> (\<open>None\<close>: it raises), so that repeated attempts may differ. The recursion is by fuel,
  \<open>None\<close> means that it ran out; enough fuel is shown to be the number of ranked lines plus one.
\<close>

section \<open>Data\<close>

record world =
  w_disk :: disk
  asked :: nat

record parse_loc =
  recs :: "(char, string list) dict"
  errStart :: int
  contErr :: int

type_synonym attempts = "nat \<Rightarrow> string \<Rightarrow> string option"
type_synonym ending = "(outcome \<times> world) option"

definition csv_path :: string where
  "csv_path = ''top-1m.csv''"

definition head_path :: "char \<Rightarrow> string" where
  "head_path c = c # ''.txt''"

text \<open>\<^verbatim>\<open>open(path, 'a')\<close> and writing to it.\<close>

definition open_append :: "string \<Rightarrow> string \<Rightarrow> disk \<Rightarrow> exn + disk" where
  "open_append path content d =
     open_write path ((case files d path of None \<Rightarrow> [] | Some old \<Rightarrow> old) @ content) d"

section \<open>commit and missingCommit\<close>

fun commit_heads :: "(char, string list) dict \<Rightarrow> disk \<Rightarrow> outcome \<times> disk" where
  "commit_heads [] d = (Done, d)"
| "commit_heads ((c, ls) # rs) d =
     (case open_append (head_path c) (concat ls) d of
        Inl e \<Rightarrow> (Raised e, d)
      | Inr d' \<Rightarrow> commit_heads rs d')"

definition commit :: "(char, string list) dict \<Rightarrow> int \<Rightarrow> disk \<Rightarrow> outcome \<times> disk" where
  "commit rs num d =
     (case open_write ''last.txt'' (str_int num) d of
        Inl e \<Rightarrow> (Raised e, d)
      | Inr d' \<Rightarrow> commit_heads rs d')"

definition missingCommit :: "int \<Rightarrow> int \<Rightarrow> disk \<Rightarrow> outcome \<times> disk" where
  "missingCommit start num d =
     (case open_write ''missing.txt'' (str_int start @ '';'' @ str_int num) d of
        Inl e \<Rightarrow> (Raised e, d)
      | Inr d' \<Rightarrow> (Done, d'))"

section \<open>parseStart\<close>

text \<open>\<^verbatim>\<open>num, domain = line.strip().split(',')\<close> and \<^verbatim>\<open>int(num)\<close>; \<open>None\<close> is the \<^verbatim>\<open>ValueError\<close>.\<close>

definition csv_line :: "string \<Rightarrow> (int \<times> string) option" where
  "csv_line line =
     (case split_on comma (strip line) of
        [a, domain] \<Rightarrow> (case py_int a of None \<Rightarrow> None | Some num \<Rightarrow> Some (num, domain))
      | _ \<Rightarrow> None)"

definition entry :: "string \<Rightarrow> string \<Rightarrow> string" where
  "entry domain ip = domain @ '',A,'' @ ip @ [NL]"

definition add_record :: "char \<Rightarrow> string \<Rightarrow> (char, string list) dict \<Rightarrow> (char, string list) dict" where
  "add_record c e rs = dset c ((case map_of rs c of None \<Rightarrow> [] | Some ls \<Rightarrow> ls) @ [e]) rs"

text \<open>The \<^verbatim>\<open>except\<close> branch.\<close>

definition failed :: "int \<Rightarrow> parse_loc \<Rightarrow> parse_loc" where
  "failed num l = (if contErr l = 0 then l\<lparr>errStart := num, contErr := 1\<rparr> else l\<lparr>contErr := contErr l + 1\<rparr>)"

text \<open>The body of the \<^verbatim>\<open>try\<close> statement with its handler, for one domain.\<close>

definition try_domain ::
    "(int \<Rightarrow> world \<Rightarrow> ending) \<Rightarrow> attempts \<Rightarrow> int \<Rightarrow> string \<Rightarrow> parse_loc \<Rightarrow> world \<Rightarrow> (parse_loc \<times> world) option" where
  "try_domain restart dns num domain l w0 =
     (let w = w0\<lparr>asked := Suc (asked w0)\<rparr>
      in case dns (asked w0) domain of
           None \<Rightarrow> Some (failed num l, w)
         | Some ip \<Rightarrow>
             (case domain of
                [] \<Rightarrow> Some (failed num l, w)
              | c # _ \<Rightarrow>
                  let l1 = l\<lparr>recs := add_record c (entry domain ip) (recs l)\<rparr>
                  in if contErr l1 > 200
                     then (case restart (errStart l1) w of
                             None \<Rightarrow> None
                           | Some (Raised e, w') \<Rightarrow> Some (failed num l1, w')
                           | Some (Done, w') \<Rightarrow> Some (l1\<lparr>contErr := 0\<rparr>, w'))
                     else Some (l1\<lparr>contErr := 0\<rparr>, w)))"

fun parse_loop ::
    "(int \<Rightarrow> world \<Rightarrow> ending) \<Rightarrow> attempts \<Rightarrow> int \<Rightarrow> string list \<Rightarrow> parse_loc \<Rightarrow> world \<Rightarrow> ending" where
  "parse_loop restart dns start [] l w = Some (Done, w)"
| "parse_loop restart dns start (line # ls) l w =
     (case csv_line line of
        None \<Rightarrow> Some (Raised ValueError, w)
      | Some (num, domain) \<Rightarrow>
          if num \<le> start then parse_loop restart dns start ls l w
          else (case try_domain restart dns num domain l w of
                  None \<Rightarrow> None
                | Some (l', w') \<Rightarrow>
                    if num mod 100 = 0
                    then (case commit (recs l') num (w_disk w') of
                            (Raised e, d) \<Rightarrow> Some (Raised e, w'\<lparr>w_disk := d\<rparr>)
                          | (Done, d) \<Rightarrow> parse_loop restart dns start ls (l'\<lparr>recs := []\<rparr>) (w'\<lparr>w_disk := d\<rparr>))
                    else parse_loop restart dns start ls l' w'))"

definition parse_init :: parse_loc where
  "parse_init = \<lparr>recs = [], errStart = 0, contErr = 0\<rparr>"

fun parseStart :: "nat \<Rightarrow> attempts \<Rightarrow> int \<Rightarrow> world \<Rightarrow> ending" where
  "parseStart 0 dns start w = None"
| "parseStart (Suc fuel) dns start w =
     (case open_read csv_path (w_disk w) of
        Inl e \<Rightarrow> Some (Raised e, w)
      | Inr content \<Rightarrow> parse_loop (parseStart fuel dns) dns start (file_lines content) parse_init w)"

section \<open>The script\<close>

text \<open>The ranks by domain, from the whole list; a malformed line raises.\<close>

fun rank_table :: "string list \<Rightarrow> (string \<rightharpoonup> int) \<Rightarrow> exn + (string \<rightharpoonup> int)" where
  "rank_table [] r = Inr r"
| "rank_table (line # ls) r =
     (case csv_line line of None \<Rightarrow> Inl ValueError | Some (num, domain) \<Rightarrow> rank_table ls (r(domain \<mapsto> num)))"

text \<open>
  The greatest rank among the domains of one shard file. A line that has not three fields or
  whose domain has no rank raises, which skips the rest of the file.
\<close>

fun scan_lines :: "(string \<rightharpoonup> int) \<Rightarrow> string list \<Rightarrow> int \<Rightarrow> int" where
  "scan_lines r [] start = start"
| "scan_lines r (line # ls) start =
     (case split_on comma line of
        [domain, _, _] \<Rightarrow>
          (case r domain of None \<Rightarrow> start | Some num \<Rightarrow> scan_lines r ls (max num start))
      | _ \<Rightarrow> start)"

definition HEADS :: string where
  "HEADS = ''abcdefghijklmnopqrstuvwxyz0123456789''"

definition scan_heads :: "(string \<rightharpoonup> int) \<Rightarrow> disk \<Rightarrow> string \<Rightarrow> int \<Rightarrow> int" where
  "scan_heads r d heads start =
     fold (\<lambda>c start. case open_read (head_path c) d of
             Inl e \<Rightarrow> start | Inr content \<Rightarrow> scan_lines r (file_lines content) start) heads start"

definition parse_script :: "nat \<Rightarrow> attempts \<Rightarrow> world \<Rightarrow> ending" where
  "parse_script fuel dns w =
     (case open_read csv_path (w_disk w) of
        Inl e \<Rightarrow> Some (Raised e, w)
      | Inr content \<Rightarrow>
          (case rank_table (file_lines content) Map.empty of
             Inl e \<Rightarrow> Some (Raised e, w)
           | Inr r \<Rightarrow> parseStart fuel dns (scan_heads r (w_disk w) HEADS 0 + 1) w))"

section \<open>The list is never written\<close>

definition reads_csv :: "string \<Rightarrow> world \<Rightarrow> bool" where
  "reads_csv content w \<longleftrightarrow> open_read csv_path (w_disk w) = Inr content"

lemma open_write_other:
  "open_write path content d = Inr d' \<Longrightarrow> path \<noteq> q \<Longrightarrow> open_read q d' = open_read q d"
  by (auto simp: open_write_def open_read_def split: option.splits)

lemma head_path_csv [simp]: "head_path c \<noteq> csv_path"
  by (simp add: head_path_def csv_path_def)

lemma commit_heads_csv: "open_read csv_path (snd (commit_heads rs d)) = open_read csv_path d"
  by (induction rs d rule: commit_heads.induct)
    (auto simp: open_append_def open_write_other split: sum.split)

lemma commit_csv: "open_read csv_path (snd (commit rs num d)) = open_read csv_path d"
  by (auto simp: commit_def commit_heads_csv csv_path_def [symmetric] split: sum.split)
    (simp add: open_write_other csv_path_def)

lemma commit_reads:
  assumes "commit rs num (w_disk w) = (oc, d)" and "reads_csv content w"
  shows "reads_csv content (w\<lparr>w_disk := d\<rparr>)"
  using commit_csv [of rs num "w_disk w"] assms by (simp add: reads_csv_def)

section \<open>Termination\<close>

text \<open>The number of lines ranked above a start.\<close>

definition ranked_above :: "int \<Rightarrow> string \<Rightarrow> bool" where
  "ranked_above s line = (case csv_line line of None \<Rightarrow> False | Some (num, _) \<Rightarrow> num > s)"

definition above :: "int \<Rightarrow> string list \<Rightarrow> nat" where
  "above s lines = length (filter (ranked_above s) lines)"

lemma above_mono: "s \<le> e \<Longrightarrow> above e lines \<le> above s lines"
  by (induction lines) (auto simp: above_def ranked_above_def split: option.splits)

lemma above_less:
  assumes "s < e" and "line \<in> set lines" and "csv_line line = Some (e, d)"
  shows "above e lines < above s lines"
  using assms(2)
proof (induction lines)
  case (Cons l lines)
  have "above e lines \<le> above s lines" using assms(1) by (simp add: above_mono)
  moreover have "ranked_above e l \<Longrightarrow> ranked_above s l"
    using assms(1) by (auto simp: ranked_above_def split: option.splits)
  moreover have "ranked_above s line" "\<not> ranked_above e line"
    using assms(1,3) by (simp_all add: ranked_above_def)
  ultimately show ?case using Cons by (auto simp: above_def)
qed simp

text \<open>The first failure of a run of failures is a line of the list above the start.\<close>

definition loc_ok :: "int \<Rightarrow> string list \<Rightarrow> parse_loc \<Rightarrow> bool" where
  "loc_ok start lines l \<longleftrightarrow> contErr l = 0 \<or>
     (start < errStart l \<and> (\<exists>line \<in> set lines. \<exists>d. csv_line line = Some (errStart l, d)))"

definition restart_ok :: "string \<Rightarrow> nat \<Rightarrow> (int \<Rightarrow> world \<Rightarrow> ending) \<Rightarrow> bool" where
  "restart_ok content fuel restart \<longleftrightarrow> (\<forall>s w. reads_csv content w \<longrightarrow> above s (file_lines content) < fuel \<longrightarrow>
     (\<exists>oc w'. restart s w = Some (oc, w') \<and> reads_csv content w'))"

lemma failed_ok:
  "loc_ok start lines l \<Longrightarrow> start < num \<Longrightarrow> line \<in> set lines \<Longrightarrow> csv_line line = Some (num, d) \<Longrightarrow>
   loc_ok start lines (failed num l)"
  by (auto simp: loc_ok_def failed_def)

lemma try_domain_returns:
  assumes "restart_ok content fuel restart" and "above start (file_lines content) \<le> fuel"
    and "loc_ok start (file_lines content) l" and "reads_csv content w" and "start < num"
    and "line \<in> set (file_lines content)" and "csv_line line = Some (num, domain)"
  shows "\<exists>l' w'. try_domain restart dns num domain l w = Some (l', w')
    \<and> loc_ok start (file_lines content) l' \<and> reads_csv content w'"
proof -
  let ?w = "w\<lparr>asked := Suc (asked w)\<rparr>"
  have w: "reads_csv content ?w" using assms(4) by (simp add: reads_csv_def)
  have f: "loc_ok start (file_lines content) (failed num (l\<lparr>recs := rs\<rparr>))" for rs
    using failed_ok [OF _ assms(5-7), of "l\<lparr>recs := rs\<rparr>"] assms(3) by (simp add: loc_ok_def)
  have f0: "loc_ok start (file_lines content) (failed num l)" using failed_ok [OF assms(3,5-7)] .
  have again: "\<exists>oc w'. restart (errStart l) ?w = Some (oc, w') \<and> reads_csv content w'" if "contErr l > 200"
  proof -
    have "above (errStart l) (file_lines content) < above start (file_lines content)"
      using assms(3) that by (auto simp: loc_ok_def intro: above_less)
    then show ?thesis using assms(1,2) w unfolding restart_ok_def by (meson less_le_trans)
  qed
  have ok0: "loc_ok start (file_lines content) (l\<lparr>recs := rs, contErr := 0\<rparr>)" for rs by (simp add: loc_ok_def)
  show ?thesis
  proof (cases "contErr l > 200")
    case True
    then obtain oc w' where r: "restart (errStart l) ?w = Some (oc, w')" "reads_csv content w'" using again by auto
    then show ?thesis using True f f0 w ok0
      by (cases oc) (auto simp: try_domain_def Let_def split: option.split list.split)
  next
    case False
    then show ?thesis using f0 w ok0 by (auto simp: try_domain_def Let_def split: option.split list.split)
  qed
qed

lemma parse_loop_returns:
  assumes "restart_ok content fuel restart" and "above start (file_lines content) \<le> fuel"
    and "set ls \<subseteq> set (file_lines content)" and "loc_ok start (file_lines content) l" and "reads_csv content w"
  shows "\<exists>oc w'. parse_loop restart dns start ls l w = Some (oc, w') \<and> reads_csv content w'"
  using assms(3-5)
proof (induction ls arbitrary: l w)
  case (Cons line ls)
  show ?case
  proof (cases "csv_line line")
    case None
    then show ?thesis using Cons.prems by simp
  next
    case (Some p)
    obtain num domain where p: "p = (num, domain)" by (cases p)
    show ?thesis
    proof (cases "num \<le> start")
      case True
      then show ?thesis using Some p Cons by simp
    next
      case False
      then obtain l' w' where t: "try_domain restart dns num domain l w = Some (l', w')"
        "loc_ok start (file_lines content) l'" "reads_csv content w'"
        using try_domain_returns [OF assms(1,2) Cons.prems(2,3), of num line domain dns] Some p Cons.prems(1) by auto
      have "loc_ok start (file_lines content) (l'\<lparr>recs := []\<rparr>)" using t(2) by (simp add: loc_ok_def)
      then show ?thesis
        using False Some p t Cons commit_reads [OF _ t(3)]
        by (auto split: prod.split outcome.split)
    qed
  qed
qed simp

lemma parseStart_returns: "restart_ok content fuel (parseStart fuel dns)"
proof (induction fuel)
  case 0
  then show ?case by (simp add: restart_ok_def)
next
  case (Suc fuel)
  have "loc_ok s (file_lines content) parse_init" for s by (simp add: loc_ok_def parse_init_def)
  then show ?case
    using parse_loop_returns [OF Suc] unfolding restart_ok_def
    by (auto simp: reads_csv_def [of _ w for w])
qed

text \<open>
  C38: the collection always ends. Whatever the resolutions answer, at every attempt anew,
  \<^verbatim>\<open>parseStart\<close> returns (normally or by an exception) although it calls itself after long runs of
  failures: recursion to a depth of the number of lines ranked above the start is enough. The
  list itself is not changed.
\<close>

theorem parse_terminates:
  assumes "open_read csv_path (w_disk w) = Inr content"
    and "length (filter (ranked_above start) (file_lines content)) < fuel"
  shows "\<exists>oc w'. parseStart fuel dns start w = Some (oc, w') \<and> open_read csv_path (w_disk w') = Inr content"
  using parseStart_returns [of content fuel dns] assms by (simp add: restart_ok_def reads_csv_def above_def)

definition example_world :: world where
  "example_world = \<lparr>w_disk = \<lparr>files = [''top-1m.csv'' \<mapsto> ''99,a.com'' @ [NL] @ ''100,b.com'' @ [NL] @ ''101,b.org'' @ [NL]],
     read_fault = (\<lambda>_. None), write_fault = (\<lambda>_. None)\<rparr>, asked = 0\<rparr>"

lemma example_csv:
  "open_read csv_path (w_disk example_world) = Inr (''99,a.com'' @ [NL] @ ''100,b.com'' @ [NL] @ ''101,b.org'' @ [NL])"
  "file_lines (''99,a.com'' @ [NL] @ ''100,b.com'' @ [NL] @ ''101,b.org'' @ [NL]) =
     [''99,a.com'' @ [NL], ''100,b.com'' @ [NL], ''101,b.org'' @ [NL]]"
  "csv_line (''99,a.com'' @ [NL]) = Some (99, ''a.com'')" "csv_line (''100,b.com'' @ [NL]) = Some (100, ''b.com'')"
  "csv_line (''101,b.org'' @ [NL]) = Some (101, ''b.org'')"
  by (simp add: open_read_def csv_path_def example_world_def, code_simp+)

theorem parse_terminates_witness:
  "\<exists>oc w'. parseStart 4 (\<lambda>k d. None) 0 example_world = Some (oc, w')"
proof -
  have "length (filter (ranked_above 0) [''99,a.com'' @ [NL], ''100,b.com'' @ [NL], ''101,b.org'' @ [NL]]) < 4"
    using length_filter_le [of "ranked_above 0"] by (intro le_less_trans [OF length_filter_le]) simp
  then show ?thesis
    using parse_terminates [OF example_csv(1), of 0 4 "\<lambda>k d. None"] unfolding example_csv(2) by blast
qed

section \<open>What is collected\<close>

definition head_text :: "char \<Rightarrow> disk \<Rightarrow> string" where
  "head_text c d = (case files d (head_path c) of None \<Rightarrow> [] | Some s \<Rightarrow> s)"

text \<open>The rows up to the last one whose rank is divisible by 100.\<close>

fun committed :: "(int \<times> string) list \<Rightarrow> (int \<times> string) list" where
  "committed [] = []"
| "committed (row # rows) = (if committed rows \<noteq> [] \<or> fst row mod 100 = 0 then row # committed rows else [])"

definition entries :: "(string \<Rightarrow> string) \<Rightarrow> char \<Rightarrow> (int \<times> string) list \<Rightarrow> string" where
  "entries ip c rows = concat (map (\<lambda>(n, d). entry d (ip d)) (filter (\<lambda>(n, d). hd d = c) rows))"

lemma entries_simps [simp]:
  "entries ip c [] = []"
  "entries ip c ((n, d) # rows) = (if hd d = c then entry d (ip d) else []) @ entries ip c rows"
  by (simp_all add: entries_def)

definition pending :: "char \<Rightarrow> (char, string list) dict \<Rightarrow> string" where
  "pending c rs = (case map_of rs c of None \<Rightarrow> [] | Some ls \<Rightarrow> concat ls)"

lemma pending_add: "pending c (add_record c' e rs) = pending c rs @ (if c = c' then e else [])"
  by (auto simp: pending_def add_record_def update_conv' split: option.split)

lemma distinct_add: "distinct (dkeys rs) \<Longrightarrow> distinct (dkeys (add_record c e rs))"
  by (simp add: add_record_def dkeys_dset)

definition append_ok :: "disk \<Rightarrow> bool" where
  "append_ok d \<longleftrightarrow> write_fault d ''last.txt'' = None \<and> (\<forall>c. write_fault d (head_path c) = None)"

lemma commit_heads_text:
  assumes "append_ok d" and "distinct (dkeys rs)"
  shows "\<exists>d'. commit_heads rs d = (Done, d') \<and> append_ok d' \<and> (\<forall>c. head_text c d' = head_text c d @ pending c rs)"
  using assms
proof (induction rs d rule: commit_heads.induct)
  case (2 c ls rs d)
  let ?d = "d\<lparr>files := (files d)(head_path c \<mapsto> head_text c d @ concat ls)\<rparr>"
  have o: "open_append (head_path c) (concat ls) d = Inr ?d"
    using "2.prems"(1) by (simp add: open_append_def open_write_def append_ok_def head_text_def)
  obtain d' where d': "commit_heads rs ?d = (Done, d')" "append_ok d'"
    "\<forall>c. head_text c d' = head_text c ?d @ pending c rs"
    using "2.IH" [OF o] "2.prems" by (auto simp: append_ok_def)
  have "c \<notin> fst ` set rs" using "2.prems"(2) by simp
  then have "pending c rs = []" by (simp add: pending_def map_of_eq_None_iff [THEN iffD2])
  then have "head_text c' ?d @ pending c' rs = head_text c' d @ pending c' ((c, ls) # rs)" for c'
    by (cases "c' = c") (simp_all add: head_text_def pending_def head_path_def)
  with d' o show ?case by simp
qed (simp add: pending_def)

lemma commit_text:
  assumes "append_ok d" and "distinct (dkeys rs)"
  shows "\<exists>d'. commit rs num d = (Done, d') \<and> append_ok d' \<and> (\<forall>c. head_text c d' = head_text c d @ pending c rs)"
proof -
  let ?d = "d\<lparr>files := (files d)(''last.txt'' \<mapsto> str_int num)\<rparr>"
  have "commit rs num d = commit_heads rs ?d" "append_ok ?d" "head_text c ?d = head_text c d" for c
    using assms(1) by (simp_all add: commit_def open_write_def append_ok_def head_text_def head_path_def)
  then show ?thesis using commit_heads_text [of ?d rs] assms(2) by simp
qed

lemma try_domain_succeeds:
  assumes "\<And>k. dns k d = Some (ip d)" and "d \<noteq> []" and "contErr l = 0"
  shows "try_domain restart dns num d l w =
    Some (l\<lparr>recs := add_record (hd d) (entry d (ip d)) (recs l)\<rparr>, w\<lparr>asked := Suc (asked w)\<rparr>)"
  using assms by (cases d; cases l) (simp_all add: try_domain_def)

lemma parse_loop_collects:
  assumes "map csv_line ls = map Some rows" and "\<forall>(n, d) \<in> set rows. d \<noteq> [] \<and> n > start"
    and "\<And>k d. d \<in> snd ` set rows \<Longrightarrow> dns k d = Some (ip d)"
    and "append_ok (w_disk w)" and "distinct (dkeys (recs l))" and "contErr l = 0"
  shows "\<exists>w'. parse_loop restart dns start ls l w = Some (Done, w') \<and> (\<forall>c. head_text c (w_disk w') =
    head_text c (w_disk w) @ (if committed rows = [] then [] else pending c (recs l) @ entries ip c (committed rows)))"
  using assms
proof (induction ls arbitrary: rows l w)
  case (Cons line ls)
  obtain num d rows' where rows: "rows = (num, d) # rows'" "csv_line line = Some (num, d)" "map csv_line ls = map Some rows'"
    using Cons.prems(1) by (cases rows) auto
  let ?l = "l\<lparr>recs := add_record (hd d) (entry d (ip d)) (recs l)\<rparr>" and ?w = "w\<lparr>asked := Suc (asked w)\<rparr>"
  have d: "d \<noteq> []" "num > start" using Cons.prems(2) rows(1) by auto
  have tr: "try_domain restart dns num d l w = Some (?l, ?w)"
    using Cons.prems(3,6) rows(1) d(1) by (intro try_domain_succeeds) auto
  have p: "pending c (recs ?l) = pending c (recs l) @ (if hd d = c then entry d (ip d) else [])" for c
    by (simp add: pending_add)
  have dist: "distinct (dkeys (recs ?l))" using Cons.prems(5) by (simp add: distinct_add)
  show ?case
  proof (cases "num mod 100 = 0")
    case True
    obtain d' where c: "commit (recs ?l) num (w_disk ?w) = (Done, d')" "append_ok d'"
      "\<forall>c. head_text c d' = head_text c (w_disk w) @ pending c (recs ?l)"
      using commit_text [OF Cons.prems(4) dist, of num] by auto
    have "\<exists>w'. parse_loop restart dns start ls (?l\<lparr>recs := []\<rparr>) (?w\<lparr>w_disk := d'\<rparr>) = Some (Done, w') \<and>
        (\<forall>c. head_text c (w_disk w') = head_text c d' @ (if committed rows' = [] then [] else entries ip c (committed rows')))"
      using Cons.IH [OF rows(3), of "?w\<lparr>w_disk := d'\<rparr>" "?l\<lparr>recs := []\<rparr>"] Cons.prems rows(1) c(2)
      by (auto simp: pending_def)
    then show ?thesis using True rows tr d c p by auto
  next
    case False
    have "\<exists>w'. parse_loop restart dns start ls ?l ?w = Some (Done, w') \<and> (\<forall>c. head_text c (w_disk w') =
        head_text c (w_disk w) @ (if committed rows' = [] then [] else pending c (recs ?l) @ entries ip c (committed rows')))"
      using Cons.IH [OF rows(3), of ?w ?l] Cons.prems rows(1) dist by auto
    then show ?thesis using False rows tr d p by auto
  qed
qed simp

text \<open>
  C39: the collection appends what it resolved, a hundred ranks at a time. If every line of the
  list is well formed and ranked above the start, every domain resolves and the files can be
  written, then \<^verbatim>\<open>parseStart\<close> returns normally, and each head file has grown by exactly the
  entries of the domains with that first character, in the order of the list, up to the last
  rank that is divisible by 100; what comes after that rank is resolved but not stored.
\<close>

theorem parse_collects:
  assumes "open_read csv_path (w_disk w) = Inr content"
    and "map csv_line (file_lines content) = map Some rows"
    and "\<forall>(n, d) \<in> set rows. d \<noteq> [] \<and> n > start"
    and "\<And>k d. d \<in> snd ` set rows \<Longrightarrow> dns k d = Some (ip d)" and "append_ok (w_disk w)"
  shows "\<exists>w'. parseStart (Suc fuel) dns start w = Some (Done, w')
    \<and> (\<forall>c. head_text c (w_disk w') = head_text c (w_disk w) @ entries ip c (committed rows))"
proof -
  have "\<exists>w'. parse_loop (parseStart fuel dns) dns start (file_lines content) parse_init w = Some (Done, w')
    \<and> (\<forall>c. head_text c (w_disk w') = head_text c (w_disk w) @
          (if committed rows = [] then [] else pending c (recs parse_init) @ entries ip c (committed rows)))"
    using assms(2-5) by (intro parse_loop_collects) (simp_all add: parse_init_def)
  then show ?thesis by (cases "committed rows = []") (simp_all add: assms(1) pending_def parse_init_def)
qed

theorem parse_collects_witness:
  "\<exists>w'. parseStart 1 (\<lambda>k d. Some ''1.2.3.4'') 0 example_world = Some (Done, w')
    \<and> head_text (CHR ''b'') (w_disk w') = ''b.com,A,1.2.3.4'' @ [NL]"
proof -
  let ?rows = "[(99, ''a.com''), (100, ''b.com''), (101, ''b.org'')] :: (int \<times> string) list"
  have "\<exists>w'. parseStart (Suc 0) (\<lambda>k d. Some ''1.2.3.4'') 0 example_world = Some (Done, w')
    \<and> (\<forall>c. head_text c (w_disk w') = head_text c (w_disk example_world) @ entries (\<lambda>d. ''1.2.3.4'') c (committed ?rows))"
  proof (rule parse_collects [OF example_csv(1)])
    show "map csv_line (file_lines (''99,a.com'' @ [NL] @ ''100,b.com'' @ [NL] @ ''101,b.org'' @ [NL])) = map Some ?rows"
      unfolding example_csv(2) by (simp only: list.map example_csv(3-5))
  qed (simp_all add: append_ok_def example_world_def)
  moreover have "head_text (CHR ''b'') (w_disk example_world) = []"
    by (simp add: head_text_def example_world_def head_path_def)
  ultimately show ?thesis by (auto simp: entry_def simp del: parseStart.simps)
qed

text \<open>
  On a directory without head files the script starts above rank 1, so the domain ranked first is
  never collected; likewise a restart skips the rank after the greatest one stored.
\<close>

lemma script_fresh:
  assumes "open_read csv_path (w_disk w) = Inr content"
    and "rank_table (file_lines content) Map.empty = Inr r"
    and "\<forall>c \<in> set HEADS. open_read (head_path c) (w_disk w) = Inl FileNotFoundError"
  shows "parse_script fuel dns w = parseStart fuel dns 1 w"
proof -
  have "fold (\<lambda>c start. case open_read (head_path c) (w_disk w) of
      Inl e \<Rightarrow> start | Inr content \<Rightarrow> scan_lines r (file_lines content) start) cs s = s"
    if "\<forall>c \<in> set cs. open_read (head_path c) (w_disk w) = Inl FileNotFoundError" for cs s
    using that by (induction cs) simp_all
  with assms show ?thesis by (simp add: parse_script_def scan_heads_def)
qed

end
