(* ===== verification/Write_Threads.thy ===== *)
theory Write_Threads
  imports Writer
begin

text \<open>
  Writes statement by statement. Every connection to the write port has its own thread, and the
  writer (\<^verbatim>\<open>data_plane/write/_writer.py\<close>) takes no lock, so the statements of several writes mix. A
  thread that handles a type-1 message is its program point, one constructor of \<open>wpc\<close> per statement
  at which another thread can see or change something it depends on; the threads of a node are a
  list of program points beside the node, and a schedule says which thread moves next. A thread
  that is not interrupted does what \<open>writeHandler\<close> does.
\<close>

section \<open>Program points\<close>

text \<open>
  Taking the next number (\<^verbatim>\<open>currLogNum += 1\<close> and \<^verbatim>\<open>str\<close>) is one step, and so is sending the entry.
  Opening the file for writing truncates it; what is written later goes to the beginning of the
  file and leaves what is behind it.
\<close>

datatype wpc =
    TakeNum string
  | LogIt string string
  | SendIt string string
  | LookUp string
  | ReadFile string string string string
  | OpenFile string string string string string
  | WriteFile string string string string string
  | SetRecord string string string
  | Ended outcome

definition overlay :: "string \<Rightarrow> string \<Rightarrow> string" where
  "overlay content cur = content @ drop (length content) cur"

definition set_file :: "string \<Rightarrow> string \<Rightarrow> node \<Rightarrow> node" where
  "set_file path content n = n\<lparr>dsk := (dsk n)\<lparr>files := (files (dsk n))(path \<mapsto> content)\<rparr>\<rparr>"

definition swallow :: "exn \<Rightarrow> outcome" where
  "swallow e = (if is_OSError e then Done else Raised e)"

fun wstep :: "wpc \<Rightarrow> node \<Rightarrow> wpc \<times> node" where
  "wstep (TakeNum update) n =
     (case next_num n of (n', None) \<Rightarrow> (Ended (Raised ValueError), n') | (n', Some num) \<Rightarrow> (LogIt update num, n'))"
| "wstep (LogIt update num) n =
     (SendIt update num, n\<lparr>wr := (wr n)\<lparr>logs := (logs (wr n))(num \<mapsto> update)\<rparr>\<rparr>)"
| "wstep (SendIt update num) n =
     (case sendLog (num @ CHR '';'' # update) num n of
        (Raised e, n') \<Rightarrow> (Ended (Raised e), n') | (Done, n') \<Rightarrow> (LookUp num, n'))"
| "wstep (LookUp num) n =
     ((case logs (wr n) num of
         None \<Rightarrow> Ended Done
       | Some update \<Rightarrow>
           if update = [] then Ended Done
           else (case split_on comma (strip update) of
                   p0 # p1 # p2 # _ \<Rightarrow>
                     if strip p0 = [] then Ended (Raised IndexError)
                     else ReadFile update (strip p0) (strip p1) (strip p2)
                 | _ \<Rightarrow> Ended Done)), n)"
| "wstep (ReadFile update d t v) n =
     (let path = shard_path (lower_char (hd d))
      in ((case open_read path (dsk n) of
             Inr content \<Rightarrow> OpenFile path (concat (rewrite_lines d update (file_lines content))) d t v
           | Inl e \<Rightarrow> if e = FileNotFoundError then OpenFile path (concat (rewrite_lines d update [])) d t v
                     else Ended (swallow e)), n))"
| "wstep (OpenFile path content d t v) n =
     (case write_fault (dsk n) path of
        Some e \<Rightarrow> (Ended (swallow e), n)
      | None \<Rightarrow> (WriteFile path content d t v, set_file path [] n))"
| "wstep (WriteFile path content d t v) n =
     (SetRecord d t v, set_file path (overlay content (case files (dsk n) path of None \<Rightarrow> [] | Some c \<Rightarrow> c)) n)"
| "wstep (SetRecord d t v) n = (Ended Done, n\<lparr>st := (st n)\<lparr>records := (records (st n))((d, t) \<mapsto> v)\<rparr>\<rparr>)"
| "wstep (Ended r) n = (Ended r, n)"

section \<open>Schedules\<close>

type_synonym threads = "wpc list \<times> node"

definition move :: "nat \<Rightarrow> threads \<Rightarrow> threads" where
  "move i c = (case c of (ps, n) \<Rightarrow>
     if i < length ps then (let (p, n') = wstep (ps ! i) n in (ps[i := p], n')) else c)"

definition run :: "nat list \<Rightarrow> threads \<Rightarrow> threads" where
  "run sched c = fold move sched c"

lemma run_append: "run (a @ b) c = run b (run a c)"
  by (simp add: run_def)

lemma run_Nil [simp]: "run [] c = c"
  by (simp add: run_def)

lemma run_Cons [simp]: "run (i # sched) c = run sched (move i c)"
  by (simp add: run_def)

text \<open>The next moves of one thread, from its program point.\<close>

definition moves :: "nat \<Rightarrow> wpc \<Rightarrow> node \<Rightarrow> wpc \<times> node" where
  "moves k p n = ((\<lambda>(p, n). wstep p n) ^^ k) (p, n)"

lemma moves_0 [simp]: "moves 0 p n = (p, n)"
  by (simp add: moves_def)

lemma moves_Suc [simp]: "moves (Suc k) p n = (case wstep p n of (p', n') \<Rightarrow> moves k p' n')"
  by (simp add: moves_def funpow_swap1 split: prod.split)

lemma moves_Ended [simp]: "moves k (Ended r) n = (Ended r, n)"
  by (induction k) simp_all

lemma run_replicate:
  assumes "i < length ps"
  shows "run (replicate k i) (ps, n) = (case moves k (ps ! i) n of (p, n') \<Rightarrow> (ps[i := p], n'))"
  using assms
proof (induction k arbitrary: ps n)
  case (Suc k)
  obtain p n' where w: "wstep (ps ! i) n = (p, n')" by fastforce
  with Suc.prems Suc.IH [of "ps[i := p]" n'] show ?case by (simp add: move_def split: prod.split)
qed simp

section \<open>A thread that is not interrupted\<close>

lemma overlay_Nil [simp]: "overlay content [] = content"
  by (simp add: overlay_def)

lemma open_moves:
  "moves 3 (OpenFile path content d t v) n =
     (case open_write path content (dsk n) of
        Inl e \<Rightarrow> (Ended (swallow e), n)
      | Inr dk \<Rightarrow> (Ended Done, n\<lparr>dsk := dk, st := (st n)\<lparr>records := (records (st n))((d, t) \<mapsto> v)\<rparr>\<rparr>))"
  by (simp add: numeral_3_eq_3 open_write_def set_file_def split: option.split)

lemma read_moves:
  assumes "d = c # cs"
  shows "moves 4 (ReadFile update d t v) n =
     (case (case open_read (shard_path (lower_char c)) (dsk n) of
              Inr content \<Rightarrow> Inr (file_lines content)
            | Inl e \<Rightarrow> if e = FileNotFoundError then Inr [] else Inl e) of
        Inl e \<Rightarrow> (Ended (swallow e), n)
      | Inr ls \<Rightarrow> moves 3 (OpenFile (shard_path (lower_char c)) (concat (rewrite_lines d update ls)) d t v) n)"
proof -
  have "moves 4 (ReadFile update d t v) n = moves (Suc 3) (ReadFile update d t v) n" by simp
  also have "\<dots> = (case wstep (ReadFile update d t v) n of (p', n') \<Rightarrow> moves 3 p' n')" by (rule moves_Suc)
  finally show ?thesis
    using assms by (auto simp: Let_def split: sum.splits simp del: moves_Suc)
qed

lemma commit_moves: "moves 5 (LookUp num) n = (case commitHandler num n of (r, n') \<Rightarrow> (Ended r, n'))"
proof -
  have "moves 5 (LookUp num) n = moves (Suc 4) (LookUp num) n" by simp
  also have "\<dots> = moves 4 (fst (wstep (LookUp num) n)) n" unfolding moves_Suc by simp
  also have "\<dots> = (case commitHandler num n of (r, n') \<Rightarrow> (Ended r, n'))"
  proof (cases "logs (wr n) num")
    case (Some update)
    show ?thesis
    proof (cases "split_on comma (strip update)")
      case (Cons p0 ps)
      show ?thesis
      proof (cases "\<exists>p1 p2 qs. ps = p1 # p2 # qs")
        case True
        then obtain p1 p2 qs where ps: "ps = p1 # p2 # qs" by blast
        show ?thesis
        proof (cases "strip p0")
          case (Cons c cs)
          with Some ps \<open>split_on comma (strip update) = p0 # ps\<close> show ?thesis
            using read_moves [OF Cons] open_moves
            by (auto simp: commitHandler_def Let_def swallow_def split: sum.split)
        qed (use Some ps \<open>split_on comma (strip update) = p0 # ps\<close> in \<open>simp add: commitHandler_def\<close>)
      next
        case False
        then have "ps = [] \<or> (\<exists>p1. ps = [p1])" by (metis list.exhaust)
        with Some Cons show ?thesis by (auto simp: commitHandler_def)
      qed
    qed (use Some in \<open>simp add: commitHandler_def\<close>)
  qed (simp add: commitHandler_def)
  finally show ?thesis .
qed

definition start_write :: "string \<Rightarrow> node \<Rightarrow> outcome \<times> node" where
  "start_write update n =
     (case next_num n of (n1, None) \<Rightarrow> (Raised ValueError, n1) | (n1, Some num) \<Rightarrow> writeStarter update num n1)"

lemma write_moves: "moves 8 (TakeNum update) n = (case start_write update n of (r, n') \<Rightarrow> (Ended r, n'))"
proof -
  have "moves 8 (TakeNum update) n = moves (Suc (Suc (Suc 5))) (TakeNum update) n" by simp
  also have "\<dots> = (case start_write update n of (r, n') \<Rightarrow> (Ended r, n'))"
    unfolding moves_Suc
    by (simp add: start_write_def writeStarter_def commit_moves Let_def next_num_def
        split: prod.split outcome.split del: moves_Suc)
  finally show ?thesis .
qed

lemma write_node_start:
  assumes "update_ok d t v" and "raft_set (wr n)"
  shows "write_node (d, t, v) n = snd (start_write (update_text d t v) n)"
proof -
  have "strip (CHR ''1'' # CHR '';'' # [] @ update_text d t v) = CHR ''1'' # CHR '';'' # [] @ update_text d t v"
    by (intro strip_typed [OF assms(1)]) code_simp
  then have "split_on (CHR '';'') (strip (write_msg (d, t, v))) = [''1'', update_text d t v]"
    using update_chars [OF assms(1)] by (simp add: write_msg_def split_on_single)
  moreover have "n\<lparr>wr := (wr n)\<lparr>raft_set := True\<rparr>\<rparr> = n" using assms(2) by simp
  ultimately show ?thesis by (simp add: write_node_def writeHandler_def start_write_def Let_def)
qed

section \<open>Every write ends\<close>

fun left :: "wpc \<Rightarrow> nat" where
  "left (TakeNum u) = 8"
| "left (LogIt u num) = 7"
| "left (SendIt u num) = 6"
| "left (LookUp num) = 5"
| "left (ReadFile u d t v) = 4"
| "left (OpenFile p c d t v) = 3"
| "left (WriteFile p c d t v) = 2"
| "left (SetRecord d t v) = 1"
| "left (Ended r) = 0"

lemma left_0: "left p = 0 \<longleftrightarrow> (\<exists>r. p = Ended r)"
  by (cases p) simp_all

lemma left_step: "left (fst (wstep p n)) \<le> left p - 1"
  by (cases p) (auto simp: Let_def next_num_def split: prod.split outcome.split option.split list.split sum.split)

lemma length_move [simp]: "length (fst (move i c)) = length (fst c)"
  by (auto simp: move_def Let_def split: prod.split)

lemma length_run [simp]: "length (fst (run sched c)) = length (fst c)"
  by (induction sched arbitrary: c) simp_all

lemma left_run:
  "i < length (fst c) \<Longrightarrow> left (fst (run sched c) ! i) \<le> left (fst c ! i) - count_list sched i"
proof (induction sched arbitrary: c)
  case (Cons j sched)
  obtain ps n where c: "c = (ps, n)" by fastforce
  have "left (fst (move j c) ! i) \<le> left (fst c ! i) - (if j = i then 1 else 0)"
    using left_step [of "ps ! j" n] Cons.prems by (auto simp: c move_def Let_def nth_list_update split: prod.split)
  with Cons.IH [of "move j c"] Cons.prems show ?case by (simp split: if_splits)
qed simp

section \<open>What the threads can touch\<close>

text \<open>The file, key and value an update is committed to, if it is committed at all.\<close>

definition target :: "string \<Rightarrow> (string \<times> (string \<times> string) \<times> string) option" where
  "target update =
     (case split_on comma (strip update) of
        p0 # p1 # p2 # _ \<Rightarrow>
          if strip p0 = [] then None
          else Some (shard_path (lower_char (hd (strip p0))), (strip p0, strip p1), strip p2)
      | _ \<Rightarrow> None)"

text \<open>A thread works on one of the given updates.\<close>

fun works_on :: "string set \<Rightarrow> node \<Rightarrow> wpc \<Rightarrow> bool" where
  "works_on U n (TakeNum u) \<longleftrightarrow> u \<in> U"
| "works_on U n (LogIt u num) \<longleftrightarrow> u \<in> U"
| "works_on U n (SendIt u num) \<longleftrightarrow> u \<in> U \<and> logs (wr n) num \<in> Some ` U"
| "works_on U n (LookUp num) \<longleftrightarrow> logs (wr n) num \<in> Some ` U"
| "works_on U n (ReadFile u d t v) \<longleftrightarrow> (\<exists>u \<in> U. target u = Some (shard_path (lower_char (hd d)), (d, t), v))"
| "works_on U n (OpenFile p c d t v) \<longleftrightarrow> (\<exists>u \<in> U. target u = Some (p, (d, t), v))"
| "works_on U n (WriteFile p c d t v) \<longleftrightarrow> (\<exists>u \<in> U. target u = Some (p, (d, t), v))"
| "works_on U n (SetRecord d t v) \<longleftrightarrow> (\<exists>u \<in> U. \<exists>p. target u = Some (p, (d, t), v))"
| "works_on U n (Ended r) \<longleftrightarrow> True"

text \<open>Nothing but the targets of the updates differs between two nodes.\<close>

definition confined :: "string set \<Rightarrow> node \<Rightarrow> node \<Rightarrow> bool" where
  "confined U n n' \<longleftrightarrow>
     (\<forall>p. (\<forall>u \<in> U. \<forall>k v. target u \<noteq> Some (p, k, v)) \<longrightarrow> files (dsk n') p = files (dsk n) p)
     \<and> (\<forall>k. (\<forall>u \<in> U. \<forall>p v. target u \<noteq> Some (p, k, v)) \<longrightarrow> records (st n') k = records (st n) k)
     \<and> (\<forall>num. logs (wr n') num \<noteq> logs (wr n) num \<longrightarrow> logs (wr n') num \<in> Some ` U)"

lemma confined_refl: "confined U n n"
  by (simp add: confined_def)

lemma confined_trans: "confined U a b \<Longrightarrow> confined U b c \<Longrightarrow> confined U a c"
  unfolding confined_def by metis

lemma sendLog_keeps:
  "dsk (snd (sendLog e num n)) = dsk n" "wr (snd (sendLog e num n)) = wr (n :: node)" "st (snd (sendLog e num n)) = st n"
  by (simp_all add: sendLog_def sendToFollower_eq split: option.split)

lemma wstep_confined:
  assumes "works_on U n p"
  shows "works_on U (snd (wstep p n)) (fst (wstep p n)) \<and> confined U n (snd (wstep p n))"
proof (cases p)
  case (SendIt u num)
  then show ?thesis
    using assms sendLog_keeps [of "num @ CHR '';'' # u" num n]
    by (auto simp: confined_def split: prod.split outcome.split)
next
  case (LookUp num)
  with assms obtain u where u: "u \<in> U" "logs (wr n) num = Some u" by auto
  then show ?thesis
    using LookUp confined_refl by (auto simp: target_def split: list.split intro!: bexI [of _ u])
next
  case (ReadFile u d t v)
  then show ?thesis using assms confined_refl by (auto simp: Let_def split: sum.split)
qed (use assms in \<open>auto simp: confined_def Let_def next_num_def set_file_def split: option.split\<close>)

lemma works_on_confined: "works_on U n p \<Longrightarrow> confined U n n' \<Longrightarrow> works_on U n' p"
proof -
  assume "works_on U n p" "confined U n n'"
  moreover from this(2) have "logs (wr n) num \<in> Some ` U \<Longrightarrow> logs (wr n') num \<in> Some ` U" for num
    unfolding confined_def by metis
  ultimately show ?thesis by (cases p) auto
qed

lemma move_confined:
  assumes "\<forall>p \<in> set ps. works_on U n p" and "move i (ps, n) = (ps', n')"
  shows "(\<forall>p \<in> set ps'. works_on U n' p) \<and> confined U n n'"
proof (cases "i < length ps")
  case True
  then have s: "works_on U (snd (wstep (ps ! i) n)) (fst (wstep (ps ! i) n))" "confined U n (snd (wstep (ps ! i) n))"
    using wstep_confined assms(1) by auto
  with True assms works_on_confined show ?thesis
    by (auto simp: move_def Let_def split: prod.splits dest!: set_update_subset_insert [THEN subsetD])
next
  case False
  then show ?thesis using assms confined_refl by (auto simp: move_def)
qed

lemma run_confined:
  assumes "\<forall>p \<in> set ps. works_on U n p" and "run sched (ps, n) = (ps', n')"
  shows "confined U n n'"
  using assms
proof (induction sched arbitrary: ps n)
  case (Cons i sched)
  obtain ps1 n1 where m: "move i (ps, n) = (ps1, n1)" by fastforce
  from move_confined [OF Cons.prems(1) m] Cons.IH [of ps1 n1] Cons.prems(2) m
  show ?case by (auto intro: confined_trans)
qed (simp add: confined_refl)

section \<open>Properties\<close>

text \<open>
  Writes cannot block each other. Whatever the schedule, a write thread ends after at most
  eight of its own steps, so once every thread was scheduled eight times all of them have ended.
\<close>

theorem every_write_ends:
  assumes "\<forall>i < length ps. 8 \<le> count_list sched i"
  shows "\<forall>p \<in> set (fst (run sched (ps, n))). \<exists>r. p = Ended r"
proof
  fix p assume "p \<in> set (fst (run sched (ps, n)))"
  then obtain i where i: "i < length ps" "p = fst (run sched (ps, n)) ! i" by (auto simp: in_set_conv_nth)
  have "left p \<le> left (ps ! i) - count_list sched i" using left_run [of i "(ps, n)" sched] i by simp
  moreover have "left (ps ! i) \<le> 8" by (cases "ps ! i") simp_all
  ultimately have "left p = 0" using assms i(1) by (metis diff_is_0_eq le_trans le_zero_eq)
  then show "\<exists>r. p = Ended r" by (simp add: left_0)
qed

theorem every_write_ends_witness:
  "\<exists>r. hd (fst (run [0, 0, 0, 0, 0, 0, 0, 0] ([TakeNum ''a.com,A,3.3.3.3''], example_leader))) = Ended r"
proof -
  define c where "c = run [0, 0, 0, 0, 0, 0, 0, 0] ([TakeNum ''a.com,A,3.3.3.3''], example_leader)"
  have "length (fst c) = 1" unfolding c_def length_run by simp
  then have "hd (fst c) \<in> set (fst c)" by (cases "fst c") simp_all
  moreover have "\<forall>p \<in> set (fst c). \<exists>r. p = Ended r" unfolding c_def by (rule every_write_ends) simp
  ultimately show ?thesis unfolding c_def by blast
qed

text \<open>
  Damage is confined to the shards being written. Under every schedule of write threads, a file
  that is the shard file of none of their updates keeps its content, a record in memory that is
  none of their records keeps its value, and the log changes only to their updates.
\<close>

theorem writes_confined:
  assumes "run sched (map TakeNum us, n) = (ps, n')"
  shows "(\<forall>p. (\<forall>u \<in> set us. \<forall>k v. target u \<noteq> Some (p, k, v)) \<longrightarrow> files (dsk n') p = files (dsk n) p)
    \<and> (\<forall>k. (\<forall>u \<in> set us. \<forall>p v. target u \<noteq> Some (p, k, v)) \<longrightarrow> records (st n') k = records (st n) k)
    \<and> (\<forall>num. logs (wr n') num \<noteq> logs (wr n) num \<longrightarrow> logs (wr n') num \<in> Some ` set us)"
proof -
  have "confined (set us) n n'" by (rule run_confined [OF _ assms]) simp
  then show ?thesis unfolding confined_def .
qed

theorem writes_confined_witness:
  "\<exists>ps n'. run [0, 1, 0, 0, 1, 1] (map TakeNum [''b.com,A,3.3.3.3'', ''b.org,A,4.4.4.4''], example_leader) = (ps, n')
     \<and> files (dsk n') (shard_path CHR ''a'') = files (dsk example_leader) (shard_path CHR ''a'')"
proof -
  let ?us = "[''b.com,A,3.3.3.3'', ''b.org,A,4.4.4.4'']"
  obtain ps n' where r: "run [0, 1, 0, 0, 1, 1] (map TakeNum ?us, example_leader) = (ps, n')" by fastforce
  have "target ''b.com,A,3.3.3.3'' = Some (shard_path CHR ''b'', (''b.com'', ''A''), ''3.3.3.3'')"
    "target ''b.org,A,4.4.4.4'' = Some (shard_path CHR ''b'', (''b.org'', ''A''), ''4.4.4.4'')" by code_simp+
  with writes_confined [OF r] r show ?thesis by auto
qed

text \<open>A serial schedule: each thread in turn runs to its end.\<close>

definition serial :: "nat list \<Rightarrow> nat list" where
  "serial order = concat (map (replicate 8) order)"

definition write_threads :: "update list \<Rightarrow> wpc list" where
  "write_threads us = map (\<lambda>(d, t, v). TakeNum (update_text d t v)) us"

lemma wstep_raft_set: "raft_set (wr (snd (wstep p n))) = raft_set (wr n)"
proof (cases p)
  case (SendIt u num)
  then show ?thesis
    using sendLog_keeps(2) [of "num @ CHR '';'' # u" num n] by (auto split: prod.split outcome.split)
qed (simp_all add: Let_def next_num_def set_file_def split: option.split)

lemma moves_raft_set: "raft_set (wr (snd (moves k p n))) = raft_set (wr n)"
proof (induction k arbitrary: p n)
  case (Suc k)
  then show ?case using wstep_raft_set [of p n] by (simp split: prod.split) (metis snd_conv)
qed simp

lemma serial_run:
  assumes "distinct order" and "set order \<subseteq> {..<length us}" and "\<forall>u \<in> set us. valid_update u"
    and "raft_set (wr n)" and "length ps = length us"
    and "\<forall>i \<in> set order. ps ! i = write_threads us ! i"
  shows "\<exists>ps'. run (serial order) (ps, n) = (ps', fold write_node (map ((!) us) order) n)
    \<and> length ps' = length us \<and> (\<forall>i \<in> set order. \<exists>r. ps' ! i = Ended r) \<and> (\<forall>i. i \<notin> set order \<longrightarrow> ps' ! i = ps ! i)"
  using assms
proof (induction order arbitrary: ps n)
  case (Cons i order)
  obtain d t v where u: "us ! i = (d, t, v)" by (cases "us ! i")
  have i: "i < length us" using Cons.prems(2) by simp
  then have ok: "update_ok d t v" using Cons.prems(3) u by (metis nth_mem valid_update_def case_prod_conv)
  obtain r n1 where s: "start_write (update_text d t v) n = (r, n1)" by fastforce
  have p: "ps ! i = TakeNum (update_text d t v)" using Cons.prems(6) i u by (simp add: write_threads_def)
  have m: "moves 8 (ps ! i) n = (Ended r, n1)" unfolding p write_moves s by simp
  then have first: "run (replicate 8 i) (ps, n) = (ps[i := Ended r], n1)"
    using run_replicate [of i ps 8 n] i Cons.prems(5) by simp
  have n1: "n1 = write_node (us ! i) n" using write_node_start [OF ok Cons.prems(4)] s u by simp
  have "raft_set (wr n1)" using moves_raft_set [of 8 "ps ! i" n] m Cons.prems(4) by simp
  moreover have "\<forall>j \<in> set order. ps[i := Ended r] ! j = write_threads us ! j"
    using Cons.prems(1,6) by (metis distinct.simps(2) list.set_intros(2) nth_list_update_neq)
  ultimately obtain ps' where ps': "run (serial order) (ps[i := Ended r], n1) = (ps', fold write_node (map ((!) us) order) n1)"
    "length ps' = length us" "\<forall>j \<in> set order. \<exists>r. ps' ! j = Ended r" "\<forall>j. j \<notin> set order \<longrightarrow> ps' ! j = ps[i := Ended r] ! j"
    using Cons.IH [of n1 "ps[i := Ended r]"] Cons.prems by auto
  have "run (serial (i # order)) (ps, n) = (ps', fold write_node (map ((!) us) (i # order)) n)"
    using first ps'(1) n1 by (simp only: serial_def list.map concat.simps run_append) simp
  moreover have "ps' ! i = Ended r" using ps'(4) Cons.prems(1,5) i by simp
  ultimately show ?case using ps'(2-4) by (intro exI [of _ ps']) auto
qed (simp add: serial_def)

text \<open>
  The statements add up to the handler. If the threads of well-formed writes run one after the
  other, in any order, all of them end and the node is the one that handling the messages in this
  order with \<^verbatim>\<open>writeHandler\<close> leaves behind. (A lock around the handler would enforce such schedules.)
\<close>

theorem serial_threads_are_handlers:
  assumes "\<forall>u \<in> set us. valid_update u" and "raft_set (wr n)"
    and "distinct order" and "set order = {..<length us}"
  shows "\<exists>ps. run (serial order) (write_threads us, n) = (ps, fold write_node (map ((!) us) order) n)
    \<and> (\<forall>p \<in> set ps. \<exists>r. p = Ended r)"
proof -
  have "length (write_threads us) = length us" by (simp add: write_threads_def)
  from serial_run [OF assms(3) _ assms(1,2) this] assms(4)
  obtain ps where "run (serial order) (write_threads us, n) = (ps, fold write_node (map ((!) us) order) n)"
    "length ps = length us" "\<forall>i < length us. \<exists>r. ps ! i = Ended r" by auto
  then show ?thesis by (metis in_set_conv_nth)
qed

theorem serial_threads_are_handlers_witness:
  "\<exists>ps n. run (serial [1, 0]) (write_threads [(''a.com'', ''A'', ''3.3.3.3''), (''b.com'', ''A'', ''4.4.4.4'')],
       example_leader\<lparr>wr := writer_init\<lparr>raft_set := True\<rparr>\<rparr>) = (ps, n)
     \<and> n = write_node (''a.com'', ''A'', ''3.3.3.3'') (write_node (''b.com'', ''A'', ''4.4.4.4'')
         (example_leader\<lparr>wr := writer_init\<lparr>raft_set := True\<rparr>\<rparr>))"
proof -
  have "set [1, 0] = {..<length [(''a.com'', ''A'', ''3.3.3.3''), (''b.com'', ''A'', ''4.4.4.4'')]}" by auto
  with serial_threads_are_handlers [of "[(''a.com'', ''A'', ''3.3.3.3''), (''b.com'', ''A'', ''4.4.4.4'')]"
      "example_leader\<lparr>wr := writer_init\<lparr>raft_set := True\<rparr>\<rparr>" "[1, 0]"] example_updates
  show ?thesis by (auto simp: valid_update_def)
qed

section \<open>Races\<close>

text \<open>A well-formed write up to the point where it has read the file.\<close>

definition logged :: "string \<Rightarrow> node \<Rightarrow> node" where
  "logged u n =
     (let k = currLogNum (rf n) + 1
      in n\<lparr>rf := (rf n)\<lparr>currLogNum := k\<rparr>, net := net n @ log_packets (str_int k) u (st n),
           wr := (wr n)\<lparr>logs := (logs (wr n))(str_int k \<mapsto> u)\<rparr>\<rparr>)"

lemma logged_fields [simp]:
  "dsk (logged u n) = dsk n" "st (logged u n) = st n" "currLogNum (rf (logged u n)) = currLogNum (rf n) + 1"
  "logs (wr (logged u n)) = (logs (wr n))(str_int (currLogNum (rf n) + 1) \<mapsto> u)"
  by (simp_all add: logged_def Let_def)

lemma send_moves:
  assumes "printable k"
  shows "wstep (SendIt u (str_int k)) n =
    (LookUp (str_int k), n\<lparr>rf := (rf n)\<lparr>currLogNum := k\<rparr>, net := net n @ log_packets (str_int k) u (st n)\<rparr>)"
  using assms by (simp add: printable_def py_int_str_int sendLog_eq)

lemma log_moves:
  assumes "printable (currLogNum (rf n) + 1)"
  shows "moves 3 (TakeNum u) n = (LookUp (str_int (currLogNum (rf n) + 1)), logged u n)"
  using assms send_moves [OF assms, of u] by (simp add: numeral_3_eq_3 next_num_def logged_def Let_def)

lemma look_step:
  assumes "update_ok d t v" and "logs (wr n) num = Some (update_text d t v)"
  shows "wstep (LookUp num) n = (ReadFile (update_text d t v) d t v, n)"
proof -
  have f: "strip d = d" "strip t = t" "strip v = v" "d \<noteq> []"
    using assms(1) by (simp_all add: update_ok_def field_strip) (simp add: field_ok_def)
  show ?thesis using assms(2) f update_chars [OF assms(1)] by (simp add: update_split [OF assms(1)] strip_id update_stripped [OF assms(1)])
qed

lemma read_step:
  assumes "disk_ok (dsk n) d"
  shows "wstep (ReadFile u d t v) n =
    (OpenFile (update_path d) (concat (rewrite_lines d u (shard_lines (dsk n) (lower_char (hd d))))) d t v, n)"
  using assms by (simp add: open_read_def disk_ok_def update_path_def shard_lines_def Let_def split: option.split)

lemma moves_add: "moves (a + b) p n = (case moves a p n of (p', n') \<Rightarrow> moves b p' n')"
  by (induction a arbitrary: p n) (simp_all split: prod.split)

lemma prepare_moves:
  assumes "update_ok d t v" and "printable (currLogNum (rf n) + 1)" and "disk_ok (dsk n) d"
  shows "moves 5 (TakeNum (update_text d t v)) n =
    (OpenFile (update_path d) (concat (rewrite_lines d (update_text d t v) (shard_lines (dsk n) (lower_char (hd d))))) d t v,
     logged (update_text d t v) n)"
proof -
  have "moves 5 (TakeNum (update_text d t v)) n = moves (3 + 2) (TakeNum (update_text d t v)) n" by simp
  also have "\<dots> = moves 2 (LookUp (str_int (currLogNum (rf n) + 1))) (logged (update_text d t v) n)"
    unfolding moves_add log_moves [OF assms(2)] by simp
  also have "\<dots> = wstep (ReadFile (update_text d t v) d t v) (logged (update_text d t v) n)"
    using look_step [OF assms(1), of "logged (update_text d t v) n" "str_int (currLogNum (rf n) + 1)"]
    by (simp add: numeral_2_eq_2 del: wstep.simps split: prod.split)
  also have "\<dots> = (OpenFile (update_path d) (concat (rewrite_lines d (update_text d t v) (shard_lines (dsk n) (lower_char (hd d))))) d t v,
     logged (update_text d t v) n)"
    using read_step [of "logged (update_text d t v) n" d] assms(3) by simp
  finally show ?thesis .
qed

lemma open_step:
  assumes "disk_ok (dsk n) d" "path = update_path d"
  shows "wstep (OpenFile path c d t v) n = (WriteFile path c d t v, set_file path [] n)"
  using assms by (simp add: disk_ok_def)

text \<open>
  C28: two writes at the same time can erase a shard. Take any two well-formed writes for different
  domains with the same first letter. If the first thread has opened the file for writing when the
  second one reads it, and the second one writes last, then both writes succeed, but the shard file
  holds the second record alone: the first record and everything stored before are gone.
\<close>

theorem concurrent_writes_erase_shard:
  assumes "update_ok d0 t0 v0" and "update_ok d1 t1 v1" and "lower_char (hd d1) = lower_char (hd d0)" and "d0 \<noteq> d1"
    and "disk_ok (dsk n) d0" and "printable (currLogNum (rf n) + 1)" and "printable (currLogNum (rf n) + 2)"
  shows "\<exists>n'. run (replicate 6 0 @ replicate 5 1 @ replicate 2 0 @ replicate 3 1) (write_threads [(d0, t0, v0), (d1, t1, v1)], n)
      = ([Ended Done, Ended Done], n')
    \<and> files (dsk n') (update_path d0) = Some (update_text d1 t1 v1 @ [NL])
    \<and> (\<forall>d t. lower_char (hd d) = lower_char (hd d0) \<and> d \<noteq> d1 \<longrightarrow> disk_look (dsk n') (d, t) = None)"
proof -
  let ?u0 = "update_text d0 t0 v0" and ?u1 = "update_text d1 t1 v1" and ?p = "update_path d0"
  let ?c0 = "concat (rewrite_lines d0 ?u0 (shard_lines (dsk n) (lower_char (hd d0))))"
  have p1: "update_path d1 = ?p" using assms(3) by (simp add: update_path_def)
  define n1 where "n1 = set_file ?p [] (logged ?u0 n)"
  define n2 where "n2 = logged ?u1 n1"
  define n3 where "n3 = snd (moves 2 (WriteFile ?p ?c0 d0 t0 v0) n2)"
  have ok: "disk_ok (dsk n1) d1" "disk_ok (dsk n3) d1"
    using assms(3,5) by (simp_all add: n1_def n2_def n3_def set_file_def disk_ok_def update_path_def numeral_2_eq_2)
  have a: "moves 6 (TakeNum ?u0) n = (WriteFile ?p ?c0 d0 t0 v0, n1)"
    using prepare_moves [OF assms(1,6,5)] open_step [of "logged ?u0 n" d0 ?p] assms(5)
    by (simp add: moves_add [of 5 1, simplified] n1_def del: moves_Suc wstep.simps)
  have e: "shard_lines (dsk n1) (lower_char (hd d1)) = []"
    using assms(3) by (simp add: n1_def set_file_def shard_lines_def update_path_def file_lines_def)
  have k: "printable (currLogNum (rf n1) + 1)" using assms(7) by (simp add: n1_def set_file_def add.assoc)
  have b: "moves 5 (TakeNum ?u1) n1 = (OpenFile ?p (?u1 @ [NL]) d1 t1 v1, n2)"
    using prepare_moves [OF assms(2) k ok(1)] by (simp add: e p1 n2_def rewrite_lines_def)
  have c: "moves 2 (WriteFile ?p ?c0 d0 t0 v0) n2 = (Ended Done, n3)" by (simp add: n3_def numeral_2_eq_2)
  obtain n' where d: "moves 3 (OpenFile ?p (?u1 @ [NL]) d1 t1 v1) n3 = (Ended Done, n')"
    "dsk n' = (dsk n3)\<lparr>files := (files (dsk n3))(?p \<mapsto> ?u1 @ [NL])\<rparr>"
    using ok(2) by (simp add: open_moves open_write_def disk_ok_def p1)
  have "run (replicate 6 0 @ replicate 5 1 @ replicate 2 0 @ replicate 3 1) (write_threads [(d0, t0, v0), (d1, t1, v1)], n)
      = ([Ended Done, Ended Done], n')"
    using a b c d(1) by (simp add: run_append run_replicate write_threads_def del: replicate_Suc run_Cons)
  moreover have "shard_lines (dsk n') (lower_char (hd d0)) = [?u1 @ [NL]]"
    using file_lines_concat [of "[?u1 @ [NL]]"] full_line_update [OF assms(2)]
    by (simp add: d(2) shard_lines_def update_path_def)
  ultimately show ?thesis
    using d(2) line_record_update [OF assms(2)] by (auto simp: disk_look_def)
qed

lemma printable_inj: "printable i \<Longrightarrow> printable j \<Longrightarrow> str_int i = str_int j \<Longrightarrow> i = j"
  unfolding printable_def by (metis py_int_str_int option.inject)

lemma commit_look:
  assumes "update_ok d t v" and "logs (wr n) num = Some (update_text d t v)" and "disk_sound (dsk n)"
  obtains n' where "moves 5 (LookUp num) n = (Ended Done, n')"
    "disk_look (dsk n') = replace (d, t, v) (disk_look (dsk n))" "disk_sound (dsk n')"
    "wr n' = wr n" "rf n' = rf n" "records (st n') = (records (st n))((d, t) \<mapsto> v)"
proof -
  note c = commit_eq [OF assms(1,2) disk_sound_ok(1) [OF assms(3)]]
  obtain n' where n': "commitHandler num n = (Done, n')" using c by blast
  then have "dsk n' = dsk (written d t v n)" using c by (auto simp: written_def Let_def)
  then show thesis
    using c n' written_look [OF assms(1,3)] written_sound [OF assms(1,3)]
    by (intro that [of n']) (auto simp: commit_moves)
qed

text \<open>
  A slow thread sets the number back, and the third thread takes the number of the second one.
\<close>

lemma number_reused:
  assumes "printable (currLogNum (rf n) + 1)" and "printable (currLogNum (rf n) + 2)"
    and k: "k1 = str_int (currLogNum (rf n) + 1)" "k2 = str_int (currLogNum (rf n) + 2)"
  obtains n' where "run ([0] @ replicate 3 1 @ replicate 2 0 @ replicate 2 2) ([TakeNum a, TakeNum b, TakeNum c], n) =
      ([LookUp k1, LookUp k2, SendIt c k2], n')"
    "logs (wr n') k1 = Some a" "logs (wr n') k2 = Some c" "dsk n' = dsk n" "st n' = st n"
proof -
  have ne: "k1 \<noteq> k2" using printable_inj [OF assms(1,2)] k by auto
  define n1 where "n1 = n\<lparr>rf := (rf n)\<lparr>currLogNum := currLogNum (rf n) + 1\<rparr>\<rparr>"
  have m1: "moves 1 (TakeNum a) n = (LogIt a k1, n1)" using assms(1) by (simp add: next_num_def n1_def k Let_def)
  define n2 where "n2 = logged b n1"
  have c1: "currLogNum (rf n1) + 1 = currLogNum (rf n) + 2" by (simp add: n1_def)
  have m2: "moves 3 (TakeNum b) n1 = (LookUp k2, n2)"
    using log_moves [of n1 b] assms(2) by (simp only: c1 n2_def k)
  define n3 where "n3 = snd (moves 2 (LogIt a k1) n2)"
  note send = send_moves [OF assms(1), folded k]
  have m3: "moves 2 (LogIt a k1) n2 = (LookUp k1, n3)"
    using send [of a] by (simp add: n3_def numeral_2_eq_2 del: wstep.simps(3))
  have f3: "currLogNum (rf n3) = currLogNum (rf n) + 1" "logs (wr n3) = (logs (wr n))(k2 \<mapsto> b, k1 \<mapsto> a)"
    "dsk n3 = dsk n" "st n3 = st n"
    using send [of a] c1
    by (simp_all add: n3_def n2_def numeral_2_eq_2 del: wstep.simps(3)) (simp_all add: n1_def k add.commute [of 2])
  define n4 where "n4 = snd (moves 2 (TakeNum c) n3)"
  have m4: "moves 2 (TakeNum c) n3 = (SendIt c k2, n4)"
    using assms(2) by (simp add: n4_def numeral_2_eq_2 next_num_def f3(1) add.assoc Let_def k)
  have s: "[0] = replicate 1 (0 :: nat)" by simp
  show thesis
  proof (rule that [of n4])
    show "run ([0] @ replicate 3 1 @ replicate 2 0 @ replicate 2 2) ([TakeNum a, TakeNum b, TakeNum c], n) =
      ([LookUp k1, LookUp k2, SendIt c k2], n4)"
      unfolding s run_append using m1 m2 m3 m4
      by (simp add: run_replicate numeral_2_eq_2 del: replicate_Suc run_Cons moves_Suc)
  qed (use ne f3 k assms(2) in \<open>simp_all add: n4_def numeral_2_eq_2 next_num_def add.assoc Let_def\<close>)
qed

text \<open>
  C29: a write can vanish although it was acknowledged. Sending an entry sets the log number back to
  the entry's own number, so a slow thread makes a number be given out twice, and the second owner
  overwrites the log entry of the first before that one has looked it up. Take any three well-formed
  writes A, B, C where the domain of B differs from the other two. There is a schedule under which all
  three succeed, while neither the files nor the records in memory show any trace of B.
\<close>

theorem reused_number_loses_write:
  assumes "update_ok da ta va" and "update_ok db tb vb" and "update_ok dc tc vc" and "db \<noteq> da" and "db \<noteq> dc"
    and "disk_sound (dsk n)" and "printable (currLogNum (rf n) + 1)" and "printable (currLogNum (rf n) + 2)"
  shows "\<exists>sched n'. run sched (write_threads [(da, ta, va), (db, tb, vb), (dc, tc, vc)], n) = ([Ended Done, Ended Done, Ended Done], n')
    \<and> (\<forall>t. disk_look (dsk n') (db, t) = disk_look (dsk n) (db, t) \<and> records (st n') (db, t) = records (st n) (db, t))"
proof -
  let ?ua = "update_text da ta va" and ?ub = "update_text db tb vb" and ?uc = "update_text dc tc vc"
  define k1 k2 where k: "k1 = str_int (currLogNum (rf n) + 1)" "k2 = str_int (currLogNum (rf n) + 2)"
  obtain n4 where n4: "run ([0] @ replicate 3 1 @ replicate 2 0 @ replicate 2 2) ([TakeNum ?ua, TakeNum ?ub, TakeNum ?uc], n) =
      ([LookUp k1, LookUp k2, SendIt ?uc k2], n4)" "logs (wr n4) k1 = Some ?ua" "logs (wr n4) k2 = Some ?uc"
    "dsk n4 = dsk n" "st n4 = st n"
    using number_reused [OF assms(7,8) k] by blast
  obtain n5 where n5: "moves 5 (LookUp k2) n4 = (Ended Done, n5)" "disk_look (dsk n5) = replace (dc, tc, vc) (disk_look (dsk n4))"
    "disk_sound (dsk n5)" "wr n5 = wr n4" "records (st n5) = (records (st n4))((dc, tc) \<mapsto> vc)"
    using commit_look [OF assms(3) n4(3)] assms(6) n4(4) by metis
  obtain n6 where n6: "moves 5 (LookUp k1) n5 = (Ended Done, n6)" "disk_look (dsk n6) = replace (da, ta, va) (disk_look (dsk n5))"
    "disk_sound (dsk n6)" "wr n6 = wr n5" "records (st n6) = (records (st n5))((da, ta) \<mapsto> va)"
    using commit_look [OF assms(1), of n5 k1] n5 n4(2) by metis
  define n7 where "n7 = snd (wstep (SendIt ?uc k2) n6)"
  have m7: "wstep (SendIt ?uc k2) n6 = (LookUp k2, n7)" "dsk n7 = dsk n6" "wr n7 = wr n6" "st n7 = st n6"
    using send_moves [OF assms(8), of ?uc] by (simp_all add: n7_def k del: wstep.simps)
  obtain n' where n': "moves 5 (LookUp k2) n7 = (Ended Done, n')" "disk_look (dsk n') = replace (dc, tc, vc) (disk_look (dsk n7))"
    "records (st n') = (records (st n7))((dc, tc) \<mapsto> vc)"
    using commit_look [OF assms(3), of n7 k2] n5 n6 m7 n4(3) by metis
  have m8: "moves 6 (SendIt ?uc k2) n6 = (Ended Done, n')"
    using m7(1) n'(1) moves_add [of 1 5] by (simp del: wstep.simps moves_Suc) (simp del: wstep.simps)
  have "run (replicate 5 1 @ replicate 5 0 @ replicate 6 2) ([LookUp k1, LookUp k2, SendIt ?uc k2], n4) =
      ([Ended Done, Ended Done, Ended Done], n')"
    unfolding run_append using n5(1) n6(1) m8
    by (simp add: run_replicate numeral_2_eq_2 del: replicate_Suc run_Cons moves_Suc)
  with n4(1) have "run (([0] @ replicate 3 1 @ replicate 2 0 @ replicate 2 2) @ replicate 5 1 @ replicate 5 0 @ replicate 6 2)
        (write_threads [(da, ta, va), (db, tb, vb), (dc, tc, vc)], n) = ([Ended Done, Ended Done, Ended Done], n')"
    unfolding run_append [of "_ @ _"] write_threads_def by simp
  moreover have "disk_look (dsk n') (db, t) = disk_look (dsk n) (db, t)" "records (st n') (db, t) = records (st n) (db, t)" for t
    using assms(4,5) n4 n5 n6 n' m7 by (simp_all add: replace_apply)
  ultimately show ?thesis by blast
qed

lemma example_printable: "printable (currLogNum (rf example_leader) + 1)" "printable (currLogNum (rf example_leader) + 2)"
  unfolding example_leader_fields by code_simp+

theorem concurrent_writes_erase_shard_witness:
  "\<exists>n'. run (replicate 6 0 @ replicate 5 1 @ replicate 2 0 @ replicate 3 1)
       (write_threads [(''a.com'', ''A'', ''3.3.3.3''), (''a.org'', ''A'', ''4.4.4.4'')], example_leader) = ([Ended Done, Ended Done], n')
     \<and> disk_look (dsk n') (''a.com'', ''A'') = None"
proof -
  have u: "update_ok ''a.com'' ''A'' ''3.3.3.3''" "update_ok ''a.org'' ''A'' ''4.4.4.4''" by code_simp+
  have "disk_ok (dsk example_leader) ''a.com''"
    unfolding example_leader_fields by (rule disk_sound_ok(1) [OF example_disk_sound])
  from concurrent_writes_erase_shard [OF u _ _ this example_printable] show ?thesis by auto
qed

theorem reused_number_loses_write_witness:
  "\<exists>sched n'. run sched (write_threads [(''a.com'', ''A'', ''3.3.3.3''), (''b.org'', ''A'', ''4.4.4.4''), (''a.org'', ''A'', ''4.4.4.4'')],
       example_leader) = ([Ended Done, Ended Done, Ended Done], n')
     \<and> records (st n') (''b.org'', ''A'') = records (st example_leader) (''b.org'', ''A'')"
proof -
  have u: "update_ok ''a.com'' ''A'' ''3.3.3.3''" "update_ok ''b.org'' ''A'' ''4.4.4.4''" "update_ok ''a.org'' ''A'' ''4.4.4.4''" by code_simp+
  have "disk_sound (dsk example_leader)" unfolding example_leader_fields by (rule example_disk_sound)
  from reused_number_loses_write [OF u _ _ this example_printable] show ?thesis by (simp, blast)
qed

end
