(* ===== verification/Write_Races.thy ===== *)
theory Write_Races
  imports Write_Threads Node_Threads
begin

text \<open>
  What races between writes leave intact. The write threads are those of \<open>Write_Threads\<close>, which
  switch between statements. A commit that has looked up its update is not disturbed by writes to
  other shard files; and under every schedule the shard files stay terminated by a line feed and
  the packets stay complete lines, the part of the node invariant of \<open>Node_Threads\<close> that does not
  rest on whole loop iterations.
\<close>

section \<open>A commit among writes to other files\<close>

text \<open>
  The stages of a commit that started from the lines \<open>ls\<close> of its shard file: what the file holds
  and what the thread will write at each of its program points.
\<close>

fun commit_stage :: "update \<Rightarrow> string list \<Rightarrow> wpc \<Rightarrow> node \<Rightarrow> bool" where
  "commit_stage (d, t, v) ls (ReadFile u d' t' v') n \<longleftrightarrow>
     u = update_text d t v \<and> d' = d \<and> t' = t \<and> v' = v \<and> shard_lines (dsk n) (lower_char (hd d)) = ls"
| "commit_stage (d, t, v) ls (OpenFile p c d' t' v') n \<longleftrightarrow>
     p = update_path d \<and> c = concat (rewrite_lines d (update_text d t v) ls) \<and> d' = d \<and> t' = t \<and> v' = v"
| "commit_stage (d, t, v) ls (WriteFile p c d' t' v') n \<longleftrightarrow>
     p = update_path d \<and> c = concat (rewrite_lines d (update_text d t v) ls) \<and> d' = d \<and> t' = t \<and> v' = v
     \<and> files (dsk n) p = Some []"
| "commit_stage (d, t, v) ls (SetRecord d' t' v') n \<longleftrightarrow>
     d' = d \<and> t' = t \<and> v' = v
     \<and> files (dsk n) (update_path d) = Some (concat (rewrite_lines d (update_text d t v) ls))"
| "commit_stage (d, t, v) ls (Ended r) n \<longleftrightarrow>
     r = Done \<and> records (st n) (d, t) = Some v
     \<and> files (dsk n) (update_path d) = Some (concat (rewrite_lines d (update_text d t v) ls))"
| "commit_stage u ls p n \<longleftrightarrow> False"

lemma wstep_faults:
  "read_fault (dsk (snd (wstep p n))) = read_fault (dsk n)" "write_fault (dsk (snd (wstep p n))) = write_fault (dsk n)"
proof -
  have "read_fault (dsk (snd (wstep p n))) = read_fault (dsk n) \<and> write_fault (dsk (snd (wstep p n))) = write_fault (dsk n)"
  proof (cases p)
    case (SendIt u num)
    then show ?thesis
      using sendLog_keeps(1) [of "num @ CHR '';'' # u" num n] by (auto split: prod.split outcome.split)
  qed (simp_all add: Let_def next_num_def set_file_def split: option.split)
  then show "read_fault (dsk (snd (wstep p n))) = read_fault (dsk n)"
    "write_fault (dsk (snd (wstep p n))) = write_fault (dsk n)" by simp_all
qed

text \<open>The thread's own steps go from one stage to the next.\<close>

lemma own_step_stage:
  assumes "commit_stage (d, t, v) ls p n" and "disk_ok (dsk n) d"
  shows "commit_stage (d, t, v) ls (fst (wstep p n)) (snd (wstep p n))"
proof (cases p)
  case (ReadFile u d' t' v')
  then show ?thesis using assms read_step [of n d u t v] by (simp del: wstep.simps)
next
  case (OpenFile path c d' t' v')
  then show ?thesis
    using assms open_step [OF assms(2), of path c t v] by (simp add: set_file_def del: wstep.simps)
qed (use assms in \<open>simp_all add: set_file_def\<close>)

text \<open>Writes whose updates do not go to the file leave the stage as it is.\<close>

lemma target_path: "target u = Some (p, (d, t), v) \<Longrightarrow> p = update_path d"
  by (auto simp: target_def update_path_def split: list.splits if_splits)

lemma other_step_stage:
  assumes "commit_stage (d, t, v) ls p n" and "confined U n n'"
    and "\<forall>u \<in> U. \<forall>q k w. target u = Some (q, k, w) \<longrightarrow> q \<noteq> update_path d"
  shows "commit_stage (d, t, v) ls p n'"
proof -
  have f: "files (dsk n') (update_path d) = files (dsk n) (update_path d)"
    using assms(2,3) unfolding confined_def by blast
  have "records (st n') (d, t) = records (st n) (d, t)"
    using assms(2,3) target_path unfolding confined_def by blast
  with f assms(1) show ?thesis
    by (cases p) (auto simp: shard_lines_def update_path_def)
qed

text \<open>The thread does not change the log, so the others keep working on their updates.\<close>

lemma stage_others:
  assumes "commit_stage (d, t, v) ls p n" and "works_on U n q"
  shows "works_on U (snd (wstep p n)) q"
proof -
  have "wr (snd (wstep p n)) = wr n"
    using assms(1) by (cases p) (simp_all add: Let_def set_file_def split: option.split)
  then show ?thesis using assms(2) by (cases q) simp_all
qed

lemma run_stage:
  assumes "i < length ps" and "commit_stage (d, t, v) ls (ps ! i) n" and "disk_ok (dsk n) d"
    and "\<forall>j < length ps. j \<noteq> i \<longrightarrow> works_on U n (ps ! j)"
    and "\<forall>u \<in> U. \<forall>q k w. target u = Some (q, k, w) \<longrightarrow> q \<noteq> update_path d"
    and "run sched (ps, n) = (ps', n')"
  shows "commit_stage (d, t, v) ls (ps' ! i) n'"
  using assms(1-4,6)
proof (induction sched arbitrary: ps n)
  case (Cons j sched)
  obtain p1 n1 where w: "wstep (ps ! j) n = (p1, n1)" by fastforce
  have dk: "disk_ok (dsk n1) d" using Cons.prems(3) wstep_faults [of "ps ! j" n] w by (simp add: disk_ok_def)
  show ?case
  proof (cases "j < length ps")
    case True
    then have r: "run sched (ps[j := p1], n1) = (ps', n')" using Cons.prems(5) w by (simp add: move_def)
    show ?thesis
    proof (cases "j = i")
      case True
      have "commit_stage (d, t, v) ls p1 n1"
        using own_step_stage [OF Cons.prems(2,3)] w True by simp
      moreover have "works_on U n1 (ps[j := p1] ! k)" if "k < length ps" "k \<noteq> i" for k
        using Cons.prems(2,4) that True w stage_others [of d t v ls "ps ! i" n U "ps ! k"] by simp
      ultimately show ?thesis using Cons.IH [OF _ _ dk _ r] True Cons.prems(1) by simp
    next
      case False
      have "works_on U n (ps ! j)" using Cons.prems(4) True False by simp
      from wstep_confined [OF this] w have c: "works_on U n1 p1" "confined U n n1" by simp_all
      have "works_on U n1 (ps[j := p1] ! k)" if "k < length ps" "k \<noteq> i" for k
        using c that Cons.prems(4) works_on_confined by (cases "k = j") auto
      moreover have "commit_stage (d, t, v) ls (ps[j := p1] ! i) n1"
        using other_step_stage [OF Cons.prems(2) c(2) assms(5)] False by simp
      ultimately show ?thesis using Cons.IH [OF _ _ dk _ r] Cons.prems(1) by simp
    qed
  next
    case False
    then show ?thesis using Cons.IH [OF Cons.prems(1-4)] Cons.prems(5) by (simp add: move_def)
  qed
qed simp

section \<open>Files and packets under every schedule\<close>

text \<open>What a thread is about to write is terminated.\<close>

fun writes_text :: "wpc \<Rightarrow> bool" where
  "writes_text (OpenFile p c d t v) \<longleftrightarrow> terminated c"
| "writes_text (WriteFile p c d t v) \<longleftrightarrow> terminated c"
| "writes_text p \<longleftrightarrow> True"

lemma overlay_terminated: "terminated content \<Longrightarrow> terminated cur \<Longrightarrow> terminated (overlay content cur)"
  by (auto simp: terminated_def overlay_def last_append last_drop)

lemma set_file_inv:
  assumes "disk_inv (dsk n)" and "\<And>c. path = shard_path c \<Longrightarrow> terminated content"
  shows "disk_inv (dsk (set_file path content n))"
  using assms by (auto simp: disk_inv_def set_file_def)

lemma rewrite_terminated: "\<forall>l \<in> set ls. l \<noteq> [] \<and> last l = NL \<Longrightarrow> terminated (concat (rewrite_lines d u ls))"
  using concat_last rewrite_last by blast

lemma sendLog_net: "net_inv (net n) \<Longrightarrow> net_inv (net (snd (sendLog (num @ CHR '';'' # u) num n)))"
  by (auto simp: sendLog_def sendToFollower_eq net_inv_def split: option.split)

lemma wstep_files:
  assumes "writes_text p" and "disk_inv (dsk n)" and "net_inv (net n)"
  shows "writes_text (fst (wstep p n)) \<and> disk_inv (dsk (snd (wstep p n))) \<and> net_inv (net (snd (wstep p n)))"
proof (cases p)
  case (SendIt u num)
  then show ?thesis
    using assms sendLog_keeps(1) [of "num @ CHR '';'' # u" num n] sendLog_net [of n num u]
    by (auto split: prod.split outcome.split)
next
  case (ReadFile u d t v)
  then show ?thesis
    using assms rewrite_terminated [OF open_read_lines [OF assms(2)]] rewrite_terminated [of "[]" d u]
    by (auto simp: Let_def split: sum.split)
next
  case (OpenFile path c d t v)
  then show ?thesis
    using assms set_file_inv [OF assms(2), of path "[]"]
    by (auto simp: terminated_def set_file_def split: option.split)
next
  case (WriteFile path c d t v)
  have "terminated (overlay c (case files (dsk n) path of None \<Rightarrow> [] | Some x \<Rightarrow> x))" if "path = shard_path l" for l
  proof (rule overlay_terminated)
    show "terminated (case files (dsk n) path of None \<Rightarrow> [] | Some x \<Rightarrow> x)"
      using assms(2) that by (auto simp: disk_inv_def terminated_def split: option.split)
  qed (use assms(1) WriteFile in simp)
  from set_file_inv [OF assms(2) this] WriteFile assms(3) show ?thesis by (simp add: set_file_def)
qed (use assms in \<open>auto simp: next_num_def Let_def split: option.split list.split\<close>)

text \<open>
  Races do not break the files or the protocol. Under every schedule of write threads, on any
  updates, every shard file stays empty or ends in a line feed, and every packet sent is a
  complete line for the heartbeat or the write port.
\<close>

theorem racing_writes_keep_lines:
  assumes "run sched (map TakeNum us, n) = (ps, n')" and "disk_inv (dsk n)" and "net_inv (net n)"
  shows "disk_inv (dsk n') \<and> net_inv (net n')"
proof -
  have "disk_inv (dsk n') \<and> net_inv (net n')"
    if "run sched (qs, n) = (ps, n')" "\<forall>q \<in> set qs. writes_text q" "disk_inv (dsk n)" "net_inv (net n)" for qs n
    using that
  proof (induction sched arbitrary: qs n)
    case (Cons i sched)
    show ?case
    proof (cases "i < length qs")
      case True
      obtain q m where w: "wstep (qs ! i) n = (q, m)" by fastforce
      with wstep_files [of "qs ! i" n] Cons.prems True
      have "writes_text q" "disk_inv (dsk m)" "net_inv (net m)" by auto
      moreover from this(1) Cons.prems(2) have "\<forall>q \<in> set (qs[i := q]). writes_text q"
        by (auto dest!: set_update_subset_insert [THEN subsetD])
      moreover have "run sched (qs[i := q], m) = (ps, n')" using Cons.prems(1) True w by (simp add: move_def)
      ultimately show ?thesis using Cons.IH by blast
    qed (use Cons in \<open>simp add: move_def\<close>)
  qed simp
  from this [OF assms(1) _ assms(2,3)] show ?thesis by simp
qed

theorem racing_writes_keep_lines_witness:
  "\<exists>ps n'. run [0, 1, 0, 0, 1, 1, 0, 0, 1, 1, 0, 1, 0] (map TakeNum [''a.com,A,3.3.3.3'', ''a.org,A,4''], example_leader) = (ps, n')
     \<and> disk_inv (dsk n') \<and> net_inv (net n')"
proof -
  obtain ps n' where r: "run [0, 1, 0, 0, 1, 1, 0, 0, 1, 1, 0, 1, 0]
      (map TakeNum [''a.com,A,3.3.3.3'', ''a.org,A,4''], example_leader) = (ps, n')" by fastforce
  have "disk_inv (dsk example_leader)" "net_inv (net example_leader)"
    by (simp_all add: example_leader_fields example_disk_inv net_inv_def)
  from racing_writes_keep_lines [OF r this] r show ?thesis by blast
qed

section \<open>Properties\<close>

text \<open>
  C17: a commit is isolated from concurrent writes to other shards, statement by statement. Take a
  write thread that has looked up its well-formed update and is about to read its shard file,
  whose lines are complete, on a disk without faults, and any number of other write threads at any
  program points, none of them working on an update for the same file. Under every schedule that
  gives the thread its four remaining steps, it ends without an error, memory and file hold its
  value for its key, and every record of another domain in the same file is what it was.
\<close>

theorem commit_undisturbed:
  assumes "update_ok d t v" and "i < length ps" and "ps ! i = ReadFile (update_text d t v) d t v"
    and "disk_ok (dsk n) d" and "file_complete (dsk n) d"
    and "\<forall>j < length ps. j \<noteq> i \<longrightarrow> works_on U n (ps ! j)"
    and "\<forall>u \<in> U. \<forall>p k w. target u = Some (p, k, w) \<longrightarrow> p \<noteq> update_path d"
    and "4 \<le> count_list sched i" and "run sched (ps, n) = (ps', n')"
  shows "ps' ! i = Ended Done \<and> records (st n') (d, t) = Some v \<and> disk_look (dsk n') (d, t) = Some v
    \<and> (\<forall>d' t'. d' \<noteq> d \<and> lower_char (hd d') = lower_char (hd d) \<longrightarrow>
         disk_look (dsk n') (d', t') = disk_look (dsk n) (d', t'))"
proof -
  let ?ls = "shard_lines (dsk n) (lower_char (hd d))"
  let ?new = "rewrite_lines d (update_text d t v) ?ls"
  have "commit_stage (d, t, v) ?ls (ps ! i) n" using assms(3) by simp
  from run_stage [OF assms(2) this assms(4,6,7,9)] have s: "commit_stage (d, t, v) ?ls (ps' ! i) n'" .
  have "left (ps' ! i) = 0" using left_run [of i "(ps, n)" sched] assms(2,3,8,9) by simp
  then obtain r where r: "ps' ! i = Ended r" by (auto simp: left_0)
  have f: "r = Done" "records (st n') (d, t) = Some v" "files (dsk n') (update_path d) = Some (concat ?new)"
    using s r by simp_all
  then have l: "shard_lines (dsk n') (lower_char (hd d)) = ?new"
    using rewrite_lines_full [OF assms(1) file_complete_full [OF assms(5)]]
    by (simp add: shard_lines_def update_path_def file_lines_concat)
  show ?thesis
    using r f(1,2) l last_record_rewrite [OF assms(1)] by (auto simp: disk_look_def)
qed

theorem commit_undisturbed_witness:
  "\<exists>ps n'. run [0, 1, 1, 1, 0, 1, 1, 0, 1, 1, 0, 1]
       ([ReadFile (update_text ''a.com'' ''A'' ''3.3.3.3'') ''a.com'' ''A'' ''3.3.3.3'', TakeNum ''b.org,A,4.4.4.4''],
        logged (update_text ''a.com'' ''A'' ''3.3.3.3'') example_leader) = (ps, n')
     \<and> ps ! 0 = Ended Done \<and> disk_look (dsk n') (''a.com'', ''A'') = Some ''3.3.3.3''"
proof -
  let ?u = "update_text ''a.com'' ''A'' ''3.3.3.3''" and ?s = "[0, 1, 1, 1, 0, 1, 1, 0, 1, 1, 0, 1] :: nat list"
  let ?n = "logged ?u example_leader" and ?ps = "[ReadFile ?u ''a.com'' ''A'' ''3.3.3.3'', TakeNum ''b.org,A,4.4.4.4'']"
  obtain ps n' where r: "run ?s (?ps, ?n) = (ps, n')" by fastforce
  have u: "update_ok ''a.com'' ''A'' ''3.3.3.3''" by code_simp
  have "target ''b.org,A,4.4.4.4'' = Some (shard_path CHR ''b'', (''b.org'', ''A''), ''4.4.4.4'')"
    "update_path ''a.com'' = ''../records/a.txt''" "shard_path CHR ''b'' = ''../records/b.txt''" by code_simp+
  then have t: "\<forall>u \<in> {''b.org,A,4.4.4.4''}. \<forall>p k w. target u = Some (p, k, w) \<longrightarrow> p \<noteq> update_path ''a.com''" by simp
  have d: "disk_ok (dsk ?n) ''a.com''" "file_complete (dsk ?n) ''a.com''"
    using disk_sound_ok [OF example_disk_sound] by (simp_all add: example_leader_fields)
  have o: "\<forall>j < length ?ps. j \<noteq> 0 \<longrightarrow> works_on {''b.org,A,4.4.4.4''} ?n (?ps ! j)" by (simp add: less_Suc_eq)
  show ?thesis
    using commit_undisturbed [OF u _ _ d o t _ r] r by simp
qed

end
