(* ===== verification/Cluster_Writes.thy ===== *)
theory Cluster_Writes
  imports Server
begin

text \<open>
  Writes in a cluster: a client's write at one member, and the delivery of the packets it sends to the
  write ports of the others. This puts the writer and the replication through the coordinator
  together, behind the write port of \<^verbatim>\<open>data_plane/server.py\<close>.
\<close>

section \<open>Delivery\<close>

text \<open>A member that handles the messages addressed to it on a port, each from a connection of its own.\<close>

definition deliver_to :: "nat \<Rightarrow> (string \<Rightarrow> 'n \<Rightarrow> 'n) \<Rightarrow> string \<Rightarrow> packet list \<Rightarrow> 'n \<Rightarrow> 'n" where
  "deliver_to port handle ip ps n =
     fold (\<lambda>(to, p, msg) n. if to = ip \<and> p = port then handle msg n else n) ps n"

definition sent_since :: "'a core_scheme \<Rightarrow> 'a core_scheme \<Rightarrow> packet list" where
  "sent_since n n' = drop (length (net n)) (net n')"

text \<open>The cluster after a line came in on the write port of a member and all its packets arrived.\<close>

definition write_at :: "string \<Rightarrow> string \<Rightarrow> (string \<Rightarrow> node) \<Rightarrow> string \<Rightarrow> node" where
  "write_at w line N =
     (let n' = snd (handle_write [Recv line True] (N w))
      in (\<lambda>ip. if ip = w then n' else deliver_to 9000 (\<lambda>msg n. snd (handle_write [Recv msg True] n)) ip (sent_since (N w) n') (N ip)))"

lemma handle_write_one:
  "strip line \<noteq> [] \<Longrightarrow> fst (writeHandler (strip line) n) = Done \<Longrightarrow>
     handle_write [Recv line True] n = ([''OK'' @ [NL]], snd (writeHandler (strip line) n))"
  by (cases "writeHandler (strip line) n") (auto simp: Let_def)

lemma deliver_one:
  assumes "distinct xs" "ip \<in> set xs"
  shows "deliver_to port handle ip (map (\<lambda>x. (x, port, msg x)) xs) n = handle (msg ip) n"
proof -
  have none: "deliver_to port handle ip (map (\<lambda>x. (x, port, msg x)) xs) n = n" if "ip \<notin> set xs" for xs n
    using that by (induction xs arbitrary: n) (auto simp: deliver_to_def)
  show ?thesis
    using assms
  proof (induction xs)
    case (Cons x xs)
    then show ?case using none [of xs] by (cases "x = ip") (auto simp: deliver_to_def)
  qed simp
qed

section \<open>What a replicated entry does to a member\<close>

text \<open>The record goes into memory where its letter is owned; coordinator and files stay.\<close>

lemma replicate_fields:
  assumes "update_ok d t v"
  shows "st (replicate_in num (update_text d t v) n) = (st n)\<lparr>records :=
      (if lower_char (hd d) \<in> selfRecords (st n) then (records (st n))((d, t) \<mapsto> v) else records (st n))\<rparr>"
    and "rf (replicate_in num (update_text d t v) n) = rf n"
    and "dsk (replicate_in num (update_text d t v) n) = dsk n"
proof -
  obtain c cs where d: "d = c # cs" using assms by (cases d) (auto simp: update_ok_def field_ok_def)
  have f: "strip d = d" "strip t = t" "strip v = v" using assms by (simp_all add: update_ok_def field_strip)
  have s: "split_on comma (strip (update_text d t v)) = [d, t, v]" using assms by (simp add: update_split)
  show "st (replicate_in num (update_text d t v) n) = (st n)\<lparr>records :=
      (if lower_char (hd d) \<in> selfRecords (st n) then (records (st n))((d, t) \<mapsto> v) else records (st n))\<rparr>"
    "rf (replicate_in num (update_text d t v) n) = rf n" "dsk (replicate_in num (update_text d t v) n) = dsk n"
    using s f unfolding replicate_in_def d by (simp_all add: Let_def sendAck_def send_raw_def)
qed

lemma delivered_entry:
  assumes "update_ok d t v"
  shows "\<exists>n'. handle_write [Recv (log_msg (str_int k) (update_text d t v)) True] n = ([''OK'' @ [NL]], n')
    \<and> st n' = (st n)\<lparr>records :=
      (if lower_char (hd d) \<in> selfRecords (st n) then (records (st n))((d, t) \<mapsto> v) else records (st n))\<rparr>
    \<and> rf n' = rf n \<and> dsk n' = dsk n"
proof -
  let ?m = "log_msg (str_int k) (update_text d t v)"
  have s: "split_on (CHR '';'') (strip (strip ?m)) = [''2'', str_int k, update_text d t v]"
    by (simp add: split_log_msg [OF assms])
  then have "strip ?m \<noteq> []" by auto
  moreover have "writeHandler (strip ?m) n =
      (Done, replicate_in (str_int k) (update_text d t v) (n\<lparr>wr := (wr n)\<lparr>raft_set := True\<rparr>\<rparr>))"
    unfolding writeHandler_def Let_def s by simp
  ultimately show ?thesis
    using handle_write_one [of ?m n] replicate_fields [OF assms, of "str_int k" "n\<lparr>wr := (wr n)\<lparr>raft_set := True\<rparr>\<rparr>"] by simp
qed

section \<open>The cluster after a write\<close>

lemma write_at_writer:
  assumes "update_ok d t v" and "room 1 (N w)"
  shows "handle_write [Recv (''1;'' @ update_text d t v @ [NL]) True] (N w) = ([''OK'' @ [NL]], written d t v (N w))"
proof -
  have "strip (CHR ''1'' # CHR '';'' # [] @ update_text d t v) = CHR ''1'' # CHR '';'' # [] @ update_text d t v"
    by (intro strip_typed [OF assms(1)]) code_simp
  then have s: "strip (''1;'' @ update_text d t v @ [NL]) = write_msg (d, t, v)"
    using strip_snoc_space [of NL "''1;'' @ update_text d t v"] by (simp add: write_msg_def)
  have "writeHandler (write_msg (d, t, v)) (N w) = (Done, written d t v (N w))"
    using assms by (intro write_eq) (auto simp: room_def disk_sound_ok)
  then show ?thesis using handle_write_one [of "''1;'' @ update_text d t v @ [NL]" "N w"] s
    by (simp add: write_msg_def)
qed

lemma sent_entries:
  assumes "cluster ips N L" and "w \<in> set ips" and "st n = st (N w)"
  shows "sent_since n (written d t v n) = map (\<lambda>x. (x, 9000, log_msg (str_int (currLogNum (rf n) + 1)) (update_text d t v)))
    (filter (\<lambda>x. x \<noteq> w) ips)"
proof -
  have "dkeys (nodes (st n)) = ips" "selfIp (st n) = w"
    using assms by (auto simp: cluster_def settled_def sees_def)
  then show ?thesis by (simp add: sent_since_def written_def Let_def log_packets_def others_def)
qed

lemma write_at_members:
  assumes "cluster ips N L" and "update_ok d t v" and "room 1 (N w)" and "w \<in> set ips" and "ip \<in> set ips"
  shows "rf (write_at w (''1;'' @ update_text d t v @ [NL]) N ip) = (if ip = w
        then (rf (N w))\<lparr>currLogNum := currLogNum (rf (N w)) + 1\<rparr> else rf (N ip))"
    and "st (write_at w (''1;'' @ update_text d t v @ [NL]) N ip) = (st (N ip))\<lparr>records :=
      (if ip = w \<or> lower_char (hd d) \<in> selfRecords (st (N ip)) then (records (st (N ip)))((d, t) \<mapsto> v)
       else records (st (N ip)))\<rparr>"
proof -
  let ?line = "''1;'' @ update_text d t v @ [NL]" and ?k = "currLogNum (rf (N w)) + 1"
  let ?msg = "log_msg (str_int ?k) (update_text d t v)"
  have n': "snd (handle_write [Recv ?line True] (N w)) = written d t v (N w)"
    using write_at_writer [of d t v N w] assms(2,3) by simp
  have "distinct ips" using assms(1,4) by (auto simp: cluster_def settled_def sees_def)
  note sent = sent_entries [OF assms(1,4) refl, of d t v]
  obtain m where m: "snd (handle_write [Recv ?msg True] (N ip)) = m" "rf m = rf (N ip)"
    "st m = (st (N ip))\<lparr>records := (if lower_char (hd d) \<in> selfRecords (st (N ip)) then (records (st (N ip)))((d, t) \<mapsto> v)
       else records (st (N ip)))\<rparr>"
    using delivered_entry [OF assms(2), of ?k "N ip"] by auto
  have at: "write_at w ?line N ip = (if ip = w then written d t v (N w) else m)"
    using deliver_one [of "filter (\<lambda>x. x \<noteq> w) ips" ip 9000 _ "\<lambda>_. ?msg" "N ip"] m(1) n' sent \<open>distinct ips\<close> assms(5)
    by (simp add: write_at_def Let_def del: handle_write.simps)
  show "rf (write_at w ?line N ip) = (if ip = w then (rf (N w))\<lparr>currLogNum := ?k\<rparr> else rf (N ip))"
    using at m(2) by (simp add: written_def Let_def)
  show "st (write_at w ?line N ip) = (st (N ip))\<lparr>records :=
      (if ip = w \<or> lower_char (hd d) \<in> selfRecords (st (N ip)) then (records (st (N ip)))((d, t) \<mapsto> v)
       else records (st (N ip)))\<rparr>"
    using at m(3) by (simp add: written_def Let_def)
qed

lemma write_at_cluster:
  assumes "cluster ips N L" and "update_ok d t v" and "room 1 (N w)" and "w \<in> set ips"
  shows "cluster ips (write_at w (''1;'' @ update_text d t v @ [NL]) N) L"
  using assms(1) write_at_members [OF assms] unfolding cluster_def by (auto split: if_splits)

text \<open>What the writer's disk holds afterwards, and that the others did not touch theirs.\<close>

lemma write_at_disk:
  assumes "update_ok d t v" and "room 1 (N w)"
  shows "dsk (write_at w (''1;'' @ update_text d t v @ [NL]) N w) = dsk (written d t v (N w))"
  using write_at_writer [of d t v N w] assms by (simp add: write_at_def Let_def del: handle_write.simps)

end
