(* ===== verification/Failover.thy ===== *)
theory Failover
  imports Cluster_Writes Election Node_Main
begin

text \<open>
  The loss of a leader, seen from the whole cluster: the first follower whose heart thread times out
  promotes itself (\<^verbatim>\<open>raftHeart\<close> of \<^verbatim>\<open>data_plane/raft/_raft.py\<close>), and its heartbeats reach the other
  members through their heartbeat ports (\<^verbatim>\<open>handle_sync\<close> of \<^verbatim>\<open>data_plane/server.py\<close>). The theorems say
  what the members then own, whom they follow and what they still answer.
\<close>

section \<open>A failover\<close>

definition survivors :: "string list \<Rightarrow> string \<Rightarrow> string list" where
  "survivors ips L = filter (\<lambda>ip. ip \<noteq> L) ips"

text \<open>The round of the heart thread of \<open>p\<close>, and the delivery of what it sends.\<close>

definition take_over :: "time \<Rightarrow> time \<Rightarrow> string \<Rightarrow> (string \<Rightarrow> node) \<Rightarrow> string \<Rightarrow> node" where
  "take_over now nxt p N =
     (let n' = snd (raftHeart_round now (nxt, N p))
      in (\<lambda>ip. if ip = p then n'
               else deliver_to 7001 (\<lambda>msg n. snd (handle_sync [(now, Recv msg True)] n)) ip (sent_since (N p) n') (N ip)))"

text \<open>The situation: \<open>L\<close> leads the members \<open>ips\<close> and falls silent, and \<open>p\<close> is the first to notice.\<close>

definition silent :: "string list \<Rightarrow> (string \<Rightarrow> node) \<Rightarrow> string \<Rightarrow> string \<Rightarrow> time \<Rightarrow> bool" where
  "silent ips N L p now \<longleftrightarrow> cluster ips N L \<and> valid_members ips \<and> is_top ips L \<and> p \<in> set ips \<and> p \<noteq> L
     \<and> now - last_beat_received (rf (N p)) \<ge> leaderDead (st (N p))"

lemma handle_sync_one:
  "strip msg \<noteq> [] \<Longrightarrow> snd (handle_sync [(now, Recv msg True)] n) = beatHandler now (strip msg) n"
  by (auto simp: Let_def)

lemma parse_beat_strip [simp]: "parse_beat (strip beat) = parse_beat beat"
  by (simp add: parse_beat_def)

lemma beatHandler_strip: "beatHandler now (strip beat) n = beatHandler now beat n"
  by (simp add: beatHandler_def)

lemma beat_delivered:
  assumes "parse_beat msg = Some x"
  shows "snd (handle_sync [(now, Recv msg True)] n) = beatHandler now msg n"
proof -
  have "strip msg \<noteq> []" using assms by (auto simp: parse_beat_def)
  then show ?thesis by (simp only: handle_sync_one beatHandler_strip not_False_eq_True)
qed

section \<open>The members afterwards\<close>

lemma silent_members:
  assumes "silent ips N L p now" and "ip \<in> set ips"
  shows "settled ips (st (N ip))" "selfIp (st (N ip)) = ip" "ip \<noteq> L \<Longrightarrow> \<not> leader (rf (N ip)) \<and> leaderIp (st (N ip)) = L"
    "ip \<noteq> L \<Longrightarrow> addr ip < addr L"
  using assms addr_inj [of ips ip L]
  by (auto simp: silent_def cluster_def is_top_def order.strict_iff_order)

text \<open>The others handle one heartbeat each, with their place among the survivors.\<close>

lemma take_over_sent:
  assumes "silent ips N L p now"
  shows "snd (raftHeart_round now (nxt, N p)) = promote now (N p)"
    and "sent_since (N p) (promote now (N p)) = map (\<lambda>ip. (ip, 7001, beat_msg p
      (rank_of ip (number_from 1 (survivors ips L))) (int (length (survivors ips L)))))
      (filter (\<lambda>ip. ip \<noteq> p) (survivors ips L))"
proof -
  have p: "p \<in> set ips" "p \<noteq> L" "L \<in> set ips" using assms by (auto simp: silent_def is_top_def)
  note m = silent_members [OF assms p(1)]
  show "snd (raftHeart_round now (nxt, N p)) = promote now (N p)"
    using assms m(3) p(2) by (simp add: silent_def round_timeout)
  show "sent_since (N p) (promote now (N p)) = map (\<lambda>ip. (ip, 7001, beat_msg p
      (rank_of ip (number_from 1 (survivors ips L))) (int (length (survivors ips L)))))
      (filter (\<lambda>ip. ip \<noteq> p) (survivors ips L))"
    using promote_net [of ips "N p" "survivors ips L" now] m p
    by (simp add: sent_since_def survivors_def settled_def)
qed

lemma take_over_beat:
  assumes "silent ips N L p now" and "f \<in> set ips" and "f \<noteq> L" and "f \<noteq> p"
  shows "take_over now nxt p N f = after_beat now p (addr p) (addr L)
    (rank_of f (number_from 1 (survivors ips L))) (int (length (survivors ips L))) (N f)"
proof -
  let ?r = "rank_of f (number_from 1 (survivors ips L))" and ?n = "int (length (survivors ips L))"
  have v: "valid_members ips" and p: "p \<in> set ips" "L \<in> set ips"
    using assms(1) by (auto simp: silent_def is_top_def)
  have f: "f \<in> set (survivors ips L)" "distinct (survivors ips L)"
    using assms(2,3) v by (simp_all add: survivors_def valid_members_def)
  have "?n \<le> int (length ips)" by (simp add: survivors_def)
  moreover have "0 \<le> ?r" "?r \<le> ?n" using rank_of_number_from_bounds [OF f(1), of 1] by simp_all
  ultimately have "printable ?n" "printable ?r"
    using v printable_mono [of ?n "int (length ips)"] printable_mono [of ?r ?n] by (simp_all add: valid_members_def)
  then have beat: "parse_beat (beat_msg p ?r ?n) = Some (p, ?r, ?n)"
    using valid_addr [OF v p(1)] by (intro parse_beat_msg)
  have "take_over now nxt p N f = snd (handle_sync [(now, Recv (beat_msg p ?r ?n) True)] (N f))"
    unfolding take_over_def Let_def take_over_sent [OF assms(1)]
    using assms(4) f by (simp add: deliver_one del: handle_sync.simps)
  then show ?thesis
    unfolding beat_delivered [OF beat]
    using valid_addr [OF v] p silent_members(3) [OF assms(1,2,3)] beatHandler_parsed [OF beat, of "addr p" "N f" "addr L" now]
    by simp
qed

text \<open>A member other than \<open>p\<close> takes over its new rank, and keeps following the silent leader.\<close>

lemma take_over_follower:
  assumes "silent ips N L p now" and "f \<in> set ips" and "f \<noteq> L" and "f \<noteq> p"
  shows "st (take_over now nxt p N f) = updateRank (rank_of f (number_from 1 (survivors ips L)))
      (int (length (survivors ips L))) (st (N f))"
    and "\<not> leader (rf (take_over now nxt p N f))"
    and "last_beat_received (rf (take_over now nxt p N f)) = now"
proof -
  note t = take_over_beat [OF assms, of nxt]
  have p: "p \<in> set ips" "p \<noteq> L" "L \<in> set ips" using assms(1) by (auto simp: silent_def is_top_def)
  have "nodes (st (N f)) = number_from 1 ips" "lastRank (st (N f)) = int (length ips)"
    using silent_members(1) [OF assms(1,2)] by (simp_all add: settled_def sees_def)
  moreover have "length (survivors ips L) < length ips"
    using length_filter_less [of L ips "\<lambda>ip. ip \<noteq> L"] p(3) by (simp add: survivors_def)
  ultimately show "st (take_over now nxt p N f) = updateRank (rank_of f (number_from 1 (survivors ips L)))
      (int (length (survivors ips L))) (st (N f))"
    using t p(1) silent_members(4) [OF assms(1) p(1,2)]
    by (simp add: after_beat_def Let_def register_sender_def)
  show "\<not> leader (rf (take_over now nxt p N f))" "last_beat_received (rf (take_over now nxt p N f)) = now"
    unfolding t after_beat_fields using silent_members(3) [OF assms(1,2,3)] by simp_all
qed

lemma take_over_leader:
  assumes "silent ips N L p now"
  shows "take_over now nxt p N p = promote now (N p)" "settled (survivors ips L) (st (take_over now nxt p N p))"
    "leader (rf (take_over now nxt p N p))"
proof -
  have p: "p \<in> set ips" "p \<noteq> L" "L \<in> set ips" using assms by (auto simp: silent_def is_top_def)
  note m = silent_members [OF assms p(1)]
  show t: "take_over now nxt p N p = promote now (N p)"
    using assms m(3) p(2) by (simp add: take_over_def Let_def silent_def round_timeout)
  show "settled (survivors ips L) (st (take_over now nxt p N p))" "leader (rf (take_over now nxt p N p))"
    unfolding t using promote_settled [of ips "N p" now] m p by (simp_all add: survivors_def settled_def promote_leader)
qed

section \<open>What the failover achieves\<close>

lemma take_over_shard:
  assumes "silent ips N L p now" and "ip \<in> set (survivors ips L)"
  shows "selfRecords (st (take_over now nxt p N ip)) =
    set (shard_slice (rank_of ip (number_from 1 (survivors ips L))) (int (length (survivors ips L))))"
proof (cases "ip = p")
  case True
  have "selfIp (st (take_over now nxt p N p)) = p"
    using assms(1) silent_members(2) [OF assms(1), of p] take_over_leader(1) [OF assms(1), of nxt]
    by (simp add: promote_fields silent_def)
  then show ?thesis using True take_over_leader(2) [OF assms(1), of nxt] by (simp add: settled_def sees_def)
next
  case False
  have ip: "ip \<in> set ips" "ip \<noteq> L" using assms(2) by (auto simp: survivors_def)
  let ?r = "rank_of ip (number_from 1 (survivors ips L))"
  have "card {ip, L} \<le> length ips" using ip assms(1) card_mono [of "set ips" "{ip, L}"] card_length [of ips]
    by (auto simp: silent_def is_top_def)
  then have "nodeCount (st (N ip)) \<noteq> 1" using ip silent_members(1) [OF assms(1) ip(1)] by (simp add: settled_def sees_def)
  moreover have "1 \<le> ?r" "1 \<le> int (length (survivors ips L))"
    using rank_of_number_from_bounds [OF assms(2), of 1] by simp_all
  ultimately show ?thesis
    unfolding take_over_follower(1) [OF assms(1) ip False] by (auto simp: updateRank_def updateRecordSet_def)
qed

text \<open>
  C16: after a failover the survivors own the alphabet. When the leader of a settled cluster falls
  silent, the first follower to time out and the members that get its heartbeat divide the letters
  among themselves: every letter has exactly one owner among the survivors, and only the member
  that timed out leads.
\<close>

theorem failover_repartitions:
  assumes "silent ips N L p now" and "c \<in> set ALPHABET"
  shows "(\<exists>!m. m \<in> set (survivors ips L) \<and> c \<in> selfRecords (st (take_over now nxt p N m)))
    \<and> (\<forall>m. m \<in> set (survivors ips L) \<longrightarrow> (leader (rf (take_over now nxt p N m)) \<longleftrightarrow> m = p))"
proof
  have "survivors ips L \<noteq> []" "distinct (survivors ips L)"
    using assms(1) by (auto simp: silent_def survivors_def valid_members_def filter_empty_conv)
  then have "sharded (set (survivors ips L)) (\<lambda>ip. selfRecords (st (take_over now nxt p N ip)))"
    using take_over_shard [OF assms(1)] by (rule ranks_sharded)
  then show "\<exists>!m. m \<in> set (survivors ips L) \<and> c \<in> selfRecords (st (take_over now nxt p N m))"
    using assms(2) by (rule sharded.owner_unique)
  show "\<forall>m. m \<in> set (survivors ips L) \<longrightarrow> (leader (rf (take_over now nxt p N m)) \<longleftrightarrow> m = p)"
    using take_over_follower(2) [OF assms(1)] take_over_leader(3) [OF assms(1)] by (auto simp: survivors_def)
qed

section \<open>All followers time out together\<close>

text \<open>
  Followers hear the same leader, so they tend to time out in the same round. Then each of them
  promotes itself, and the heartbeats of all of them are handled by the others, in any order and
  possibly more than once.
\<close>

definition promoted :: "time \<Rightarrow> time \<Rightarrow> (string \<Rightarrow> node) \<Rightarrow> string \<Rightarrow> node" where
  "promoted now nxt N ip = snd (raftHeart_round now (nxt, N ip))"

definition beats_to :: "time \<Rightarrow> time \<Rightarrow> (string \<Rightarrow> node) \<Rightarrow> string list \<Rightarrow> string \<Rightarrow> string set" where
  "beats_to now nxt N ps ip =
     {msg. \<exists>p \<in> set ps. (ip, 7001, msg) \<in> set (sent_since (N p) (promoted now nxt N p))}"

definition hear_all :: "time \<Rightarrow> string list \<Rightarrow> node \<Rightarrow> node" where
  "hear_all now msgs n = fold (\<lambda>msg n. snd (handle_sync [(now, Recv msg True)] n)) msgs n"

text \<open>A member of \<open>vs\<close> that is settled, and follows a member that is not below it.\<close>

definition contender :: "string list \<Rightarrow> string \<Rightarrow> node \<Rightarrow> bool" where
  "contender vs i n \<longleftrightarrow> settled vs (st n) \<and> selfIp (st n) = i \<and> leaderIp (st n) \<in> set vs
     \<and> (leader (rf n) \<longleftrightarrow> leaderIp (st n) = i) \<and> addr i \<le> addr (leaderIp (st n))"

lemma contender_hears:
  assumes v: "valid_members vs" and n: "contender vs i n" and i: "i \<in> set vs" and p: "p \<in> set vs"
    and msg: "msg = beat_msg p (rank_of i (number_from 1 vs)) (int (length vs))"
  shows "contender vs i (snd (handle_sync [(now, Recv msg True)] n))
    \<and> leaderIp (st (snd (handle_sync [(now, Recv msg True)] n))) =
        (if addr p > addr (leaderIp (st n)) then p else leaderIp (st n))"
proof -
  let ?r = "rank_of i (number_from 1 vs)" and ?n = "int (length vs)"
  have "0 \<le> ?r" "?r \<le> ?n" using rank_of_number_from_bounds [OF i, of 1] by simp_all
  then have "printable ?n" "printable ?r"
    using v printable_mono [of ?r ?n] by (simp_all add: valid_members_def)
  then have beat: "parse_beat msg = Some (p, ?r, ?n)" unfolding msg using valid_addr [OF v p] by (intro parse_beat_msg)
  have s: "nodes (st n) = number_from 1 vs" "rank (st n) = ?r" "lastRank (st n) = ?n" "leaderIp (st n) \<in> set vs"
    using n by (auto simp: contender_def settled_def sees_def)
  have h: "snd (handle_sync [(now, Recv msg True)] n) = after_beat now p (addr p) (addr (leaderIp (st n))) ?r ?n n"
    unfolding beat_delivered [OF beat] using valid_addr [OF v] p s(4) by (intro beatHandler_parsed [OF beat]) simp_all
  have st: "st (snd (handle_sync [(now, Recv msg True)] n)) =
      (if addr p > addr (leaderIp (st n)) then (st n)\<lparr>leaderIp := p\<rparr> else st n)"
    unfolding h using s p by (simp add: after_beat_def Let_def register_sender_def)
  moreover have "leader (rf (snd (handle_sync [(now, Recv msg True)] n))) \<longleftrightarrow> leader (rf n) \<and> addr p \<le> addr (leaderIp (st n))"
    unfolding h by (rule after_beat_fields)
  ultimately show ?thesis
    using n p by (cases "addr p > addr (leaderIp (st n))") (auto simp: contender_def simp del: handle_sync.simps)
qed

lemma contender_hears_all:
  assumes v: "valid_members vs" and n: "contender vs i n" and i: "i \<in> set vs" and hi: "is_top vs hi"
    and msgs: "\<forall>msg \<in> set msgs. \<exists>p \<in> set vs. msg = beat_msg p (rank_of i (number_from 1 vs)) (int (length vs))"
  shows "contender vs i (hear_all now msgs n)
    \<and> (leaderIp (st n) = hi \<or> beat_msg hi (rank_of i (number_from 1 vs)) (int (length vs)) \<in> set msgs
        \<longrightarrow> leaderIp (st (hear_all now msgs n)) = hi)"
  using n msgs
proof (induction msgs arbitrary: n)
  case (Cons msg msgs)
  let ?n = "snd (handle_sync [(now, Recv msg True)] n)"
  obtain p where p: "p \<in> set vs" "msg = beat_msg p (rank_of i (number_from 1 vs)) (int (length vs))"
    using Cons.prems(2) by auto
  note c = contender_hears [OF v Cons.prems(1) i p, of now]
  have l: "leaderIp (st n) \<in> set vs" using Cons.prems(1) by (simp add: contender_def)
  have "leaderIp (st ?n) = hi" if "leaderIp (st n) = hi \<or> msg = beat_msg hi (rank_of i (number_from 1 vs)) (int (length vs))"
    using that
  proof
    assume "leaderIp (st n) = hi"
    then show ?thesis using c hi p(1) by (simp add: is_top_def leD del: handle_sync.simps)
  next
    assume "msg = beat_msg hi (rank_of i (number_from 1 vs)) (int (length vs))"
    then have "leaderIp (st ?n) = (if addr hi > addr (leaderIp (st n)) then hi else leaderIp (st n))"
      using contender_hears [OF v Cons.prems(1) i, of hi msg now] hi by (simp add: is_top_def del: handle_sync.simps)
    then show ?thesis using hi l addr_inj [OF v l, of hi] by (auto simp: is_top_def split: if_splits)
  qed
  then show ?case using Cons.IH [of ?n] Cons.prems(2) c by (auto simp: hear_all_def simp del: handle_sync.simps)
qed (simp add: hear_all_def)

lemma beats_to_eq:
  assumes "\<forall>p \<in> set (survivors ips L). silent ips N L p now" and "ip \<in> set (survivors ips L)"
  shows "beats_to now nxt N (survivors ips L) ip = {beat_msg p (rank_of ip (number_from 1 (survivors ips L)))
      (int (length (survivors ips L))) | p. p \<in> set (survivors ips L) \<and> p \<noteq> ip}"
proof -
  have "(ip, 7001, msg) \<in> set (sent_since (N p) (promoted now nxt N p)) \<longleftrightarrow>
      ip \<noteq> p \<and> msg = beat_msg p (rank_of ip (number_from 1 (survivors ips L))) (int (length (survivors ips L)))"
    if "p \<in> set (survivors ips L)" for p msg
  proof -
    have p: "silent ips N L p now" using assms(1) that by blast
    show ?thesis using assms(2) take_over_sent(1) [OF p, of nxt] take_over_sent(2) [OF p] by (auto simp: promoted_def)
  qed
  then show ?thesis unfolding beats_to_def by blast
qed

lemma promoted_contender:
  assumes "silent ips N L p now"
  shows "contender (survivors ips L) p (promoted now nxt N p)" "leaderIp (st (promoted now nxt N p)) = p"
proof -
  have p: "p \<in> set ips" "p \<noteq> L" using assms by (simp_all add: silent_def)
  have n: "promoted now nxt N p = promote now (N p)" "selfIp (st (N p)) = p"
    using take_over_sent(1) [OF assms, of nxt] silent_members(2) [OF assms p(1)] by (simp_all add: promoted_def)
  then show "leaderIp (st (promoted now nxt N p)) = p" by (simp add: promote_fields)
  show "contender (survivors ips L) p (promoted now nxt N p)"
    using take_over_leader [OF assms, of nxt] n p
    by (simp add: contender_def promote_fields survivors_def promote_leader)
qed

text \<open>
  C18: a joint failover recovers. When the leader of a settled cluster falls silent and all followers
  time out in the same round, then, after each has handled the heartbeats of the others in any order,
  the survivors are a settled cluster again: they agree on the membership without the dead leader,
  own disjoint shards, and follow the highest address among them, which alone leads.
\<close>

theorem joint_failover_recovers:
  assumes "cluster ips N L" and "valid_members ips" and "is_top ips L" and "is_top (survivors ips L) hi"
    and "\<forall>f \<in> set (survivors ips L). now - last_beat_received (rf (N f)) \<ge> leaderDead (st (N f))"
    and "\<forall>ip \<in> set (survivors ips L). set (msgs ip) = beats_to now nxt N (survivors ips L) ip"
    and "N' = (\<lambda>ip. hear_all now (msgs ip) (promoted now nxt N ip))"
  shows "cluster (survivors ips L) N' hi"
proof -
  let ?vs = "survivors ips L"
  have sil: "\<forall>p \<in> set ?vs. silent ips N L p now" using assms(1-3,5) by (auto simp: silent_def survivors_def)
  have "int (length ?vs) \<le> int (length ips)" by (simp add: survivors_def)
  then have v: "valid_members ?vs"
    using assms(2) printable_mono [of "int (length ?vs)" "int (length ips)"] by (auto simp: valid_members_def survivors_def)
  have hi: "hi \<in> set ?vs" using assms(4) by (simp add: is_top_def)
  have N': "contender ?vs ip (N' ip) \<and> leaderIp (st (N' ip)) = hi" if ip: "ip \<in> set ?vs" for ip
  proof -
    note c = promoted_contender [OF sil [THEN bspec, OF ip], of nxt]
    have m: "set (msgs ip) = {beat_msg p (rank_of ip (number_from 1 ?vs)) (int (length ?vs)) | p. p \<in> set ?vs \<and> p \<noteq> ip}"
      using assms(6) ip beats_to_eq [OF sil ip] by blast
    then have "leaderIp (st (promoted now nxt N ip)) = hi
        \<or> beat_msg hi (rank_of ip (number_from 1 ?vs)) (int (length ?vs)) \<in> set (msgs ip)"
      using c(2) hi by auto
    moreover have "\<forall>msg \<in> set (msgs ip). \<exists>p \<in> set ?vs. msg = beat_msg p (rank_of ip (number_from 1 ?vs)) (int (length ?vs))"
      unfolding m by blast
    ultimately show ?thesis
      using contender_hears_all [OF v c(1) ip assms(4), of "msgs ip" now] assms(7) by blast
  qed
  then show ?thesis using hi by (auto simp: cluster_def contender_def)
qed

section \<open>What it does not achieve\<close>

text \<open>Heartbeats of lower members do not change whom a follower follows.\<close>

lemma stays_with:
  assumes "IPv4Address (leaderIp (st n)) = Some b" and "IPv4Address p = Some a" and "a \<le> b"
    and "\<forall>(t, beat) \<in> set bs. \<exists>r lr. parse_beat beat = Some (p, r, lr)" and "\<not> leader (rf n)"
  shows "leaderIp (st (beats_run bs n)) = leaderIp (st n) \<and> \<not> leader (rf (beats_run bs n))
    \<and> selfIp (st (beats_run bs n)) = selfIp (st n)"
  using assms
proof (induction bs arbitrary: n)
  case (Cons tb bs)
  obtain t beat r lr where tb: "tb = (t, beat)" "parse_beat beat = Some (p, r, lr)"
    using Cons.prems(4) by (cases tb) auto
  then have "beatHandler t beat n = after_beat t p a b r lr n" using Cons.prems(1,2) by (simp add: beatHandler_parsed)
  then have "leaderIp (st (beatHandler t beat n)) = leaderIp (st n) \<and> \<not> leader (rf (beatHandler t beat n))
      \<and> selfIp (st (beatHandler t beat n)) = selfIp (st n)"
    using Cons.prems(3,5) by (auto simp: after_beat_fields)
  then show ?case using Cons.IH [of "beatHandler t beat n"] Cons.prems by (simp add: tb beats_run_Cons)
qed (simp add: beats_run_def)

text \<open>
  C25: the other followers stay with the dead leader. A heartbeat only changes whom a member follows if
  its sender's address is above the one followed, so the heartbeats of the new leader, whose address
  is lower, never do, however many arrive; but each of them restarts the timer, and as long as they
  come in time the member does not take over either. Asked for a name outside its shard, it tries
  the dead leader and answers that there is no such name.
\<close>

theorem failover_strands_followers:
  assumes "silent ips N L p now" and "f \<in> set ips" and "f \<noteq> L" and "f \<noteq> p"
    and "\<forall>(t, beat) \<in> set bs. \<exists>r lr. parse_beat beat = Some (p, r, lr)"
    and "n = beats_run bs (take_over now nxt p N f)" and "later - last_beat_received (rf n) < leaderDead (st n)"
    and "forward r L (d @ [NL]) = None" and "stripped d" and "d \<noteq> []" and "\<not> startswith d ''PEER:''"
    and "lower_char (hd d) \<notin> selfRecords (st n)"
  shows "leaderIp (st n) = L \<and> snd (raftHeart_round later (nxt', n)) = n
    \<and> handle_read [(r, Recv (d @ [NL]) True)] n = ([''N/A'' @ [NL]], n)"
proof -
  have p: "p \<in> set ips" "p \<noteq> L" "L \<in> set ips" "valid_members ips" using assms(1) by (auto simp: silent_def is_top_def)
  have t: "leaderIp (st (take_over now nxt p N f)) = L"
    using take_over_follower(1) [OF assms(1-4)] silent_members(3) [OF assms(1-3)] by simp
  have n: "leaderIp (st n) = L" "\<not> leader (rf n)"
    using stays_with [of "take_over now nxt p N f" "addr L" p "addr p" bs] t assms(5,6)
      take_over_follower(2) [OF assms(1-4)] valid_addr [OF p(4)] p silent_members(4) [OF assms(1) p(1,2)]
    by (simp_all add: less_imp_le)
  have "resolve r d n = (''N/A'', n)"
    using n assms(8,12) by (simp add: resolve_def local_lookup_other forward_to_leader_def)
  then show ?thesis using n round_quiet [OF n(2) assms(7)] handle_read_client [OF assms(9-11), of r n] by simp
qed

text \<open>A member whose memory holds names of its own letters only, as the reader leaves it.\<close>

definition holds_own :: "states \<Rightarrow> bool" where
  "holds_own s \<longleftrightarrow> (\<forall>d t. records s (d, t) \<noteq> None \<longrightarrow> d \<noteq> [] \<and> hd d \<in> selfRecords s)"

lemma booted_holds_own:
  assumes "directory env ips" and "ip \<in> set ips" and "started env ips dk order B" and "serving_disk dk"
  shows "holds_own (st (B ip))"
proof -
  let ?s = "booted_state env ips ip"
  have b: "selfRecords (st (B ip)) = selfRecords ?s" "Reader_init (order ip) dk ?s = Inr (st (B ip))"
    using boot_eq [OF assms(1-3)] by auto
  have o: "distinct (order ip)" "set (order ip) = selfRecords ?s" using assms(2,3) by (auto simp: started_def)
  have "selfRecords ?s \<subseteq> set ALPHABET" by (auto simp: booted_state_def dest: subsetD [OF updateRecordSet_letters])
  then obtain m where m: "load_shards dk (order ip) Map.empty = Inr m"
    "\<forall>d t. m (d, t) \<noteq> None \<longrightarrow> d \<noteq> [] \<and> hd d \<in> set (order ip)"
    using load_shards_eq [of "order ip" dk Map.empty] o assms(4)
    by (fastforce simp: serving_disk_def subset_iff split: if_splits)
  then have "st (B ip) = ?s\<lparr>records := m\<rparr>" using b(2) by (simp add: Reader_init_def)
  with m(2) o(2) show ?thesis by (simp add: holds_own_def)
qed

lemma promote_records [simp]: "records (st (promote now n)) = records (st n)"
  by (simp add: promote_def Let_def removeNode_def)

lemma take_over_records:
  assumes "silent ips N L p now" and "m \<in> set (survivors ips L)"
  shows "records (st (take_over now nxt p N m)) = records (st (N m))"
  using assms take_over_leader(1) [OF assms(1), of nxt] take_over_follower(1) [OF assms(1), of m nxt]
  by (cases "m = p") (simp_all add: survivors_def)

lemma take_over_forgets:
  assumes "silent ips N L p now" and "\<forall>m \<in> set ips. holds_own (st (N m))"
    and "m \<in> set (survivors ips L)" and "stripped d" and "d \<noteq> []" and "lower_char (hd d) \<in> selfRecords (st (N L))"
  shows "local_lookup d (st (take_over now nxt p N m)) = ''N/A''"
proof -
  have m: "m \<in> set ips" "m \<noteq> L" "L \<in> set ips" "cluster ips N L"
    using assms(1,3) by (auto simp: survivors_def silent_def is_top_def)
  have "lower_char (hd d) \<notin> selfRecords (st (N m))" using cluster_owner [OF m(4,3) assms(6) m(1,2)] .
  moreover have "hd (lower (strip d)) = lower_char (hd d)" using assms(4,5) by (cases d) (simp_all add: strip_id lower_def)
  ultimately have "records (st (N m)) (lower (strip d), t) = None" for t
    using assms(2) m(1) by (metis holds_own_def)
  then show ?thesis
    using take_over_records [OF assms(1,3)] by (auto simp: local_lookup_def recordResponse_def split: list.split)
qed

lemma ask_peers_none:
  "\<forall>ip \<in> set ips. q ip (''PEER:'' @ d @ [NL]) = Some (''N/A'' @ [NL]) \<Longrightarrow> ask_peers q self d ips = ''N/A''"
proof (induction ips)
  case (Cons ip ips)
  have "strip (''N/A'' @ [NL]) = ''N/A''" by code_simp
  with Cons show ?case by (simp add: Let_def)
qed simp

text \<open>
  C26: the names of a dead leader are lost. A failover hands the dead leader's letters to the
  survivors, but their memory is loaded at start-up only. In a cluster whose members hold names of
  their own letters, no survivor answers a name with a letter of the dead leader from its memory,
  whatever the record files hold; and a client of the new leader gets what live resolution gives,
  not what is stored.
\<close>

theorem failover_loses_names:
  assumes "silent ips N L p now" and "\<forall>m \<in> set ips. holds_own (st (N m))"
    and "stripped d" and "d \<noteq> []" and "\<not> startswith d ''PEER:''" and "lower_char (hd d) \<in> selfRecords (st (N L))"
    and "m \<in> set (survivors ips L)" and "N' = take_over now nxt p N"
    and "\<forall>ip \<in> set (survivors ips L). ask r ip (''PEER:'' @ d @ [NL]) = Some (answer r (''PEER:'' @ d @ [NL]) (N' ip))"
  shows "handle_read [(r, Recv (''PEER:'' @ d @ [NL]) True)] (N' m) = ([''N/A'' @ [NL]], N' m)
    \<and> fst (handle_read [(r, Recv (d @ [NL]) True)] (N' p)) = [fst (newRecord (dns r) d (N' p)) @ [NL]]"
proof
  have none: "local_lookup d (st (N' ip)) = ''N/A''" if "ip \<in> set (survivors ips L)" for ip
    using take_over_forgets [OF assms(1,2) that assms(3,4,6)] assms(8) by simp
  then show "handle_read [(r, Recv (''PEER:'' @ d @ [NL]) True)] (N' m) = ([''N/A'' @ [NL]], N' m)"
    using handle_read_peer [OF assms(3,4)] assms(7) by simp
  have p: "p \<in> set (survivors ips L)" using assms(1) by (simp add: silent_def survivors_def)
  have "leader (rf (N' p))" "dkeys (nodes (st (N' p))) = survivors ips L"
    using take_over_leader [OF assms(1), of nxt] assms(8) by (simp_all add: settled_def sees_def)
  moreover have "ask_peers (ask r) self d (survivors ips L) = ''N/A''" for self
    using assms(9) none unfolding answer_peer [OF assms(3,4)] by (intro ask_peers_none) simp
  ultimately have "resolve r d (N' p) = newRecord (dns r) d (N' p)"
    using none [OF p] by (simp add: resolve_def sendRead_def)
  then show "fst (handle_read [(r, Recv (d @ [NL]) True)] (N' p)) = [fst (newRecord (dns r) d (N' p)) @ [NL]]"
    using handle_read_client [OF assms(3-5), of r "N' p"] by simp
qed

section \<open>Three nodes\<close>

definition trio :: "string list" where
  "trio = [''10.0.0.3'', ''10.0.0.7'', ''10.0.0.9'']"

definition trio_node :: "string \<Rightarrow> node" where
  "trio_node ip = (let s = member_state trio ip; r = raft_init 0 s
     in \<lparr>st = s\<lparr>leaderIp := ''10.0.0.9'',
           records := (if ip = ''10.0.0.9'' then [(''z.com'', ''A'') \<mapsto> ''5.5.5.5''] else Map.empty)\<rparr>,
         rf = r\<lparr>leader := ip = ''10.0.0.9''\<rparr>, net = [], wr = writer_init, dsk = example_disk\<rparr>)"

lemma trio_simps: "distinct trio" "survivors trio ''10.0.0.9'' = [''10.0.0.3'', ''10.0.0.7'']"
  "set trio = {''10.0.0.3'', ''10.0.0.7'', ''10.0.0.9''}" "length trio = 3"
  by (simp_all add: trio_def survivors_def)

lemma trio_silent: "silent trio trio_node ''10.0.0.9'' ''10.0.0.7'' 300"
proof -
  note a = example_addresses
  have "printable 3" by code_simp
  then have "valid_members trio" using a by (simp add: valid_members_def trio_simps)
  moreover have "is_top trio ''10.0.0.9''" using a by (simp add: is_top_def trio_simps addr_def less_eq_ipv4_def)
  moreover have "settled trio (st (trio_node ip)) \<and> selfIp (st (trio_node ip)) = ip" if "ip \<in> set trio" for ip
    using member_state_settled [OF trio_simps(1) that] by (simp add: trio_node_def Let_def)
  then have "cluster trio trio_node ''10.0.0.9''"
    by (simp add: cluster_def) (simp add: trio_node_def Let_def trio_simps)
  moreover have "last_beat_received (rf (trio_node ''10.0.0.7'')) = 0" "leaderDead (st (trio_node ''10.0.0.7'')) = 300"
    by (simp_all add: trio_node_def Let_def raft_init_def member_state_def)
  ultimately show ?thesis by (simp add: silent_def trio_simps)
qed

theorem joint_failover_recovers_witness:
  "\<exists>msgs. cluster [''10.0.0.3'', ''10.0.0.7''] (\<lambda>ip. hear_all 300 (msgs ip) (promoted 300 0 trio_node ip)) ''10.0.0.7''"
proof -
  let ?vs = "survivors trio ''10.0.0.9''"
  have c: "cluster trio trio_node ''10.0.0.9''" "valid_members trio" "is_top trio ''10.0.0.9''"
    using trio_silent by (simp_all add: silent_def)
  have hi: "is_top ?vs ''10.0.0.7''" using example_addresses by (simp add: is_top_def trio_simps addr_def less_eq_ipv4_def)
  have "last_beat_received (rf (trio_node ip)) = 0" "leaderDead (st (trio_node ip)) = 300" for ip
    by (simp_all add: trio_node_def Let_def raft_init_def member_state_def)
  then have t: "\<forall>f \<in> set ?vs. 300 - last_beat_received (rf (trio_node f)) \<ge> leaderDead (st (trio_node f))" by simp
  then have sil: "\<forall>p \<in> set ?vs. silent trio trio_node ''10.0.0.9'' p 300" using c by (auto simp: silent_def survivors_def)
  define msgs where "msgs ip = map (\<lambda>p. beat_msg p (rank_of ip (number_from 1 ?vs)) (int (length ?vs))) (filter (\<lambda>p. p \<noteq> ip) ?vs)" for ip
  have "\<forall>ip \<in> set ?vs. set (msgs ip) = beats_to 300 0 trio_node ?vs ip"
    using beats_to_eq [OF sil] by (auto simp: msgs_def)
  from joint_failover_recovers [OF c hi t this refl] show ?thesis by (auto simp: trio_simps)
qed

theorem failover_repartitions_witness:
  "\<exists>!m. m \<in> {''10.0.0.3'', ''10.0.0.7''} \<and> CHR ''q'' \<in> selfRecords (st (take_over 300 0 ''10.0.0.7'' trio_node m))"
proof -
  have "CHR ''q'' \<in> set ALPHABET" by code_simp
  from failover_repartitions [OF trio_silent this, of 0] show ?thesis by (simp add: trio_simps)
qed

lemma trio_letters:
  "CHR ''z'' \<in> selfRecords (st (trio_node ''10.0.0.9''))"
  "CHR ''z'' \<notin> selfRecords (st (take_over 300 nxt ''10.0.0.7'' trio_node ''10.0.0.3''))"
proof -
  have "rank (member_state trio ''10.0.0.9'') = 3"
    by (simp add: member_state_def updateState_def rank_of_def trio_def)
  moreover have "CHR ''z'' \<in> set (shard_slice 3 3)" by code_simp
  ultimately have "CHR ''z'' \<in> selfRecords (member_state trio ''10.0.0.9'')"
    using member_state_settled [OF trio_simps(1), of "''10.0.0.9''"] by (simp add: settled_def trio_simps)
  then show "CHR ''z'' \<in> selfRecords (st (trio_node ''10.0.0.9''))" by (simp add: trio_node_def Let_def)
  have "CHR ''z'' \<notin> set (shard_slice 1 2)" by code_simp
  then show "CHR ''z'' \<notin> selfRecords (st (take_over 300 nxt ''10.0.0.7'' trio_node ''10.0.0.3''))"
    using take_over_shard [OF trio_silent, of "''10.0.0.3''" nxt] by (simp add: trio_simps rank_of_def)
qed

definition quiet_remote :: remote where
  "quiet_remote = \<lparr>ask = (\<lambda>ip msg. Some (''N/A'' @ [NL])), forward = (\<lambda>ip msg. None), dns = (\<lambda>_. None)\<rparr>"

lemma quiet_remote_sel [simp]:
  "ask quiet_remote ip msg = Some (''N/A'' @ [NL])" "forward quiet_remote ip msg = None" "dns quiet_remote d = None"
  by (simp_all add: quiet_remote_def)

lemma z_name: "stripped ''z.com''" "\<not> startswith ''z.com'' ''PEER:''" "lower_char (CHR ''z'') = CHR ''z''"
  by code_simp+

theorem failover_strands_followers_witness:
  "handle_read [(quiet_remote, Recv (''z.com'' @ [NL]) True)]
     (beats_run [(350, beat_msg ''10.0.0.7'' 1 2)] (take_over 300 0 ''10.0.0.7'' trio_node ''10.0.0.3'')) =
   ([''N/A'' @ [NL]], beats_run [(350, beat_msg ''10.0.0.7'' 1 2)] (take_over 300 0 ''10.0.0.7'' trio_node ''10.0.0.3''))"
proof -
  let ?t = "take_over 300 0 ''10.0.0.7'' trio_node ''10.0.0.3''"
  have "printable 1" "printable 2" by code_simp+
  then have beat: "parse_beat (beat_msg ''10.0.0.7'' 1 2) = Some (''10.0.0.7'', 1, 2)"
    using parse_beat_msg [OF example_addresses(3)] by simp
  have t: "st ?t = updateRank 1 2 (st (trio_node ''10.0.0.3''))" "leaderIp (st (trio_node ''10.0.0.3'')) = ''10.0.0.9''"
    using take_over_follower(1) [OF trio_silent, of "''10.0.0.3''" 0] silent_members(3) [OF trio_silent, of "''10.0.0.3''"]
    by (simp_all add: trio_simps rank_of_def)
  have "leaderDead (st (trio_node ''10.0.0.3'')) = 300" by (simp add: trio_node_def Let_def member_state_def)
  then have n: "beats_run [(350, beat_msg ''10.0.0.7'' 1 2)] ?t =
      after_beat 350 ''10.0.0.7'' (IPv4 167772167) (IPv4 167772169) 1 2 ?t"
    using beatHandler_parsed [OF beat example_addresses(3), of ?t "IPv4 167772169" 350] t example_addresses by (simp add: beats_run_def)
  have "selfRecords (st (beats_run [(350, beat_msg ''10.0.0.7'' 1 2)] ?t)) = selfRecords (st ?t)"
    "leaderDead (st (beats_run [(350, beat_msg ''10.0.0.7'' 1 2)] ?t)) = 300"
    using \<open>leaderDead (st (trio_node ''10.0.0.3'')) = 300\<close> unfolding n
    by (simp_all add: after_beat_def Let_def less_ipv4_def t register_sender_def)
  then show ?thesis
    using failover_strands_followers [OF trio_silent, of "''10.0.0.3''" "[(350, beat_msg ''10.0.0.7'' 1 2)]"
        "beats_run [(350, beat_msg ''10.0.0.7'' 1 2)] ?t" 0 400 quiet_remote "''z.com''"]
      beat n z_name trio_letters(2) [of 0]
    by (simp add: trio_simps after_beat_fields del: handle_read.simps)
qed

theorem failover_loses_names_witness:
  "handle_read [(quiet_remote, Recv (''PEER:'' @ ''z.com'' @ [NL]) True)] (take_over 300 0 ''10.0.0.7'' trio_node ''10.0.0.7'') =
     ([''N/A'' @ [NL]], take_over 300 0 ''10.0.0.7'' trio_node ''10.0.0.7'')
   \<and> recordResponse ''z.com'' ''A'' (st (trio_node ''10.0.0.9'')) = ''5.5.5.5''"
proof
  let ?N = "take_over 300 0 ''10.0.0.7'' trio_node"
  have own: "holds_own (st (trio_node ip))" if "ip \<in> set trio" for ip
    using trio_letters(1) by (auto simp: holds_own_def) (auto simp: trio_node_def Let_def split: if_splits)
  have "local_lookup ''z.com'' (st (?N ip)) = ''N/A''" if "ip \<in> set (survivors trio ''10.0.0.9'')" for ip
    using take_over_forgets [OF trio_silent _ that z_name(1), of 0] own trio_letters(1) z_name(3) by simp
  then have "\<forall>ip \<in> set (survivors trio ''10.0.0.9''). ask quiet_remote ip (''PEER:'' @ ''z.com'' @ [NL]) =
      Some (answer quiet_remote (''PEER:'' @ ''z.com'' @ [NL]) (?N ip))"
    using answer_peer [OF z_name(1), of quiet_remote] by simp
  from failover_loses_names [OF trio_silent _ z_name(1) _ z_name(2) _ _ refl this, of "''10.0.0.7''"]
  show "handle_read [(quiet_remote, Recv (''PEER:'' @ ''z.com'' @ [NL]) True)] (?N ''10.0.0.7'') =
      ([''N/A'' @ [NL]], ?N ''10.0.0.7'')"
    using own trio_letters(1) z_name(3) by (simp add: trio_simps del: handle_read.simps)
  have "lower (strip ''z.com'') = ''z.com''" "upper (strip ''A'') = ''A''" by code_simp+
  then show "recordResponse ''z.com'' ''A'' (st (trio_node ''10.0.0.9'')) = ''5.5.5.5''"
    using trio_letters(1) z_name(3) by (simp add: recordResponse_def) (simp add: trio_node_def Let_def)
qed

end
