(* ===== verification/Cluster_History.thy ===== *)
theory Cluster_History
  imports Failover
begin

text \<open>
  Histories of writes in a cluster whose nodes share the volume with the record files, as the
  containers of the deployment do: writes at any members, one after the other, with the packets of
  each delivered before the next. The cluster then is a table in which the last write wins, in the
  memory of the owners and in the files; the files carry it over a restart. Without the delivery
  in between, memory and files can come apart.
\<close>

section \<open>A shared volume\<close>

definition mounted :: "disk \<Rightarrow> (string \<Rightarrow> node) \<Rightarrow> string \<Rightarrow> node" where
  "mounted dk N ip = (N ip)\<lparr>dsk := dk\<rparr>"

definition shared_write :: "string \<Rightarrow> update \<Rightarrow> (string \<Rightarrow> node) \<Rightarrow> string \<Rightarrow> node" where
  "shared_write w u N = (let N' = write_at w (write_msg u @ [NL]) N in mounted (dsk (N' w)) N')"

definition history :: "(string \<times> update) list \<Rightarrow> (string \<Rightarrow> node) \<Rightarrow> string \<Rightarrow> node" where
  "history ws = fold (\<lambda>(w, u). shared_write w u) ws"

text \<open>A cluster over the disk \<open>dk\<close> that can take \<open>k\<close> more writes.\<close>

definition volume_cluster :: "nat \<Rightarrow> string list \<Rightarrow> disk \<Rightarrow> (string \<Rightarrow> node) \<Rightarrow> string \<Rightarrow> bool" where
  "volume_cluster k ips dk N L \<longleftrightarrow> cluster ips N L \<and> (\<forall>ip \<in> set ips. dsk (N ip) = dk \<and> room k (N ip))"

text \<open>The value last written for a key.\<close>

definition latest :: "string \<times> string \<Rightarrow> update list \<Rightarrow> string option" where
  "latest k us = map_of (rev (map (\<lambda>(d, t, v). ((d, t), v)) us)) k"

lemma latest_simps [simp]:
  "latest k [] = None"
  "latest k ((d, t, v) # us) = (case latest k us of None \<Rightarrow> if k = (d, t) then Some v else None | Some x \<Rightarrow> Some x)"
  by (auto simp: latest_def map_add_def split: option.split)

text \<open>The disk after a write depends on the disk alone.\<close>

definition disk_put :: "update \<Rightarrow> disk \<Rightarrow> disk" where
  "disk_put u dk = (case u of (d, t, v) \<Rightarrow> dk\<lparr>files := (files dk)(update_path d \<mapsto>
     concat (rewrite_lines d (update_text d t v) (shard_lines dk (lower_char (hd d)))))\<rparr>)"

lemma written_disk: "dsk (written d t v n) = disk_put (d, t, v) (dsk n)"
  by (simp add: written_def disk_put_def Let_def)

lemma room_mono: "room k n \<Longrightarrow> j \<le> k \<Longrightarrow> room j n"
  by (auto simp: room_def)

lemma shared_write_member:
  assumes "volume_cluster (Suc k) ips dk N L" and "update_ok d t v" and "w \<in> set ips" and "ip \<in> set ips"
  shows "dsk (shared_write w (d, t, v) N ip) = disk_put (d, t, v) dk"
    and "rf (shared_write w (d, t, v) N ip) = (if ip = w
        then (rf (N w))\<lparr>currLogNum := currLogNum (rf (N w)) + 1\<rparr> else rf (N ip))"
    and "st (shared_write w (d, t, v) N ip) = (st (N ip))\<lparr>records :=
      (if ip = w \<or> lower_char (hd d) \<in> selfRecords (st (N ip)) then (records (st (N ip)))((d, t) \<mapsto> v)
       else records (st (N ip)))\<rparr>"
proof -
  have c: "cluster ips N L" and r: "room 1 (N w)" and dk: "dsk (N w) = dk"
    using assms(1,3) by (auto simp: volume_cluster_def intro: room_mono [of "Suc k"])
  have line: "write_msg (d, t, v) @ [NL] = ''1;'' @ update_text d t v @ [NL]" by (simp add: write_msg_def)
  show "dsk (shared_write w (d, t, v) N ip) = disk_put (d, t, v) dk"
    unfolding shared_write_def Let_def line write_at_disk [where N = N, OF assms(2) r] by (simp add: mounted_def written_disk dk)
  show "rf (shared_write w (d, t, v) N ip) = (if ip = w
        then (rf (N w))\<lparr>currLogNum := currLogNum (rf (N w)) + 1\<rparr> else rf (N ip))"
    "st (shared_write w (d, t, v) N ip) = (st (N ip))\<lparr>records :=
      (if ip = w \<or> lower_char (hd d) \<in> selfRecords (st (N ip)) then (records (st (N ip)))((d, t) \<mapsto> v)
       else records (st (N ip)))\<rparr>"
    using write_at_members [OF c assms(2) r assms(3,4)]
    by (simp_all add: shared_write_def Let_def line mounted_def)
qed

lemma shared_write_cluster:
  assumes "volume_cluster (Suc k) ips dk N L" and "update_ok d t v" and "w \<in> set ips"
  shows "volume_cluster k ips (disk_put (d, t, v) dk) (shared_write w (d, t, v) N) L"
proof -
  note m = shared_write_member [OF assms]
  have "cluster ips (shared_write w (d, t, v) N) L"
    using assms(1) m unfolding volume_cluster_def cluster_def by (auto split: if_splits)
  moreover have "room k (shared_write w (d, t, v) N ip)" if ip: "ip \<in> set ips" for ip
  proof -
    have r: "room (Suc k) (N ip)" "dsk (N ip) = dk" using assms(1) ip by (simp_all add: volume_cluster_def)
    have w: "room k (written d t v (N ip))" by (rule written_room [OF assms(2) r(1)])
    have "currLogNum (rf (written d t v (N ip))) = currLogNum (rf (N ip)) + 1" by (simp add: written_def Let_def)
    with w show ?thesis
      using r m(1,2) [OF ip] room_mono [OF r(1), of k] by (cases "ip = w") (simp_all add: room_def written_disk)
  qed
  ultimately show ?thesis using m(1) by (simp add: volume_cluster_def)
qed

section \<open>Histories\<close>

lemma history_Nil [simp]: "history [] N = N"
  by (simp add: history_def)

lemma history_Cons [simp]: "history ((w, u) # ws) N = history ws (shared_write w u N)"
  by (simp add: history_def)

definition writes_ok :: "string list \<Rightarrow> (string \<times> update) list \<Rightarrow> bool" where
  "writes_ok ips ws \<longleftrightarrow> (\<forall>(w, u) \<in> set ws. w \<in> set ips \<and> valid_update u)"

lemma history_cluster:
  assumes "volume_cluster (length ws + k) ips dk N L" and "writes_ok ips ws"
  shows "volume_cluster k ips (fold disk_put (map snd ws) dk) (history ws N) L"
  using assms
proof (induction ws arbitrary: N dk)
  case (Cons a ws)
  obtain w d t v where a: "a = (w, d, t, v)" by (cases a)
  then have u: "update_ok d t v" "w \<in> set ips" "writes_ok ips ws" using Cons.prems(2) by (auto simp: writes_ok_def valid_update_def)
  have "volume_cluster (Suc (length ws + k)) ips dk N L" using Cons.prems(1) by simp
  from Cons.IH [OF shared_write_cluster [OF this u(1,2)] u(3)] show ?case by (simp add: a)
qed simp

lemma history_disk:
  assumes "volume_cluster (length ws) ips dk N L" and "writes_ok ips ws" and "w \<in> set ips"
  shows "dsk (history ws N w) = fold disk_put (map snd ws) dk"
  using history_cluster [of ws 0 ips dk N L] assms by (simp add: volume_cluster_def)

lemma history_memory:
  assumes "volume_cluster (length ws + k) ips dk N L" and "writes_ok ips ws"
    and "owner \<in> set ips" and "lower_char (hd d) \<in> selfRecords (st (N owner))"
  shows "selfRecords (st (history ws N owner)) = selfRecords (st (N owner))
    \<and> records (st (history ws N owner)) (d, t) = (case latest (d, t) (map snd ws) of
        None \<Rightarrow> records (st (N owner)) (d, t) | Some v \<Rightarrow> Some v)"
  using assms
proof (induction ws arbitrary: N dk)
  case (Cons a ws)
  obtain w d' t' v' where a: "a = (w, d', t', v')" by (cases a)
  then have u: "update_ok d' t' v'" "w \<in> set ips" "writes_ok ips ws"
    using Cons.prems(2) by (auto simp: writes_ok_def valid_update_def)
  have c: "volume_cluster (Suc (length ws + k)) ips dk N L" using Cons.prems(1) by simp
  note s = shared_write_member(3) [OF c u(1,2) Cons.prems(3)]
  have "records (st (shared_write w (d', t', v') N owner)) (d, t) =
      (if (d, t) = (d', t') then Some v' else records (st (N owner)) (d, t))"
    using Cons.prems(4) by (auto simp: s)
  then show ?case
    using Cons.IH [OF shared_write_cluster [OF c u(1,2)] u(3) Cons.prems(3)] Cons.prems(4)
    by (auto simp: a s split: option.split)
qed simp

text \<open>The volume is a record store in itself.\<close>

lemma disk_put_node: "disk_put (d, t, v) dk = dsk (written d t v (example_leader\<lparr>dsk := dk\<rparr>))"
  by (simp add: written_disk)

interpretation volume: record_store "\<lambda>k. disk_sound" disk_look disk_put
proof (unfold_locales, goal_cases)
  case (1 u k dk)
  then show ?case by (cases u) (simp add: valid_update_def disk_put_node written_sound)
next
  case (2 u k dk)
  then show ?case by (cases u) (simp add: valid_update_def disk_put_node written_look)
qed

lemma history_serving:
  assumes "disk_sound dk" and "serving_disk dk" and "\<forall>u \<in> set us. valid_update u \<and> lower (fst u) = fst u"
  shows "disk_sound (fold disk_put us dk) \<and> serving_disk (fold disk_put us dk)"
  using assms
proof (induction us arbitrary: dk)
  case (Cons u us)
  obtain d t v where u: "u = (d, t, v)" by (cases u)
  have ok: "update_ok d t v" "lower d = d" "d \<noteq> []" using Cons.prems(3) by (auto simp: u valid_update_def update_ok_def field_ok_def)
  then have "hd d = lower_char (hd d)" by (cases d) (simp_all add: lower_def)
  then have "clean_shard (disk_put u dk) c" if "c \<in> set ALPHABET" for c
    using written_clean [OF ok(1), of "example_leader\<lparr>dsk := dk\<rparr>" c] Cons.prems(1,2) that
    by (simp add: u disk_put_node serving_disk_def)
  then have "serving_disk (disk_put u dk)"
    using Cons.prems(2) by (auto simp: serving_disk_def) (simp add: disk_put_def u)
  moreover have "disk_sound (disk_put u dk)" using volume.room_put [of u] Cons.prems(1,3) by simp
  ultimately show ?case using Cons.IH [of "disk_put u dk"] Cons.prems(3) by simp
qed simp

section \<open>Properties\<close>

lemma history_answers:
  assumes "volume_cluster (length ws) ips dk N L" and "writes_ok ips ws" and "owner \<in> set ips"
    and "lower_char (hd d) \<in> selfRecords (st (N owner))" and "stripped d" and "d \<noteq> []" and "lower d = d"
  shows "cluster ips (history ws N) L" "lower_char (hd d) \<in> selfRecords (st (history ws N owner))"
    "recordResponse d ''A'' (st (history ws N owner)) = (case latest (d, ''A'') (map snd ws) of
       None \<Rightarrow> recordResponse d ''A'' (st (N owner)) | Some v \<Rightarrow> v)"
proof -
  have v: "volume_cluster (length ws + 0) ips dk N L" using assms(1) by simp
  show "cluster ips (history ws N) L" using history_cluster [OF v assms(2)] by (simp add: volume_cluster_def)
  note m = history_memory [OF v assms(2-4)]
  then show "lower_char (hd d) \<in> selfRecords (st (history ws N owner))" using assms(4) by simp
  have "upper (strip ''A'') = ''A''" by code_simp
  then show "recordResponse d ''A'' (st (history ws N owner)) = (case latest (d, ''A'') (map snd ws) of
       None \<Rightarrow> recordResponse d ''A'' (st (N owner)) | Some v \<Rightarrow> v)"
    using m [of "''A''"] assms(4-7) by (cases d) (auto simp: recordResponse_def strip_id split: option.split)
qed

text \<open>
  C2: in a cluster the last write wins. Take any sequence of well-formed writes at any members of a
  settled cluster on a shared volume, the packets of each arriving before the next. Afterwards the
  cluster is as settled as before, and a client that asks any member for a lower-case name gets the
  address written last for it, or the one from before if there was none.
\<close>

theorem cluster_last_write_wins:
  assumes "volume_cluster (length ws) ips dk N L" and "writes_ok ips ws" and "owner \<in> set ips"
    and "lower_char (hd d) \<in> selfRecords (st (N owner))" and "stripped d" and "d \<noteq> []" and "lower d = d"
    and "\<not> startswith d ''PEER:''" and "connected ips (history ws N) L r d" and "m \<in> set ips"
    and "v = (case latest (d, ''A'') (map snd ws) of None \<Rightarrow> recordResponse d ''A'' (st (N owner)) | Some x \<Rightarrow> x)"
    and "reply_ok v"
  shows "cluster ips (history ws N) L
    \<and> handle_read [(r, Recv (d @ [NL]) True)] (history ws N m) = ([v @ [NL]], history ws N m)"
proof -
  note h = history_answers [OF assms(1-7)]
  show ?thesis
    using cluster_answers [OF h(1) assms(9,5,6,8,3) h(2) _ assms(12,10)] h(1,3) assms(11) by simp
qed

text \<open>
  C5: writes survive a restart of the whole cluster. After any such history of writes for lower-case
  names, let any set of nodes (the same members, the survivors of a failure, or new ones) start from
  the volume and hear the heartbeat of the greatest address among them. Whichever of them is asked,
  the answer is the address that the last write of the name stored, or the one on file from before.
\<close>

theorem writes_survive_cluster_restart:
  assumes "volume_cluster (length ws) ips dk N L" and "writes_ok ips ws" and "ips \<noteq> []" and "serving_disk dk"
    and "\<forall>(w, u) \<in> set ws. lower (fst u) = fst u" and "w \<in> set ips" and "dk' = dsk (history ws N w)"
    and "directory env ips'" and "started env ips' dk' order B" and "greatest ips' g"
    and "beats_from ips' B g beat" and "\<forall>k \<le> length ips'. printable (int k)"
    and "stripped d" and "lower d = d" and "d \<noteq> []" and "hd d \<in> set ALPHABET"
    and "(case last_update d (map snd ws) of None \<Rightarrow> last_record (d, ''A'') (shard_lines dk (hd d))
          | Some (t, x) \<Rightarrow> if t = ''A'' then Some x else None) = Some v" and "reply_ok v"
    and "connected ips' (told now g beat B) g r d" and "m \<in> set ips'"
  shows "handle_read [(r, Recv (d @ [NL]) True)] (told now g beat B m) = ([v @ [NL]], told now g beat B m)"
proof -
  let ?us = "map snd ws"
  have dk': "dk' = fold disk_put ?us dk" using history_disk [OF assms(1,2,6)] assms(7) by simp
  have ds: "disk_sound dk" using assms(1,6) by (auto simp: volume_cluster_def room_def)
  have us: "\<forall>u \<in> set ?us. valid_update u \<and> lower (fst u) = fst u" using assms(2,5) by (auto simp: writes_ok_def)
  have serve: "serving_disk dk'" using history_serving [OF ds assms(4) us] dk' by simp
  have c: "lower_char (hd d) = hd d" using assms(14,15) by (cases d) (simp_all add: lower_def)
  have "disk_look dk' (d, ''A'') = Some v"
    using volume.last_write_wins [OF ds, of ?us d "''A''"] us assms(17) c
    by (auto simp: dk' disk_look_def split: option.splits if_splits)
  then have "last_record (d, ''A'') (shard_lines dk' (hd d)) = Some v" by (simp add: disk_look_def c)
  from started_answers [OF assms(8-12) serve assms(13-16) this assms(18-20)] show ?thesis .
qed

section \<open>Writes that cross\<close>

text \<open>A member that handles the packets addressed to its write port.\<close>

definition receive :: "string \<Rightarrow> packet list \<Rightarrow> node \<Rightarrow> node" where
  "receive = deliver_to 9000 (\<lambda>msg n. snd (handle_write [Recv msg True] n))"

definition type1 :: "update \<Rightarrow> node \<Rightarrow> node" where
  "type1 u n = snd (handle_write [Recv (write_msg u @ [NL]) True] n)"

lemma type1_written:
  assumes "update_ok d t v" and "room 1 n"
  shows "type1 (d, t, v) n = written d t v n"
  using write_at_writer [of d t v "\<lambda>_. n" undefined] assms
  by (simp add: type1_def write_msg_def del: handle_write.simps)

lemma receive_entry:
  assumes "cluster ips N L" and "w \<in> set ips" and "ip \<in> set ips" and "ip \<noteq> w" and "st n = st (N w)" and "update_ok d t v"
  shows "st (receive ip (sent_since n (written d t v n)) m) = (st m)\<lparr>records :=
      (if lower_char (hd d) \<in> selfRecords (st m) then (records (st m))((d, t) \<mapsto> v) else records (st m))\<rparr>"
    and "dsk (receive ip (sent_since n (written d t v n)) m) = dsk m"
proof -
  let ?msg = "log_msg (str_int (currLogNum (rf n) + 1)) (update_text d t v)"
  have "distinct ips" using assms(1,2) by (auto simp: cluster_def settled_def sees_def)
  then have "receive ip (sent_since n (written d t v n)) m = snd (handle_write [Recv ?msg True] m)"
    unfolding receive_def sent_entries [OF assms(1,2,5)] using assms(3,4) by (simp add: deliver_one del: handle_write.simps)
  then show "st (receive ip (sent_since n (written d t v n)) m) = (st m)\<lparr>records :=
      (if lower_char (hd d) \<in> selfRecords (st m) then (records (st m))((d, t) \<mapsto> v) else records (st m))\<rparr>"
    "dsk (receive ip (sent_since n (written d t v n)) m) = dsk m"
    using delivered_entry [OF assms(6), of "currLogNum (rf n) + 1" m] by auto
qed

text \<open>
  C15: writes that cross leave memory and files apart. Two members take a write for the same name
  before they hear of each other; the second commits to the shared file last, and its entry reaches
  the owner of the name first. Members store replicated entries in the order of arrival, whatever
  their log numbers. So all packets have arrived, the owner answers the first address, and the file,
  which every restart reads, holds the second one.
\<close>

theorem crossing_writes_diverge:
  assumes "volume_cluster 1 ips dk N L" and "{w1, w2, owner} \<subseteq> set ips" and "w1 \<noteq> owner" and "w2 \<noteq> owner"
    and "update_ok d ''A'' v1" and "update_ok d ''A'' v2" and "lower d = d"
    and "lower_char (hd d) \<in> selfRecords (st (N owner))"
    and "n1 = type1 (d, ''A'', v1) (N w1)" and "n2 = type1 (d, ''A'', v2) ((N w2)\<lparr>dsk := dsk n1\<rparr>)"
    and "m = receive owner (sent_since (N w1) n1) (receive owner (sent_since (N w2) n2) ((N owner)\<lparr>dsk := dsk n2\<rparr>))"
  shows "handle_read [(r, Recv (''PEER:'' @ d @ [NL]) True)] m = ([v1 @ [NL]], m) \<and> disk_look (dsk m) (d, ''A'') = Some v2"
proof
  let ?n = "(N w2)\<lparr>dsk := dsk n1\<rparr>"
  have c: "cluster ips N L" and r: "room 1 (N w1)" "room 1 (N w2)" "disk_sound (dsk (N w1))"
    using assms(1,2) by (auto simp: volume_cluster_def room_def)
  have n1: "n1 = written d ''A'' v1 (N w1)" using assms(9) type1_written [OF assms(5) r(1)] by simp
  then have s1: "disk_sound (dsk n1)" using written_sound [OF assms(5) r(3)] by simp
  then have n2: "n2 = written d ''A'' v2 ?n" using assms(10) type1_written [OF assms(6), of ?n] r(2) by (simp add: room_def)
  have sent: "sent_since (N w2) n2 = sent_since ?n (written d ''A'' v2 ?n)" unfolding n2 by (simp add: sent_since_def)
  note e1 = receive_entry [OF c _ _ _ refl assms(5), of w1 owner]
  note e2 = receive_entry [OF c _ _ _ _ assms(6), of w2 owner ?n]
  have m: "records (st m) (d, ''A'') = Some v1" "selfRecords (st m) = selfRecords (st (N owner))" "dsk m = dsk n2"
    using assms(2-4,8) e1 e2 unfolding assms(11) n1 sent by simp_all
  have d: "stripped d" "d \<noteq> []" "strip d = d" using assms(5) by (auto simp: update_ok_def field_ok_def field_strip)
  have "upper (strip ''A'') = ''A''" by code_simp
  then have "local_lookup d (st m) = v1"
    using m(1,2) d assms(7,8) by (simp add: local_lookup_owner) (cases d, simp_all add: recordResponse_def)
  then show "handle_read [(r, Recv (''PEER:'' @ d @ [NL]) True)] m = ([v1 @ [NL]], m)"
    unfolding handle_read_peer [OF d(1,2)] by simp
  show "disk_look (dsk m) (d, ''A'') = Some v2"
    unfolding m(3) n2 using s1 by (simp add: written_look [OF assms(6)] replace_apply)
qed

section \<open>Concrete runs\<close>

abbreviation example_pair :: "string list" where
  "example_pair \<equiv> [''10.0.0.3'', ''10.0.0.9'']"

lemma example_volume: "volume_cluster 2 example_pair example_disk example_node ''10.0.0.9''"
proof -
  have "printable 1" "printable 2" by code_simp+
  then have "room 2 (example_node ip)" for ip
    using example_disk_sound by (auto simp: room_def example_node_def Let_def raft_init_def less_2_cases_iff)
  moreover have "dsk (example_node ip) = example_disk" for ip by (simp add: example_node_def Let_def)
  ultimately show ?thesis using example_cluster by (simp add: volume_cluster_def)
qed

definition q_writes :: "(string \<times> update) list" where
  "q_writes = [(''10.0.0.3'', ''q.com'', ''A'', ''7.7.7.7''), (''10.0.0.9'', ''q.com'', ''A'', ''8.8.8.8'')]"

lemma q_writes_ok: "writes_ok example_pair q_writes" "length q_writes = 2"
  "latest (''q.com'', ''A'') (map snd q_writes) = Some ''8.8.8.8''"
proof -
  have "update_ok ''q.com'' ''A'' ''7.7.7.7''" "update_ok ''q.com'' ''A'' ''8.8.8.8''" by code_simp+
  then show "writes_ok example_pair q_writes" by (simp add: writes_ok_def q_writes_def valid_update_def)
qed (simp_all add: q_writes_def)

theorem cluster_last_write_wins_witness:
  "\<exists>r. handle_read [(r, Recv (''q.com'' @ [NL]) True)] (history q_writes example_node ''10.0.0.3'') =
    ([''8.8.8.8'' @ [NL]], history q_writes example_node ''10.0.0.3'')"
proof -
  have v: "volume_cluster (length q_writes) example_pair example_disk example_node ''10.0.0.9''"
    using example_volume by (simp add: q_writes_ok)
  have own: "lower_char (hd ''q.com'') \<in> selfRecords (st (example_node ''10.0.0.9''))" using example_owner example_name(1) by simp
  have lo: "lower ''q.com'' = ''q.com''" by code_simp
  have rep: "reply_ok ''8.8.8.8''" by (simp add: reply_ok_def) code_simp
  have c: "cluster example_pair (history q_writes example_node) ''10.0.0.9''"
    by (rule history_answers(1) [OF v q_writes_ok(1) _ own example_name(2) _ lo]) simp_all
  obtain r where r: "connected example_pair (history q_writes example_node) ''10.0.0.9'' r ''q.com''"
    using network_exists [OF c example_name(2) _ example_name(4)] by auto
  have "handle_read [(r, Recv (''q.com'' @ [NL]) True)] (history q_writes example_node ''10.0.0.3'') =
      ([''8.8.8.8'' @ [NL]], history q_writes example_node ''10.0.0.3'')"
    using cluster_last_write_wins [OF v q_writes_ok(1) _ own example_name(2) _ lo example_name(4) r _ _ rep, of "''10.0.0.3''"] q_writes_ok(3)
    by (simp del: handle_read.simps)
  then show ?thesis by blast
qed

definition a_writes :: "(string \<times> update) list" where
  "a_writes = [(''10.0.0.3'', ''a.com'', ''A'', ''3.3.3.3'')]"

theorem writes_survive_cluster_restart_witness:
  "\<exists>r beat. handle_read [(r, Recv (''a.com'' @ [NL]) True)]
      (told 1 ''10.0.0.7'' beat (boot_all example_env [''10.0.0.7'', ''10.0.0.3'']
         (dsk (history a_writes example_node ''10.0.0.3''))) ''10.0.0.3'') =
    ([''3.3.3.3'' @ [NL]],
      told 1 ''10.0.0.7'' beat (boot_all example_env [''10.0.0.7'', ''10.0.0.3'']
         (dsk (history a_writes example_node ''10.0.0.3''))) ''10.0.0.3'')"
proof -
  let ?dk = "dsk (history a_writes example_node ''10.0.0.3'')"
  have ws: "writes_ok example_pair a_writes" "last_update ''a.com'' (map snd a_writes) = Some (''A'', ''3.3.3.3'')"
    using example_updates(1) by (simp_all add: writes_ok_def a_writes_def valid_update_def last_update_def)
  have v: "volume_cluster (length a_writes) example_pair example_disk example_node ''10.0.0.9''"
    using example_volume by (auto simp: volume_cluster_def a_writes_def intro: room_mono [of 2])
  have lo: "\<forall>(w, u) \<in> set a_writes. lower (fst u) = fst u" using example_a_name(2) by (simp add: a_writes_def)
  have dk: "?dk = fold disk_put (map snd a_writes) example_disk"
    by (rule history_disk [OF v ws(1)]) simp
  have "serving_disk ?dk" unfolding dk using example_disk_sound example_serving ws(1) lo
    by (intro history_serving [THEN conjunct2]) (auto simp: writes_ok_def)
  note s = boot_all_started [OF example_directory this]
  obtain beat where beat: "beats_from example_ips (boot_all example_env example_ips ?dk) ''10.0.0.7'' beat"
    using beats_exist [OF example_directory s] by auto
  obtain r where r: "connected example_ips (told 1 ''10.0.0.7'' beat (boot_all example_env example_ips ?dk)) ''10.0.0.7'' r ''a.com''"
    using network_exists [OF booted_cluster(1) [OF example_directory s example_greatest beat example_ranks, of 1] example_a_name(1)]
      letter_not_peer [OF example_a_name(3)] by auto
  have rep: "reply_ok ''3.3.3.3''" by (simp add: reply_ok_def) code_simp
  show ?thesis
    using writes_survive_cluster_restart [OF v ws(1) _ example_serving lo _ refl example_directory s example_greatest beat
        example_ranks example_a_name(1,2) _ example_a_name(3) _ rep r, of "''10.0.0.3''"] ws(2)
    by (auto simp del: handle_read.simps)
qed

theorem crossing_writes_diverge_witness:
  "\<exists>m. handle_read [(quiet_remote, Recv (''PEER:'' @ ''z.com'' @ [NL]) True)] m = ([''3.3.3.3'' @ [NL]], m)
    \<and> disk_look (dsk m) (''z.com'', ''A'') = Some ''4.4.4.4''"
proof -
  have u: "update_ok ''z.com'' ''A'' ''3.3.3.3''" "update_ok ''z.com'' ''A'' ''4.4.4.4''" "lower ''z.com'' = ''z.com''" by code_simp+
  have "printable 1" by code_simp
  then have "room 1 (trio_node ip) \<and> dsk (trio_node ip) = example_disk" for ip
    using example_disk_sound by (simp add: room_def trio_node_def Let_def raft_init_def)
  then have v: "volume_cluster 1 trio example_disk trio_node ''10.0.0.9''"
    using trio_silent by (simp add: volume_cluster_def silent_def)
  have w: "{''10.0.0.3'', ''10.0.0.7'', ''10.0.0.9''} \<subseteq> set trio" by (simp add: trio_simps)
  have own: "lower_char (hd ''z.com'') \<in> selfRecords (st (trio_node ''10.0.0.9''))" using trio_letters(1) z_name(3) by simp
  show ?thesis
    using crossing_writes_diverge [OF v w _ _ u own refl refl refl, of quiet_remote] by (auto simp del: handle_read.simps)
qed

end
