(* ===== verification/Cluster_Refresh.thy ===== *)
theory Cluster_Refresh
  imports Batch Cluster_History
begin

text \<open>
  The refresh pass of one node (\<^verbatim>\<open>data_plane/batch/_batch.py\<close>) seen from the cluster: the messages of
  the pass arrive at the write port of the leader, which handles them like any other writes.
\<close>

section \<open>The messages of a pass as a history\<close>

text \<open>Packets handled at the write ports they are addressed to, over the shared volume.\<close>

definition arrive :: "packet list \<Rightarrow> (string \<Rightarrow> node) \<Rightarrow> string \<Rightarrow> node" where
  "arrive ps N = fold (\<lambda>(ip, port, msg) N. let N' = write_at ip msg N in mounted (dsk (N' ip)) N') ps N"

lemma arrive_corrections: "arrive (map (correction_packet L) us) N = history (map (Pair L) us) N"
proof (induction us arbitrary: N)
  case (Cons u us)
  then show ?case by (simp add: arrive_def correction_packet_def shared_write_def)
qed (simp add: arrive_def)

text \<open>All updates of a name carry the same value if they come from one source.\<close>

lemma latest_source:
  assumes "\<forall>(d, t, v) \<in> set us. live d = Some v" and "live d = Some x"
  shows "latest (d, t) us = (if (d, t, x) \<in> set us then Some x else None)"
  using assms
proof (induction us)
  case (Cons u us)
  obtain d' t' v' where u: "u = (d', t', v')" by (cases u)
  with Cons show ?case by (auto simp: split: if_splits option.split)
qed simp

lemma pass_messages:
  assumes "process live order n = (oc, n1)" and "net n1 = net n @ sent"
    and "\<forall>c \<in> set order. tidy (dsk n) c" and "disk_sound (dsk n)"
  shows "sent = map (correction_packet (leaderIp (st n))) (corrections live (dsk n) order)"
  using process_eq [of order n live] assms by (auto simp: disk_sound_def)

section \<open>Properties\<close>

text \<open>
  C35: a refresh pass reaches every member. A node of a settled cluster on a shared volume makes a pass
  over the files of some letters, and the leader handles the messages it sent. Then a client that asks
  any member for a lower-case name of these letters gets its live address, if the name had an address on file, the
  owner had loaded it, and live resolution knows the name.
\<close>

theorem refresh_reaches_all_members:
  assumes "volume_cluster (length sent) ips dk N L" and "w \<in> set ips" and "leaderIp (st (N w)) = L"
    and "process live order (N w) = (oc, n1)" and "net n1 = net (N w) @ sent"
    and "\<forall>c \<in> set order. tidy dk c" and "\<forall>d x. live d = Some x \<longrightarrow> field_ok x"
    and "owner \<in> set ips" and "lower_char (hd d) \<in> selfRecords (st (N owner))"
    and "stripped d" and "d \<noteq> []" and "lower d = d" and "\<not> startswith d ''PEER:''" and "hd d \<in> set order"
    and "last_record (d, ''A'') (shard_lines dk (hd d)) = Some v" and "recordResponse d ''A'' (st (N owner)) = v"
    and "live d = Some x" and "reply_ok x" and "connected ips (arrive sent N) L r d" and "m \<in> set ips"
  shows "handle_read [(r, Recv (d @ [NL]) True)] (arrive sent N m) = ([x @ [NL]], arrive sent N m)"
proof -
  let ?us = "corrections live dk order"
  let ?ws = "map (Pair L) ?us"
  have dk: "dsk (N w) = dk" "disk_sound dk" "L \<in> set ips"
    using assms(1,2) by (auto simp: volume_cluster_def room_def cluster_def)
  have sent: "sent = map (correction_packet L) ?us"
    using pass_messages [OF assms(4,5)] dk assms(3,6) by simp
  have valid: "\<forall>u \<in> set ?us. valid_update u"
    using assms(6,7) by (auto simp: valid_update_def update_ok_def elim!: in_corrections)
  have src: "\<forall>(d, t, v) \<in> set ?us. live d = Some v" using assms(6) by (auto elim: in_corrections)
  have v: "volume_cluster (length ?ws) ips dk N L" using assms(1) sent by simp
  have ok: "writes_ok ips ?ws" using valid dk(3) by (auto simp: writes_ok_def)
  note h = history_answers [OF v ok assms(8-12)]
  have "v = x \<or> (d, ''A'', x) \<in> set ?us" using corrections_complete [of "hd d" order d "''A''" dk v live x] assms(14,15,17) by blast
  then have "recordResponse d ''A'' (st (history ?ws N owner)) = x"
    using h(3) latest_source [OF src assms(17), of "''A''"] assms(16) by (auto simp: comp_def)
  then show ?thesis
    using cluster_answers [OF h(1) _ assms(10,11,13,8) h(2) _ assms(18,20)] assms(19)
    unfolding sent arrive_corrections by simp
qed

section \<open>A concrete pass\<close>

definition loaded_node :: "string \<Rightarrow> node" where
  "loaded_node ip = (example_node ip)\<lparr>st := (st (example_node ip))\<lparr>records := [(''a.com'', ''A'') \<mapsto> ''2.2.2.2'']\<rparr>\<rparr>"

lemma loaded_volume: "volume_cluster 2 example_pair example_disk loaded_node ''10.0.0.9''"
  using example_volume example_disk_sound by (simp add: volume_cluster_def cluster_def loaded_node_def room_def)

lemma loaded_fields: "leaderIp (st (loaded_node ip)) = ''10.0.0.9''" "dsk (loaded_node ip) = example_disk"
  "CHR ''a'' \<in> selfRecords (st (loaded_node ''10.0.0.3''))"
proof -
  have "rank (member_state example_pair ''10.0.0.3'') = 1" by (simp add: member_state_def updateState_def rank_of_def)
  moreover have "CHR ''a'' \<in> set (shard_slice 1 2)" by code_simp
  ultimately show "CHR ''a'' \<in> selfRecords (st (loaded_node ''10.0.0.3''))"
    using member_state_settled [of example_pair "''10.0.0.3''"] by (simp add: loaded_node_def example_node_def Let_def settled_def)
qed (simp_all add: loaded_node_def example_node_def Let_def)

lemma loaded_corrections:
  "corrections [''a.com'' \<mapsto> ''9.9.9.9''] example_disk ''a'' = [(''a.com'', ''A'', ''9.9.9.9''), (''a.com'', ''A'', ''9.9.9.9'')]"
proof -
  have "List.map_filter (correction [''a.com'' \<mapsto> ''9.9.9.9'']) [''a.com,A,1.1.1.1'' @ [NL], ''a.com,A,2.2.2.2'' @ [NL]] =
      [(''a.com'', ''A'', ''9.9.9.9''), (''a.com'', ''A'', ''9.9.9.9'')]" by code_simp
  then show ?thesis by (simp add: corrections_def example_lines del: List.map_filter_simps)
qed

theorem refresh_reaches_all_members_witness:
  "\<exists>sent r. net (snd (process [''a.com'' \<mapsto> ''9.9.9.9''] ''a'' (loaded_node ''10.0.0.3''))) = sent
    \<and> handle_read [(r, Recv (''a.com'' @ [NL]) True)] (arrive sent loaded_node ''10.0.0.9'') =
      ([''9.9.9.9'' @ [NL]], arrive sent loaded_node ''10.0.0.9'')"
proof -
  let ?live = "[''a.com'' \<mapsto> ''9.9.9.9''] :: string \<Rightarrow> string option"
  let ?n = "loaded_node ''10.0.0.3''"
  let ?us = "[(''a.com'', ''A'', ''9.9.9.9''), (''a.com'', ''A'', ''9.9.9.9'')]"
  define sent where "sent = map (correction_packet ''10.0.0.9'') ?us"
  have net: "net ?n = []" by (simp add: loaded_node_def example_node_def Let_def)
  have p: "process ?live ''a'' ?n = (Done, ?n\<lparr>net := net ?n @ sent\<rparr>)"
    using process_eq [of "''a''" ?n ?live] example_tidy example_disk_sound
    by (simp add: loaded_fields loaded_corrections disk_sound_def sent_def)
  have u: "update_ok ''a.com'' ''A'' ''9.9.9.9''" "field_ok ''9.9.9.9''" "lower_char (CHR ''a'') = CHR ''a''" by code_simp+
  have v: "volume_cluster (length sent) example_pair example_disk loaded_node ''10.0.0.9''" using loaded_volume by (simp add: sent_def numeral_2_eq_2)
  have "volume_cluster (length (map (Pair ''10.0.0.9'') ?us)) example_pair example_disk loaded_node ''10.0.0.9''"
    using v by (simp add: sent_def)
  moreover have "writes_ok example_pair (map (Pair ''10.0.0.9'') ?us)" using u(1) by (simp add: writes_ok_def valid_update_def)
  ultimately have c: "cluster example_pair (arrive sent loaded_node) ''10.0.0.9''"
    using history_answers(1) [of "map (Pair ''10.0.0.9'') ?us" example_pair example_disk loaded_node "''10.0.0.9''" "''10.0.0.3''" "''a.com''"]
      example_a_name loaded_fields(3) u(3) unfolding sent_def arrive_corrections by simp
  obtain r where r: "connected example_pair (arrive sent loaded_node) ''10.0.0.9'' r ''a.com''"
    using network_exists [OF c example_a_name(1) _ letter_not_peer [OF example_a_name(3)]] by auto
  have rep: "reply_ok ''9.9.9.9''" by (simp add: reply_ok_def) code_simp
  have "lower (strip ''a.com'') = ''a.com''" "upper (strip ''A'') = ''A''" by code_simp+
  then have mem: "recordResponse ''a.com'' ''A'' (st ?n) = ''2.2.2.2''"
    using loaded_fields(3) u(3) by (simp add: recordResponse_def) (simp add: loaded_node_def)
  have "handle_read [(r, Recv (''a.com'' @ [NL]) True)] (arrive sent loaded_node ''10.0.0.9'') =
      ([''9.9.9.9'' @ [NL]], arrive sent loaded_node ''10.0.0.9'')"
    by (rule refresh_reaches_all_members [OF v _ loaded_fields(1) p _ _ _ _ _ example_a_name(1) _ example_a_name(2)
        letter_not_peer [OF example_a_name(3)] _ example_a_record mem _ rep r])
      (use u example_tidy loaded_fields(3) in simp_all)
  then show ?thesis using p net by auto
qed

end
