(* ===== verification/Java_Base.thy ===== *)
theory Java_Base
  imports Ipv4 "HOL-Library.Word"
begin

text \<open>
  What the Java control plane uses of the Java library: \<^verbatim>\<open>String.isBlank\<close>, \<^verbatim>\<open>toLowerCase\<close> and
  \<^verbatim>\<open>split\<close>, \<^verbatim>\<open>Integer.parseInt\<close>, and bytes. A string is a list of characters of the range U+0000
  to U+00FF, in which these functions are those of the Java library in a locale without letter
  rules of its own.
\<close>

type_synonym byte = "8 word"

definition isWhitespace :: "char \<Rightarrow> bool" where
  "isWhitespace c \<longleftrightarrow> (let n = of_char c :: nat in (9 \<le> n \<and> n \<le> 13) \<or> (28 \<le> n \<and> n \<le> 32))"

definition isBlank :: "string \<Rightarrow> bool" where
  "isBlank s \<longleftrightarrow> list_all isWhitespace s"

definition lower_latin :: "char \<Rightarrow> char" where
  "lower_latin c =
     (let n = of_char c :: nat
      in if (65 \<le> n \<and> n \<le> 90) \<or> (192 \<le> n \<and> n \<le> 222 \<and> n \<noteq> 215) then char_of (n + 32) else c)"

definition toLowerCase :: "string \<Rightarrow> string" where
  "toLowerCase s = map lower_latin s"

text \<open>\<^verbatim>\<open>split\<close> at a character drops the empty parts at the end, unless the character does not occur.\<close>

definition java_split :: "char \<Rightarrow> string \<Rightarrow> string list" where
  "java_split c s =
     (if c \<notin> set s then [s] else rev (dropWhile (\<lambda>p. p = []) (rev (split_on c s))))"

definition digits_value :: "string \<Rightarrow> nat option" where
  "digits_value s =
     (if s \<noteq> [] \<and> list_all is_digit s then Some (foldl (\<lambda>n c. 10 * n + digit_val c) 0 s) else None)"

definition parseInt :: "string \<Rightarrow> int option" where
  "parseInt s =
     (let (neg, ds) = (case s of c # cs \<Rightarrow> if c = CHR ''-'' then (True, cs)
             else if c = CHR ''+'' then (False, cs) else (False, s) | [] \<Rightarrow> (False, []))
      in case digits_value ds of
           None \<Rightarrow> None
         | Some n \<Rightarrow>
             let i = (if neg then - int n else int n)
             in if - (2 ^ 31) \<le> i \<and> i < 2 ^ 31 then Some i else None)"

declare isWhitespace_def [py_eval] isBlank_def [py_eval]

lemma lower_latin_not_capital: "lower_latin c \<noteq> CHR ''P''"
proof
  assume "lower_latin c = CHR ''P''"
  then have "of_char (lower_latin c) = (80 :: nat)" by simp
  then show False by (auto simp: lower_latin_def Let_def split: if_splits)
qed

lemma isBlank_Nil [simp]: "isBlank []"
  by (simp add: isBlank_def)

lemma digit_not_blank: "is_digit c \<Longrightarrow> \<not> isWhitespace c"
  by (simp add: is_digit_def isWhitespace_def Let_def)

lemma split_join:
  assumes "\<forall>p \<in> set ps. c \<notin> set p" and "ps \<noteq> []"
  shows "split_on c (join_with c ps) = ps"
  using assms
proof (induction ps)
  case (Cons p ps)
  then show ?case by (cases ps) (simp_all add: split_on_single split_on_append)
qed simp

lemma digits_value_str_nat: "digits_value (str_nat n) = Some n"
proof -
  have "foldl (\<lambda>n c. 10 * n + digit_val c) 0 (str_nat n) = n"
  proof (induction n rule: str_nat.induct)
    case (1 n)
    then show ?case by (subst str_nat.simps) simp
  qed
  then show ?thesis by (simp add: digits_value_def list_all_iff str_nat_digits)
qed

lemma parseInt_str_nat: "int n < 2 ^ 31 \<Longrightarrow> parseInt (str_nat n) = Some (int n)"
proof -
  assume n: "int n < 2 ^ 31"
  obtain c cs where s: "str_nat n = c # cs" by (cases "str_nat n") simp_all
  then have "c \<noteq> CHR ''-''" "c \<noteq> CHR ''+''"
    using str_nat_digits [of c n] digit_not_special by fastforce+
  with n s digits_value_str_nat [of n] show ?thesis by (simp add: parseInt_def Let_def)
qed

end
