(* ===== verification/Dns_Codec.thy ===== *)
theory Dns_Codec
  imports Java_Base
begin

text \<open>
  The DNS wire format in the Java control plane: \<^verbatim>\<open>DnsRequestParser.java\<close>, which reads the queried
  name and type out of a request, and \<^verbatim>\<open>DnsResponseBuilder.java\<close>, which builds the response. Bytes
  are 8-bit words. Two things the code calls are arguments: the default character set with which
  \<^verbatim>\<open>new String(bytes)\<close> decodes a label, and \<^verbatim>\<open>InetAddress.getByName\<close>, which for a text that is no
  address literal asks the resolver of the host.
\<close>

unbundle bit_operations_syntax

type_synonym charset = "byte list \<Rightarrow> string"

type_synonym host_lookup = "string \<Rightarrow> byte list option"

section \<open>DnsRequestParser\<close>

function parse_labels :: "charset \<Rightarrow> byte list \<Rightarrow> nat \<Rightarrow> string \<Rightarrow> string option" where
  "parse_labels cs request pos domain =
     (if pos < length request then
        let labelLen = unat (request ! pos)
        in if labelLen = 0 then Some domain
           else if request ! pos AND 0xC0 = 0xC0 then Some domain
           else if pos + 1 + labelLen > length request then None
           else parse_labels cs request (pos + 1 + labelLen)
                  ((if length domain > 0 then domain @ ''.'' else domain) @ cs (take labelLen (drop (pos + 1) request)))
      else Some domain)"
  by pat_completeness auto
termination
  by (relation "measure (\<lambda>(cs, request, pos, domain). length request - pos)") auto

declare parse_labels.simps [simp del]

definition parseDomain :: "charset \<Rightarrow> byte list \<Rightarrow> string option" where
  "parseDomain cs request =
     (if length request < 12 then None
      else case parse_labels cs request 12 [] of
             None \<Rightarrow> None
           | Some domain \<Rightarrow> let result = toLowerCase domain in if result = [] then None else Some result)"

function skip_name :: "byte list \<Rightarrow> nat \<Rightarrow> nat" where
  "skip_name request pos =
     (if pos < length request then
        let labelLen = unat (request ! pos)
        in if labelLen = 0 then pos + 1 else skip_name request (pos + (1 + labelLen))
      else pos)"
  by pat_completeness auto
termination
  by (relation "measure (\<lambda>(request, pos). length request - pos)") auto

declare skip_name.simps [simp del]

definition parseQType :: "byte list \<Rightarrow> int" where
  "parseQType request =
     (if length request < 12 then -1
      else let pos = skip_name request 12
        in if pos + 1 \<ge> length request then -1
           else sint (push_bit 8 (ucast (request ! pos) :: 32 word) OR ucast (request ! (pos + 1))))"

section \<open>DnsResponseBuilder\<close>

definition TTL_SECONDS :: nat where
  "TTL_SECONDS = 60"

definition writeShort :: "nat \<Rightarrow> byte list" where
  "writeShort n = [of_nat (n div 256), of_nat n]"

definition writeInt :: "nat \<Rightarrow> byte list" where
  "writeInt n = writeShort (n div 65536) @ writeShort n"

function qname_end :: "byte list \<Rightarrow> nat \<Rightarrow> nat" where
  "qname_end query pos =
     (if pos < length query \<and> query ! pos \<noteq> 0 then qname_end query (pos + 1) else pos)"
  by pat_completeness auto
termination
  by (relation "measure (\<lambda>(query, pos). length query - pos)") auto

declare qname_end.simps [simp del]

definition is_found :: "string option \<Rightarrow> bool" where
  "is_found ipAddress = (case ipAddress of None \<Rightarrow> False | Some s \<Rightarrow> \<not> isBlank s)"

definition response_header :: "byte list \<Rightarrow> bool \<Rightarrow> byte list" where
  "response_header query found =
     [query ! 0, query ! 1] @ writeShort (if found then 0x8180 else 0x8183) @ writeShort 1
     @ writeShort (if found then 1 else 0) @ writeShort 0 @ writeShort 0"

definition answer_head :: "byte list" where
  "answer_head = [0xC0, 0x0C] @ writeShort 1 @ writeShort 1 @ writeInt TTL_SECONDS @ writeShort 4"

definition buildResponse :: "host_lookup \<Rightarrow> byte list \<Rightarrow> string option \<Rightarrow> byte list option" where
  "buildResponse getByName query ipAddress =
     (if length query < 12 then None
      else let found = is_found ipAddress; qnameEnd = qname_end query 12
        in if qnameEnd \<ge> length query then None
           else let questionLen = (qnameEnd - 12) + 1 + 4
             in if 12 + questionLen > length query then None
                else let out = response_header query found @ take questionLen (drop 12 query)
                  in if found
                     then (case getByName (the ipAddress) of
                             None \<Rightarrow> None
                           | Some addr \<Rightarrow> Some (out @ answer_head @ addr))
                     else Some out)"

section \<open>Messages\<close>

text \<open>
  Names as RFC 1035 encodes them, and queries: a header of twelve bytes, the name, type and class
  of the question, and whatever a client sends after it.
\<close>

definition encode_name :: "byte list list \<Rightarrow> byte list" where
  "encode_name ls = concat (map (\<lambda>l. of_nat (length l) # l) ls) @ [0]"

definition valid_label :: "byte list \<Rightarrow> bool" where
  "valid_label l \<longleftrightarrow> l \<noteq> [] \<and> length l \<le> 63 \<and> list_all (\<lambda>b. 0 < b \<and> b < 128) l"

definition encode_query :: "byte list \<Rightarrow> byte list list \<Rightarrow> nat \<Rightarrow> nat \<Rightarrow> byte list \<Rightarrow> byte list" where
  "encode_query header ls qtype qclass rest =
     header @ encode_name ls @ writeShort qtype @ writeShort qclass @ rest"

definition latin1 :: charset where
  "latin1 bs = map (\<lambda>b. char_of (unat b)) bs"

definition domain_text :: "byte list list \<Rightarrow> string" where
  "domain_text ls = join_with (CHR ''.'') (map latin1 ls)"

text \<open>What every default character set of a Java runtime does with the bytes of ASCII.\<close>

definition ascii_compatible :: "charset \<Rightarrow> bool" where
  "ascii_compatible cs \<longleftrightarrow> (\<forall>bs. list_all (\<lambda>b. b < 128) bs \<longrightarrow> cs bs = latin1 bs)"

lemma latin1_compatible: "ascii_compatible latin1"
  by (simp add: ascii_compatible_def)

section \<open>Parsing what was encoded\<close>

lemma label_byte:
  assumes "n \<le> 63"
  shows "unat (of_nat n :: byte) = n" and "(of_nat n :: byte) AND 0xC0 \<noteq> 0xC0"
proof -
  show "unat (of_nat n :: byte) = n" using assms by (simp add: unat_of_nat)
  have "list_all (\<lambda>n. (of_nat n :: byte) AND 0xC0 \<noteq> 0xC0) [0..<64]" by code_simp
  with assms show "(of_nat n :: byte) AND 0xC0 \<noteq> 0xC0" by (simp add: list_all_iff)
qed

definition append_label :: "string \<Rightarrow> string \<Rightarrow> string" where
  "append_label domain l = (if length domain > 0 then domain @ ''.'' else domain) @ l"

lemma parse_labels_step:
  assumes "valid_label l" and "ascii_compatible cs"
  shows "parse_labels cs (pre @ of_nat (length l) # l @ rest) (length pre) d =
    parse_labels cs ((pre @ of_nat (length l) # l) @ rest) (length (pre @ of_nat (length l) # l)) (append_label d (latin1 l))"
proof -
  have "0 < length l" "length l \<le> 63" "cs l = latin1 l"
    using assms by (auto simp: valid_label_def ascii_compatible_def list_all_iff)
  then show ?thesis
    using label_byte [of "length l"]
    by (subst parse_labels.simps) (simp add: nth_append append_label_def Let_def)
qed

lemma parse_labels_encode:
  assumes "\<forall>l \<in> set ls. valid_label l" and "ascii_compatible cs"
  shows "parse_labels cs (pre @ encode_name ls @ rest) (length pre) d = Some (foldl append_label d (map latin1 ls))"
  using assms(1)
proof (induction ls arbitrary: pre d)
  case Nil
  show ?case by (subst parse_labels.simps) (simp add: encode_name_def nth_append)
next
  case (Cons l ls)
  then show ?case
    using parse_labels_step [OF _ assms(2), of l pre "encode_name ls @ rest" d]
      Cons.IH [of "pre @ of_nat (length l) # l"]
    by (simp add: encode_name_def)
qed

lemma foldl_append_label:
  assumes "\<forall>l \<in> set ls. l \<noteq> []"
  shows "foldl append_label d ls = (if ls = [] then d else if d = [] then join_with (CHR ''.'') ls else d @ ''.'' @ join_with (CHR ''.'') ls)"
  using assms
proof (induction ls arbitrary: d)
  case (Cons l ls)
  have "foldl append_label d (l # ls) = foldl append_label (append_label d l) ls" by simp
  also have "\<dots> = (if ls = [] then append_label d l else append_label d l @ ''.'' @ join_with (CHR ''.'') ls)"
    using Cons.IH [of "append_label d l"] Cons.prems by (simp add: append_label_def [of d l])
  finally show ?case
    by (simp only:) (cases ls, simp_all add: append_label_def)
qed simp

lemma skip_name_encode:
  assumes "\<forall>l \<in> set ls. valid_label l"
  shows "skip_name (pre @ encode_name ls @ rest) (length pre) = length (pre @ encode_name ls)"
  using assms
proof (induction ls arbitrary: pre)
  case Nil
  show ?case by (subst skip_name.simps) (simp add: encode_name_def nth_append)
next
  case (Cons l ls)
  then have "0 < length l" "length l \<le> 63" by (auto simp: valid_label_def)
  then have "skip_name (pre @ encode_name (l # ls) @ rest) (length pre) =
      skip_name ((pre @ of_nat (length l) # l) @ encode_name ls @ rest) (length (pre @ of_nat (length l) # l))"
    using label_byte [of "length l"]
    by (subst skip_name.simps) (simp add: encode_name_def nth_append Let_def)
  with Cons.IH [of "pre @ of_nat (length l) # l"] Cons.prems show ?case by (simp add: encode_name_def)
qed

lemma qname_end_append:
  "0 \<notin> set bs \<Longrightarrow> qname_end (pre @ bs @ 0 # rest) (length pre) = length (pre @ bs)"
proof (induction bs arbitrary: pre)
  case Nil
  show ?case by (subst qname_end.simps) (simp add: nth_append)
next
  case (Cons b bs)
  then show ?case
    using Cons.IH [of "pre @ [b]"] by (subst qname_end.simps) (simp add: nth_append)
qed

lemma encode_name_zero_free:
  assumes "\<forall>l \<in> set ls. valid_label l"
  shows "0 \<notin> set (concat (map (\<lambda>l. of_nat (length l) # l) ls))"
proof
  assume "0 \<in> set (concat (map (\<lambda>l. of_nat (length l) # l) ls))"
  then obtain l where l: "l \<in> set ls" "of_nat (length l) = (0 :: byte) \<or> 0 \<in> set l" by auto
  with assms have v: "valid_label l" by simp
  then have "0 < length l" "length l \<le> 63" by (auto simp: valid_label_def)
  then have "of_nat (length l) \<noteq> (0 :: byte)" using label_byte(1) [of "length l"] by (metis less_irrefl unat_0)
  with l v show False by (auto simp: valid_label_def list_all_iff)
qed

lemma word_short:
  fixes a b :: byte
  shows "sint (push_bit 8 (ucast a :: 32 word) OR ucast b) = 256 * uint a + uint b"
proof -
  let ?w = "push_bit 8 (ucast a :: 32 word) OR ucast b"
  have ab: "uint a < 256" "uint b < 256" "0 \<le> uint a" "0 \<le> uint b"
    using uint_lt2p [of a] uint_lt2p [of b] by simp_all
  have "push_bit 8 (ucast a :: 32 word) AND ucast b = 0"
    by (rule bit_word_eqI) (auto simp: bit_simps dest: bit_imp_le_length)
  then have "?w = push_bit 8 (ucast a) + ucast b" using word_plus_and_or [of "push_bit 8 (ucast a :: 32 word)" "ucast b"] by simp
  also have "\<dots> = word_of_int (256 * uint a + uint b)"
    by (simp add: push_bit_eq_mult)
  finally have w: "?w = word_of_int (256 * uint a + uint b)" .
  show ?thesis
    unfolding w sint_sbintrunc'
  proof (rule signed_take_bit_int_eq_self)
    have "0 \<le> 256 * uint a + uint b" "256 * uint a + uint b < 65536" using ab by simp_all
    then show "- (2 ^ (LENGTH(32) - 1)) \<le> 256 * uint a + uint b" "256 * uint a + uint b < 2 ^ (LENGTH(32) - 1)"
      by (linarith | simp)+
  qed
qed

lemma parseDomain_encode:
  assumes "length header = 12" and "ls \<noteq> []" and "\<forall>l \<in> set ls. valid_label l" and "ascii_compatible cs"
  shows "parseDomain cs (header @ encode_name ls @ rest) = Some (toLowerCase (domain_text ls))"
proof -
  have ne: "\<forall>l \<in> set (map latin1 ls). l \<noteq> []" using assms(3) by (auto simp: valid_label_def latin1_def)
  have "domain_text ls \<noteq> []" using ne assms(2) unfolding domain_text_def
    by (cases "map latin1 ls" rule: list.exhaust) (auto, metis append_is_Nil_conv join_with.simps(2,3) list.exhaust)
  moreover have "parse_labels cs (header @ encode_name ls @ rest) 12 [] = Some (domain_text ls)"
    using parse_labels_encode [OF assms(3,4), of header rest "[]"] assms(1,2) foldl_append_label [OF ne, of "[]"]
    by (simp add: domain_text_def)
  ultimately show ?thesis using assms(1) by (simp add: parseDomain_def Let_def toLowerCase_def)
qed

lemma parseQType_encode:
  assumes "length header = 12" and "\<forall>l \<in> set ls. valid_label l" and "qtype < 65536"
  shows "parseQType (header @ encode_name ls @ writeShort qtype @ rest) = int qtype"
proof -
  let ?r = "header @ encode_name ls @ writeShort qtype @ rest" and ?p = "length (header @ encode_name ls)"
  have p: "skip_name ?r 12 = ?p"
    using skip_name_encode [OF assms(2), of header "writeShort qtype @ rest"] assms(1) by simp
  have b: "?r ! ?p = of_nat (qtype div 256)" "?r ! (?p + 1) = of_nat qtype"
    by (simp_all add: nth_append writeShort_def)
  have "256 * uint (of_nat (qtype div 256) :: byte) + uint (of_nat qtype :: byte) = int qtype"
    using assms(3) by (simp add: uint_nat unat_of_nat zmod_int zdiv_int)
  then have "sint (push_bit 8 (ucast (?r ! ?p) :: 32 word) OR ucast (?r ! (?p + 1))) = int qtype"
    unfolding b by (simp add: word_short)
  then show ?thesis using assms(1) p unfolding parseQType_def by (simp add: Let_def writeShort_def)
qed

section \<open>Properties\<close>

text \<open>
  C21: parsing undoes encoding. Of a query with a twelve-byte header for a name of one or more
  labels of 1 to 63 ASCII characters, \<^verbatim>\<open>parseDomain\<close> returns the labels joined by dots, folded to
  lower case, and \<^verbatim>\<open>parseQType\<close> returns the type, whatever follows the question.
\<close>

theorem query_roundtrip:
  assumes "length header = 12" and "ls \<noteq> []" and "\<forall>l \<in> set ls. valid_label l" and "ascii_compatible cs"
    and "qtype < 65536"
  shows "parseDomain cs (encode_query header ls qtype qclass rest) = Some (toLowerCase (domain_text ls))
    \<and> parseQType (encode_query header ls qtype qclass rest) = int qtype"
  using parseDomain_encode [OF assms(1-4)] parseQType_encode [OF assms(1,3,5)]
  by (simp add: encode_query_def)

text \<open>What is built for an encoded query: the question is copied, the rest of the query is not.\<close>

lemma buildResponse_encode:
  assumes "length header = 12" and "\<forall>l \<in> set ls. valid_label l"
  shows "buildResponse gbn (encode_query header ls qtype qclass rest) ip =
    (let out = response_header header (is_found ip) @ encode_name ls @ writeShort qtype @ writeShort qclass
     in if is_found ip then map_option (\<lambda>addr. out @ answer_head @ addr) (gbn (the ip)) else Some out)"
proof -
  let ?n = "concat (map (\<lambda>l. of_nat (length l) # l) ls)" and ?q = "encode_query header ls qtype qclass rest"
  have q: "?q = header @ ?n @ 0 # writeShort qtype @ writeShort qclass @ rest"
    by (simp add: encode_query_def encode_name_def)
  have e: "qname_end ?q 12 = length (header @ ?n)"
    using qname_end_append [OF encode_name_zero_free [OF assms(2)], of header] assms(1) by (simp add: q)
  have h: "response_header ?q f = response_header header f" for f
    using assms(1) by (simp add: response_header_def q nth_append)
  have "take (length ?n + 1 + 4) (drop 12 ?q) = encode_name ls @ writeShort qtype @ writeShort qclass"
    using assms(1) by (simp add: q encode_name_def writeShort_def)
  with assms(1) show ?thesis
    by (simp add: buildResponse_def e h Let_def)
      (simp add: q writeShort_def map_option_case split: option.split)
qed

text \<open>How a client reads a message: a 16-bit field at an offset.\<close>

definition u16 :: "byte list \<Rightarrow> nat \<Rightarrow> nat" where
  "u16 bs i = 256 * unat (bs ! i) + unat (bs ! (i + 1))"

lemma writeShort_values:
  "unat (of_nat (0x8180 div 256) :: byte) = 0x81" "unat (of_nat 0x8180 :: byte) = 0x80"
  "unat (of_nat (0x8183 div 256) :: byte) = 0x81" "unat (of_nat 0x8183 :: byte) = 0x83"
  by (simp_all add: unat_of_nat)

lemma response_fields:
  assumes "length header = 12"
  shows "take 2 (response_header header f @ tail) = take 2 header"
    and "u16 (response_header header f @ tail) 2 = (if f then 0x8180 else 0x8183)"
    and "u16 (response_header header f @ tail) 4 = 1"
    and "u16 (response_header header f @ tail) 6 = (if f then 1 else 0)"
    and "length (response_header header f) = 12"
proof -
  obtain a b bs where h: "header = a # b # bs"
    using assms by (metis Suc_length_conv numeral_eq_Suc pred_numeral_simps(2) BitM.simps(2) pred_numeral_simps(3))
  show "take 2 (response_header header f @ tail) = take 2 header"
    by (simp add: response_header_def h)
  show "u16 (response_header header f @ tail) 2 = (if f then 0x8180 else 0x8183)"
    "u16 (response_header header f @ tail) 4 = 1"
    "u16 (response_header header f @ tail) 6 = (if f then 1 else 0)"
    "length (response_header header f) = 12"
    by (simp_all add: response_header_def u16_def writeShort_def writeShort_values)
qed

text \<open>
  C22: a resolved query is answered as the protocol demands. For a well-formed query and an address
  that stands for four bytes, the response carries the query's identifier, the flags of a
  successful response, one question and one answer; a parser reads the same name and type out of
  it; and behind the question stands an address record for that name, with the time to live of 60
  seconds and the four bytes, at the end of the message.
\<close>

theorem response_carries_address:
  assumes "length header = 12" and "ls \<noteq> []" and "\<forall>l \<in> set ls. valid_label l" and "ascii_compatible cs"
    and "qtype < 65536" and "\<not> isBlank ip" and "gbn ip = Some addr"
    and query: "query = encode_query header ls qtype qclass rest"
  shows "\<exists>r. buildResponse gbn query (Some ip) = Some r \<and> take 2 r = take 2 query
    \<and> u16 r 2 = 0x8180 \<and> u16 r 4 = 1 \<and> u16 r 6 = 1
    \<and> parseDomain cs r = parseDomain cs query \<and> parseQType r = parseQType query
    \<and> drop (12 + length (encode_name ls) + 4) r = [0xC0, 0x0C, 0, 1, 0, 1, 0, 0, 0, 60, 0, 4] @ addr"
proof -
  let ?h = "response_header header True"
  let ?q = "encode_name ls @ writeShort qtype @ writeShort qclass"
  let ?r = "?h @ ?q @ answer_head @ addr"
  have f: "is_found (Some ip)" using assms(6) by (simp add: is_found_def)
  have build: "buildResponse gbn query (Some ip) = Some ?r"
    using f assms(7) unfolding query by (simp add: buildResponse_encode [OF assms(1,3)] Let_def)
  note p = parseDomain_encode [OF _ assms(2-4)] parseQType_encode [OF _ assms(3,5)]
  note fields = response_fields [OF assms(1), of True]
  have "take 2 query = take 2 header" using assms(1) by (simp add: query encode_query_def)
  moreover have "parseDomain cs ?r = parseDomain cs query"
    using p(1) [of ?h "writeShort qtype @ writeShort qclass @ answer_head @ addr"] p(1) [of header] fields(5) assms(1)
    by (simp add: query encode_query_def)
  moreover have "parseQType ?r = parseQType query"
    using p(2) [of ?h "writeShort qclass @ answer_head @ addr"] p(2) [of header] fields(5) assms(1)
    by (simp add: query encode_query_def)
  moreover have "drop (12 + length (encode_name ls) + 4) ?r = answer_head @ addr"
    using fields(5) by (simp add: writeShort_def)
  moreover have "answer_head = [0xC0, 0x0C, 0, 1, 0, 1, 0, 0, 0, 60, 0, 4]"
    by (simp add: answer_head_def writeShort_def writeInt_def TTL_SECONDS_def)
  ultimately show ?thesis
    using build fields by (intro exI [of _ ?r]) (simp del: take_append)
qed

text \<open>
  A query without a result is answered with \<^verbatim>\<open>NXDOMAIN\<close>: for a well-formed query and no address
  (or a blank one) the response is the identifier, the flags with response code 3, one question
  and no answer, and the question section of the query, nothing else.
\<close>

theorem response_nxdomain:
  assumes "length header = 12" and "\<forall>l \<in> set ls. valid_label l" and "\<not> is_found ip"
  shows "\<exists>r. buildResponse gbn (encode_query header ls qtype qclass rest) ip = Some r
    \<and> take 2 r = take 2 header \<and> u16 r 2 = 0x8183 \<and> u16 r 4 = 1 \<and> u16 r 6 = 0
    \<and> drop 12 r = encode_name ls @ writeShort qtype @ writeShort qclass"
  using assms(3) response_fields [OF assms(1), of False]
  by (simp add: buildResponse_encode [OF assms(1,2)] Let_def)

definition example_labels :: "byte list list" where
  "example_labels = [[0x77, 0x77, 0x77], [0x41, 0x62]]"

definition example_header :: "byte list" where
  "example_header = [0x12, 0x34, 1, 0, 0, 1, 0, 0, 0, 0, 0, 0]"

lemma example_query_parts:
  "length example_header = 12" "example_labels \<noteq> []" "\<forall>l \<in> set example_labels. valid_label l"
  by (simp_all add: example_header_def example_labels_def valid_label_def)

theorem query_roundtrip_witness:
  "parseDomain latin1 (encode_query example_header example_labels 28 1 []) = Some ''www.ab''
   \<and> parseQType (encode_query example_header example_labels 28 1 []) = 28"
proof -
  have "toLowerCase (domain_text example_labels) = ''www.ab''" by code_simp
  then show ?thesis
    using query_roundtrip [OF example_query_parts latin1_compatible, of 28 1 "[]"] by simp
qed

theorem response_carries_address_witness:
  "\<exists>r. buildResponse (\<lambda>s. if s = ''10.0.0.7'' then Some [10, 0, 0, 7] else None)
      (encode_query example_header example_labels 1 1 [9, 9]) (Some ''10.0.0.7'') = Some r \<and> u16 r 6 = 1"
proof -
  have "\<not> isBlank ''10.0.0.7''" by code_simp
  then show ?thesis
    using response_carries_address [OF example_query_parts latin1_compatible, of 1 "''10.0.0.7''"
        "\<lambda>s. if s = ''10.0.0.7'' then Some [10, 0, 0, 7] else None" "[10, 0, 0, 7]" _ 1 "[9, 9]"] by auto
qed

theorem response_nxdomain_witness:
  "\<exists>r. buildResponse (\<lambda>s. None) (encode_query example_header example_labels 1 1 [9, 9]) None = Some r \<and> u16 r 2 = 0x8183"
  using response_nxdomain [OF example_query_parts(1,3), of None "\<lambda>s. None" 1 1 "[9, 9]"]
  by (auto simp: is_found_def)

end
