(* ===== verification/Rate_Limiter.thy ===== *)
theory Rate_Limiter
  imports Java_Base
begin

text \<open>
  The rate limiter of the Java control plane (\<^verbatim>\<open>RateLimiter.java\<close>): a sliding window of the
  times of the accepted queries per client. Times are \<^verbatim>\<open>Instant\<close>s, counted in nanoseconds; the
  clock reading of a call is an argument.
\<close>

type_synonym instant = int

record rate_limiter =
  maxQueries :: int
  windowSeconds :: int
  windowMap :: "string \<rightharpoonup> instant list"

definition window :: "rate_limiter \<Rightarrow> int" where
  "window r = 10 ^ 9 * windowSeconds r"

definition isRateLimited :: "instant \<Rightarrow> string \<Rightarrow> rate_limiter \<Rightarrow> bool \<times> rate_limiter" where
  "isRateLimited now clientIp r =
     (let timestamps = (case windowMap r clientIp of None \<Rightarrow> [] | Some ts \<Rightarrow> ts);
          cutoff = now - window r;
          timestamps = dropWhile (\<lambda>t. t < cutoff) timestamps
      in if int (length timestamps) \<ge> maxQueries r
         then (True, r\<lparr>windowMap := (windowMap r)(clientIp \<mapsto> timestamps)\<rparr>)
         else (False, r\<lparr>windowMap := (windowMap r)(clientIp \<mapsto> timestamps @ [now])\<rparr>))"

definition reset :: "rate_limiter \<Rightarrow> rate_limiter" where
  "reset r = r\<lparr>windowMap := Map.empty\<rparr>"

section \<open>Runs\<close>

text \<open>The limiter after a sequence of queries, and the queries that were let through.\<close>

type_synonym query = "instant \<times> string"

definition rl_run :: "query list \<Rightarrow> rate_limiter \<Rightarrow> rate_limiter" where
  "rl_run qs r = fold (\<lambda>(t, ip) r. snd (isRateLimited t ip r)) qs r"

fun accepted :: "query list \<Rightarrow> rate_limiter \<Rightarrow> query list" where
  "accepted [] r = []"
| "accepted ((t, ip) # qs) r =
     (if fst (isRateLimited t ip r) then [] else [(t, ip)]) @ accepted qs (snd (isRateLimited t ip r))"

text \<open>How many of a client's queries lie in a closed interval of time.\<close>

definition queries_in :: "string \<Rightarrow> instant \<Rightarrow> instant \<Rightarrow> query list \<Rightarrow> nat" where
  "queries_in ip a b qs = length (filter (\<lambda>(t, ip'). ip' = ip \<and> a \<le> t \<and> t \<le> b) qs)"

lemma rl_run_snoc: "rl_run (qs @ [(t, ip)]) r = snd (isRateLimited t ip (rl_run qs r))"
  by (simp add: rl_run_def)

lemma accepted_append: "accepted (qs @ qs') r = accepted qs r @ accepted qs' (rl_run qs r)"
  by (induction qs r rule: accepted.induct) (simp_all add: rl_run_def)

lemma accepted_set: "set (accepted qs r) \<subseteq> set qs"
  by (induction qs r rule: accepted.induct) auto

lemma rl_config [simp]:
  "maxQueries (snd (isRateLimited t ip r)) = maxQueries r"
  "windowSeconds (snd (isRateLimited t ip r)) = windowSeconds r"
  by (simp_all add: isRateLimited_def Let_def)

lemma rl_run_config [simp]:
  "maxQueries (rl_run qs r) = maxQueries r" "windowSeconds (rl_run qs r) = windowSeconds r"
  by (induction qs rule: rev_induct) (auto simp: rl_run_snoc, simp_all add: rl_run_def)

section \<open>The deque of a client is its recent accepted queries\<close>

definition times_of :: "string \<Rightarrow> query list \<Rightarrow> instant list" where
  "times_of ip qs = map fst (filter (\<lambda>(t, ip'). ip' = ip) qs)"

lemma times_of_append [simp]: "times_of ip (qs @ qs') = times_of ip qs @ times_of ip qs'"
  by (simp add: times_of_def)

lemma dropWhile_filter_sorted:
  fixes ts :: "int list"
  shows "sorted ts \<Longrightarrow> dropWhile (\<lambda>t. t < c) ts = filter (\<lambda>t. c \<le> t) ts"
  by (induction ts) (auto intro!: filter_True [symmetric])

text \<open>For each client, the deque holds its accepted times from some point in the past on.\<close>

definition tracks :: "query list \<Rightarrow> instant \<Rightarrow> rate_limiter \<Rightarrow> bool" where
  "tracks acc now r \<longleftrightarrow>
     (\<forall>ip. \<exists>c \<le> now - window r.
        (case windowMap r ip of None \<Rightarrow> [] | Some ts \<Rightarrow> ts) = filter (\<lambda>t. c \<le> t) (times_of ip acc))"

lemma tracks_later: "tracks acc now r \<Longrightarrow> now \<le> now' \<Longrightarrow> tracks acc now' r"
  unfolding tracks_def by (meson diff_right_mono order_trans)

lemma times_of_sorted: "sorted (map fst qs) \<Longrightarrow> sorted (times_of ip qs)"
  unfolding times_of_def by (rule sorted_filter)

lemma evicted:
  assumes "tracks acc now r" and "sorted (map fst acc)"
  shows "dropWhile (\<lambda>t. t < now - window r) (case windowMap r ip of None \<Rightarrow> [] | Some ts \<Rightarrow> ts) =
    filter (\<lambda>t. now - window r \<le> t) (times_of ip acc)"
proof -
  obtain c where c: "c \<le> now - window r"
    and d: "(case windowMap r ip of None \<Rightarrow> [] | Some ts \<Rightarrow> ts) = filter (\<lambda>t. c \<le> t) (times_of ip acc)"
    using assms(1) by (auto simp: tracks_def)
  have "sorted (filter (\<lambda>t. c \<le> t) (times_of ip acc))"
    using times_of_sorted [OF assms(2), of ip] sorted_filter [of "\<lambda>t. t"] by simp
  with c show ?thesis
    unfolding d by (subst dropWhile_filter_sorted) (auto intro!: filter_cong)
qed

lemma accepted_sorted: "sorted (map fst qs) \<Longrightarrow> sorted (map fst (accepted qs r))"
proof (induction qs r rule: accepted.induct)
  case (2 t ip qs r)
  then show ?case using accepted_set [of qs "snd (isRateLimited t ip r)"] by auto
qed simp

lemma isRateLimited_eq:
  assumes "tracks acc now r" and "sorted (map fst acc)"
  shows "isRateLimited now ip r =
    (let ts = filter (\<lambda>t. now - window r \<le> t) (times_of ip acc)
     in if int (length ts) \<ge> maxQueries r then (True, r\<lparr>windowMap := (windowMap r)(ip \<mapsto> ts)\<rparr>)
        else (False, r\<lparr>windowMap := (windowMap r)(ip \<mapsto> ts @ [now])\<rparr>))"
  by (simp add: isRateLimited_def evicted [OF assms] Let_def)

lemma tracks_step:
  assumes "tracks acc now r" and "sorted (map fst acc)" and "0 \<le> windowSeconds r"
  shows "tracks (acc @ (if fst (isRateLimited now ip r) then [] else [(now, ip)])) now (snd (isRateLimited now ip r))"
proof -
  have w: "0 \<le> window r" using assms(3) by (simp add: window_def)
  show ?thesis
    using assms(1) w unfolding tracks_def isRateLimited_eq [OF assms(1,2)]
    by (auto simp: Let_def window_def times_of_def)
qed

lemma rl_run_tracks:
  assumes "sorted (map fst (qs @ [(now, ip)]))" and "0 \<le> windowSeconds r" and "windowMap r = Map.empty"
  shows "tracks (accepted qs r) now (rl_run qs r)"
  using assms(1)
proof (induction qs arbitrary: now ip rule: rev_induct)
  case Nil
  then show ?case using assms(3) by (auto simp: tracks_def rl_run_def times_of_def)
next
  case (snoc q qs)
  obtain t ip' where q: "q = (t, ip')" by (cases q)
  then have s: "sorted (map fst (qs @ [(t, ip')]))" "t \<le> now" "sorted (map fst qs)"
    using snoc.prems by (auto simp: sorted_append)
  have "tracks (accepted (qs @ [q]) r) t (rl_run (qs @ [q]) r)"
    using tracks_step [OF snoc.IH [OF s(1)] accepted_sorted [OF s(3)]] assms(2)
    by (simp add: q accepted_append rl_run_snoc)
  then show ?case using s(2) by (rule tracks_later)
qed

lemma length_times_of: "length (filter P (times_of ip qs)) = length (filter (\<lambda>(t, ip'). ip' = ip \<and> P t) qs)"
  by (induction qs) (auto simp: times_of_def)

lemma length_filter_imp: "\<forall>x \<in> set xs. P x \<longrightarrow> Q x \<Longrightarrow> length (filter P xs) \<le> length (filter Q xs)"
  by (induction xs) auto

section \<open>Properties\<close>

lemma verdict:
  assumes "windowMap r = Map.empty" and "0 \<le> windowSeconds r"
    and "sorted (map fst (qs @ [(now, ip)]))"
  shows "fst (isRateLimited now ip (rl_run qs r)) \<longleftrightarrow>
    maxQueries r \<le> int (queries_in ip (now - window r) now (accepted qs r))"
proof -
  have s: "sorted (map fst qs)" using assms(3) by (simp add: sorted_append)
  have "window (rl_run qs r) = window r" by (simp add: window_def)
  moreover have "filter (\<lambda>(t, ip'). ip' = ip \<and> now - window r \<le> t \<and> t \<le> now) (accepted qs r)
      = filter (\<lambda>(t, ip'). ip' = ip \<and> now - window r \<le> t) (accepted qs r)"
    using assms(3) accepted_set [of qs r] by (fastforce simp: sorted_append intro!: filter_cong)
  ultimately show ?thesis
    using isRateLimited_eq [OF rl_run_tracks [OF assms(3,2,1)] accepted_sorted [OF s], of ip]
    by (simp add: Let_def length_times_of queries_in_def)
qed

text \<open>
  C19: the limiter drops exactly the queries it should. After a reset (a new limiter is one that
  was reset) and any queries with a clock that does not go backwards, a query of a client is
  dropped if and only if \<^verbatim>\<open>maxQueries\<close> queries of the same client were let through within the
  last \<^verbatim>\<open>windowSeconds\<close>; what came before the reset and other clients never matter.
\<close>

theorem limited_iff_window_full:
  assumes "0 \<le> windowSeconds r" and "sorted (map fst (qs @ [(now, ip)]))"
  shows "fst (isRateLimited now ip (rl_run qs (reset r))) \<longleftrightarrow>
    maxQueries r \<le> int (queries_in ip (now - window r) now (accepted qs (reset r)))"
  using verdict [of "reset r" qs now ip] assms by (simp add: reset_def window_def)

definition default_limiter :: rate_limiter where
  "default_limiter = \<lparr>maxQueries = 2, windowSeconds = 10, windowMap = Map.empty\<rparr>"

theorem limited_iff_window_full_witness:
  "fst (isRateLimited 9000000000 ''a'' (rl_run [(0, ''a''), (0, ''b''), (1, ''a'')] default_limiter))
   \<and> \<not> fst (isRateLimited 10000000001 ''a'' (rl_run [(0, ''a''), (0, ''b''), (1, ''a'')] default_limiter))"
proof -
  have r: "reset default_limiter = default_limiter" by (simp add: reset_def default_limiter_def)
  have "accepted [(0, ''a''), (0, ''b''), (1, ''a'')] default_limiter = [(0, ''a''), (0, ''b''), (1, ''a'')]"
    by (simp add: default_limiter_def isRateLimited_def window_def Let_def)
  then show ?thesis
    using limited_iff_window_full [of default_limiter "[(0, ''a''), (0, ''b''), (1, ''a'')]" 9000000000 "''a''"]
      limited_iff_window_full [of default_limiter "[(0, ''a''), (0, ''b''), (1, ''a'')]" 10000000001 "''a''"]
    unfolding r by (simp add: queries_in_def default_limiter_def window_def)
qed

lemma rate_bound:
  assumes "windowMap r = Map.empty" and "0 \<le> windowSeconds r" and "0 \<le> maxQueries r"
    and "sorted (map fst qs)"
  shows "int (queries_in ip a (a + window r) (accepted qs r)) \<le> maxQueries r"
  using assms(4)
proof (induction qs rule: rev_induct)
  case Nil
  then show ?case using assms(3) by (simp add: queries_in_def)
next
  case (snoc q qs)
  obtain t ip' where q: "q = (t, ip')" by (cases q)
  have s: "sorted (map fst qs)" using snoc.prems by (simp add: sorted_append)
  have v: "fst (isRateLimited t ip' (rl_run qs r)) \<longleftrightarrow>
      maxQueries r \<le> int (queries_in ip' (t - window r) t (accepted qs r))"
    using snoc.prems q by (intro verdict assms) simp
  have le: "queries_in ip a (a + window r) (accepted qs r) \<le> queries_in ip (t - window r) t (accepted qs r)"
    if "t \<le> a + window r"
  proof -
    have "\<forall>x \<in> set (accepted qs r). fst x \<le> t"
      using snoc.prems q accepted_set [of qs r] by (auto simp: sorted_append)
    with that show ?thesis unfolding queries_in_def
      by (intro length_filter_imp) auto
  qed
  have step: "queries_in ip a (a + window r) (accepted (qs @ [q]) r) =
      queries_in ip a (a + window r) (accepted qs r) +
      (if \<not> fst (isRateLimited t ip' (rl_run qs r)) \<and> ip' = ip \<and> a \<le> t \<and> t \<le> a + window r then 1 else 0)"
    by (simp add: q accepted_append queries_in_def)
  show ?case using snoc.IH [OF s] step v le by (cases "ip' = ip") (auto split: if_splits)
qed

text \<open>
  The limit holds in every window. Over any queries with a clock that does not go backwards,
  no interval of \<^verbatim>\<open>windowSeconds\<close>, wherever it begins, contains more than \<^verbatim>\<open>maxQueries\<close> queries of
  one client that were let through.
\<close>

theorem accepted_rate_bounded:
  assumes "windowMap r = Map.empty" and "0 \<le> windowSeconds r" and "0 \<le> maxQueries r"
    and "sorted (map fst qs)"
  shows "int (queries_in ip a (a + window r) (accepted qs r)) \<le> maxQueries r"
  using assms by (rule rate_bound)

theorem accepted_rate_bounded_witness:
  "int (queries_in ''a'' 0 10000000000
     (accepted [(0, ''a''), (1, ''a''), (2, ''a''), (10000000001, ''a'')] default_limiter)) \<le> 2"
  using accepted_rate_bounded [of default_limiter "[(0, ''a''), (1, ''a''), (2, ''a''), (10000000001, ''a'')]" "''a''" 0]
  by (simp add: default_limiter_def window_def)

end
