(* ===== verification/Acl.thy ===== *)
theory Acl
  imports Java_Base
begin

text \<open>
  The access list of the Java control plane (\<^verbatim>\<open>AclManager.java\<close>), which decides whether a client
  belongs to the internal network and gets the private address.
\<close>

record acl_manager =
  subnetPrefix :: string
  octet3Min :: int
  octet3Max :: int

text \<open>The values used where the configuration sets none.\<close>

definition acl_default :: acl_manager where
  "acl_default = \<lparr>subnetPrefix = ''192.168'', octet3Min = 10, octet3Max = 13\<rparr>"

definition isInternalRequest :: "acl_manager \<Rightarrow> string option \<Rightarrow> bool" where
  "isInternalRequest m ip =
     (case ip of
        None \<Rightarrow> False
      | Some clientIp \<Rightarrow>
          if isBlank clientIp then False
          else (case java_split (CHR ''.'') clientIp of
                  [p0, p1, p2, p3] \<Rightarrow>
                    if p0 @ ''.'' @ p1 \<noteq> subnetPrefix m then False
                    else (case parseInt p2 of
                            None \<Rightarrow> False
                          | Some thirdOctet \<Rightarrow> octet3Min m \<le> thirdOctet \<and> thirdOctet \<le> octet3Max m)
                | _ \<Rightarrow> False))"

lemma str_nat_inj: "str_nat a = str_nat b \<longleftrightarrow> a = b"
  by (metis digits_value_str_nat option.inject)

lemma dotted_parts: "java_split (CHR ''.'') (dotted a b c d) = [str_nat a, str_nat b, str_nat c, str_nat d]"
proof -
  have "CHR ''.'' \<notin> set (str_nat n)" for n
    using str_nat_digits [of "CHR ''.''" n] by (auto simp: is_digit_def)
  then have "split_on (CHR ''.'') (dotted a b c d) = [str_nat a, str_nat b, str_nat c, str_nat d]"
    unfolding dotted_def by (intro split_join) simp_all
  then show ?thesis by (simp add: java_split_def dotted_def)
qed

lemma dotted_not_blank: "\<not> isBlank (dotted a b c d)"
proof -
  obtain x xs where s: "str_nat a = x # xs" by (cases "str_nat a") simp_all
  then have "\<not> isWhitespace x" using str_nat_digits [of x a] by (simp add: digit_not_blank)
  with s show ?thesis by (simp add: isBlank_def dotted_def)
qed

lemma internal_dotted:
  assumes "c < 256"
  shows "isInternalRequest m (Some (dotted a b c d)) \<longleftrightarrow>
    str_nat a @ ''.'' @ str_nat b = subnetPrefix m \<and> octet3Min m \<le> int c \<and> int c \<le> octet3Max m"
  using assms by (simp add: isInternalRequest_def dotted_not_blank dotted_parts parseInt_str_nat)

lemma prefix_192_168: "str_nat a @ ''.'' @ str_nat b = ''192.168'' \<longleftrightarrow> a = 192 \<and> b = 168"
proof
  have n: "''192'' = str_nat 192" "''168'' = str_nat 168" by code_simp+
  have dot: "CHR ''.'' \<notin> set (str_nat k)" for k
    using str_nat_digits [of "CHR ''.''" k] by (auto simp: is_digit_def)
  assume "str_nat a @ ''.'' @ str_nat b = ''192.168''"
  then have "str_nat a @ CHR ''.'' # str_nat b = ''192'' @ CHR ''.'' # ''168''" by simp
  from arg_cong [OF this, of "split_on (CHR ''.'')"] dot
  have "[str_nat a, str_nat b] = [''192'', ''168'']"
    by (simp add: split_on_append split_on_single)
  then show "a = 192 \<and> b = 168" unfolding n by (simp add: str_nat_inj)
next
  have "str_nat 192 @ ''.'' @ str_nat 168 = ''192.168''" by code_simp
  moreover assume "a = 192 \<and> b = 168"
  ultimately show "str_nat a @ ''.'' @ str_nat b = ''192.168''" by simp
qed

text \<open>
  C24: the default access list is the address range 192.168.10.0 to 192.168.13.255. A client with a
  valid IPv4 address is internal exactly when its address, read as a number, lies in that range.
  (The unit test \<^verbatim>\<open>AclManagerTest.java\<close> expects 192.167.10.0, 192.167.12.0 and 192.167.13.0 to be internal;
  by this theorem they are not.)
\<close>

theorem internal_iff_in_range:
  assumes "IPv4Address s = Some (IPv4 n)"
  shows "isInternalRequest acl_default (Some s) \<longleftrightarrow>
    ((192 * 256 + 168) * 256 + 10) * 256 \<le> n \<and> n \<le> ((192 * 256 + 168) * 256 + 13) * 256 + 255"
proof -
  obtain a b c d where o: "a < 256" "b < 256" "c < 256" "d < 256" "s = dotted a b c d"
    and n: "n = ((a * 256 + b) * 256 + c) * 256 + d"
    using assms by (rule IPv4Address_Some) simp
  have "isInternalRequest acl_default (Some s) \<longleftrightarrow> a = 192 \<and> b = 168 \<and> 10 \<le> c \<and> c \<le> 13"
    using o(3) prefix_192_168 [of a b] by (simp add: o(5) internal_dotted acl_default_def)
  also have "\<dots> \<longleftrightarrow> ((192 * 256 + 168) * 256 + 10) * 256 \<le> n \<and> n \<le> ((192 * 256 + 168) * 256 + 13) * 256 + 255"
  proof
    assume r: "((192 * 256 + 168) * 256 + 10) * 256 \<le> n \<and> n \<le> ((192 * 256 + 168) * 256 + 13) * 256 + 255"
    note r' = r [THEN conjunct1, unfolded n] r [THEN conjunct2, unfolded n]
    have "192 \<le> a" "a \<le> 192" using r' o(1-4) by simp_all
    then have "a = 192" by simp
    moreover from this have "168 \<le> b" "b \<le> 168" using r' o(1-4) by simp_all
    then have "b = 168" by simp
    ultimately show "a = 192 \<and> b = 168 \<and> 10 \<le> c \<and> c \<le> 13" using r' o(1-4) by simp
  qed (use o(4) n in simp)
  finally show ?thesis .
qed

theorem internal_iff_in_range_witness:
  "isInternalRequest acl_default (Some ''192.168.12.7'') \<and> \<not> isInternalRequest acl_default (Some ''192.168.14.7'')
   \<and> \<not> isInternalRequest acl_default (Some ''192.167.12.0'')"
proof -
  have d: "dotted 192 168 12 7 = ''192.168.12.7''" "dotted 192 168 14 7 = ''192.168.14.7''"
    "dotted 192 167 12 0 = ''192.167.12.0''" by code_simp+
  show ?thesis
    using internal_iff_in_range [OF IPv4Address_dotted [of 192 168 12 7]]
      internal_iff_in_range [OF IPv4Address_dotted [of 192 168 14 7]]
      internal_iff_in_range [OF IPv4Address_dotted [of 192 167 12 0]] unfolding d by simp
qed

end
