(* ===== verification/Cache_Client.thy ===== *)
theory Cache_Client
  imports Java_Base
begin

text \<open>
  The Java control plane's client of the caches and of the data plane (\<^verbatim>\<open>CacheClient.java\<close>), and
  the configuration it works with (\<^verbatim>\<open>ZoneFileLoader.java\<close>, \<^verbatim>\<open>ZoneConfig.java\<close>). One exchange over a
  fresh connection (connect, send a line, read the first line of the reply) is an argument that
  acts on the state \<open>'w\<close> of everything at the other end; so is the pause between two attempts,
  during which others act. The locale \<open>coherent_services\<close> says what the client relies on, and what
  it then returns is proved there.
\<close>

unbundle bit_operations_syntax

section \<open>Configuration\<close>

record zone_config =
  zc_leaderIp :: string
  l1Servers :: "string list"
  l2Servers :: "string list"

text \<open>
  The bean \<^verbatim>\<open>zoneConfig\<close>: the file may be missing, and reading it as JSON (a library) gives a
  configuration or an exception, \<^const>\<open>None\<close>, which aborts the start. A list missing in the file
  is a list without servers to the code that uses it.
\<close>

definition load_zone :: "bool \<Rightarrow> zone_config option \<Rightarrow> zone_config option" where
  "load_zone exists readValue =
     map_option (\<lambda>config. config\<lparr>zc_leaderIp := ''127.0.0.1''\<rparr>)
       (if \<not> exists
        then Some \<lparr>zc_leaderIp = ''127.0.0.1'', l1Servers = [''127.0.0.1''], l2Servers = [''127.0.0.1'']\<rparr>
        else readValue)"

record cache_client =
  zone :: zone_config
  l1Port :: int
  l2Port :: int
  dataplanePort :: int

section \<open>Choice of a server\<close>

definition FNV_OFFSET :: "64 word" where
  "FNV_OFFSET = 0xcbf29ce484222325"

definition FNV_PRIME :: "64 word" where
  "FNV_PRIME = 0x100000001b3"

definition fnv_hash :: "string \<Rightarrow> 64 word" where
  "fnv_hash key = fold (\<lambda>c hash. (hash XOR of_nat (of_char c)) * FNV_PRIME) key FNV_OFFSET"

text \<open>The hash is a signed number in Java, and \<^verbatim>\<open>floorMod\<close> by a positive number is \<open>mod\<close>.\<close>

definition selectServer :: "cache_client \<Rightarrow> string list \<Rightarrow> string \<Rightarrow> string" where
  "selectServer cc servers key =
     (if servers = [] then zc_leaderIp (zone cc)
      else servers ! nat (sint (fnv_hash key) mod int (length servers)))"

section \<open>Exchanges\<close>

type_synonym 'w exchange = "string \<Rightarrow> int \<Rightarrow> string \<Rightarrow> 'w \<Rightarrow> string option \<times> 'w"

definition LEASE_MAX_RETRIES :: nat where
  "LEASE_MAX_RETRIES = 30"

definition send :: "'w exchange \<Rightarrow> 'w exchange" where
  "send exch ip port message w = (if isBlank ip then (None, w) else exch ip port message w)"

definition isHit :: "string option \<Rightarrow> bool" where
  "isHit r \<longleftrightarrow> (case r of None \<Rightarrow> False | Some s \<Rightarrow> \<not> isBlank s \<and> s \<noteq> ''N/A'' \<and> \<not> startswith s ''LEASE;'')"

text \<open>What \<^verbatim>\<open>fetchFromDataPlane\<close> makes of a reply.\<close>

definition dp_value :: "string option \<Rightarrow> string" where
  "dp_value response = (case response of None \<Rightarrow> [] | Some r \<Rightarrow> if isBlank r \<or> r = ''N/A'' then [] else r)"

definition fetchFromDataPlane :: "cache_client \<Rightarrow> 'w exchange \<Rightarrow> string \<Rightarrow> 'w \<Rightarrow> string \<times> 'w" where
  "fetchFromDataPlane cc exch domain w =
     (let (response, w') = send exch (zc_leaderIp (zone cc)) (dataplanePort cc) domain w
      in (dp_value response, w'))"

definition get_msg :: "string \<Rightarrow> string" where
  "get_msg domain = ''GET;'' @ domain"

definition set_msg :: "string \<Rightarrow> string \<Rightarrow> string" where
  "set_msg domain value = ''SET;'' @ domain @ '';'' @ value"

text \<open>The lines that fetch a value and store it in both caches.\<close>

definition fetch_and_store :: "cache_client \<Rightarrow> 'w exchange \<Rightarrow> string \<Rightarrow> string \<Rightarrow> string \<Rightarrow> 'w \<Rightarrow> string \<times> 'w" where
  "fetch_and_store cc exch l2Ip l1Ip domain w =
     (let (value, w1) = fetchFromDataPlane cc exch domain w
      in if \<not> isBlank value
         then let (_, w2) = send exch l2Ip (l2Port cc) (set_msg domain value) w1;
                  (_, w3) = send exch l1Ip (l1Port cc) (set_msg domain value) w2
           in (value, w3)
         else (value, w1))"

fun waitForLease ::
    "cache_client \<Rightarrow> 'w exchange \<Rightarrow> ('w \<Rightarrow> bool \<times> 'w) \<Rightarrow> nat \<Rightarrow> string \<Rightarrow> string \<Rightarrow> string \<Rightarrow> 'w \<Rightarrow> string \<times> 'w"
where
  "waitForLease cc exch pause 0 l2Ip l1Ip domain w = fetchFromDataPlane cc exch domain w"
| "waitForLease cc exch pause (Suc retries) l2Ip l1Ip domain w =
     (let (interrupted, w1) = pause w
      in if interrupted then fetchFromDataPlane cc exch domain w1
         else let (r, w2) = send exch l2Ip (l2Port cc) (get_msg domain) w1
           in if isHit r
              then let (_, w3) = send exch l1Ip (l1Port cc) (set_msg domain (the r)) w2 in (the r, w3)
              else (case r of
                      None \<Rightarrow> fetchFromDataPlane cc exch domain w2
                    | Some s \<Rightarrow>
                        if \<not> startswith s ''LEASE;'' then fetchFromDataPlane cc exch domain w2
                        else if startswith s ''LEASE;GRANTED'' then fetch_and_store cc exch l2Ip l1Ip domain w2
                        else waitForLease cc exch pause retries l2Ip l1Ip domain w2))"

definition cache_resolve :: "cache_client \<Rightarrow> 'w exchange \<Rightarrow> ('w \<Rightarrow> bool \<times> 'w) \<Rightarrow> string \<Rightarrow> 'w \<Rightarrow> string \<times> 'w" where
  "cache_resolve cc exch pause domain w =
     (let l1Ip = selectServer cc (l1Servers (zone cc)) domain;
          (r1, w1) = send exch l1Ip (l1Port cc) (get_msg domain) w
      in if isHit r1 then (the r1, w1)
         else let l2Ip = selectServer cc (l2Servers (zone cc)) domain;
                  (r2, w2) = send exch l2Ip (l2Port cc) (get_msg domain) w1
           in if isHit r2
              then let (_, w3) = send exch l1Ip (l1Port cc) (set_msg domain (the r2)) w2 in (the r2, w3)
              else if r2 = Some ''LEASE;GRANTED'' then fetch_and_store cc exch l2Ip l1Ip domain w2
              else if (case r2 of None \<Rightarrow> False | Some s \<Rightarrow> startswith s ''LEASE;'')
              then waitForLease cc exch pause LEASE_MAX_RETRIES l2Ip l1Ip domain w2
              else fetch_and_store cc exch l2Ip l1Ip domain w2)"

section \<open>The contract of the services, and what the client returns\<close>

text \<open>
  Coherent services: whatever happens, a cache that answers a \<open>GET\<close> of a name with a value answers
  with the data plane's value, as long as only such values are stored.
\<close>

locale coherent_services =
  fixes cc :: cache_client
    and exch :: "'w exchange"
    and pause :: "'w \<Rightarrow> bool \<times> 'w"
    and coh :: "'w \<Rightarrow> bool"
    and carried :: "string \<Rightarrow> bool"
    and value_of :: "string \<Rightarrow> string"
  assumes get_l1: "coh w \<Longrightarrow> carried d \<Longrightarrow> exch ip (l1Port cc) (get_msg d) w = (r, w') \<Longrightarrow>
        coh w' \<and> (isHit r \<longrightarrow> r = Some (value_of d))"
    and get_l2: "coh w \<Longrightarrow> carried d \<Longrightarrow> exch ip (l2Port cc) (get_msg d) w = (r, w') \<Longrightarrow>
        coh w' \<and> (isHit r \<longrightarrow> r = Some (value_of d))"
    and set_l1: "coh w \<Longrightarrow> carried d \<Longrightarrow> value_of d \<noteq> [] \<Longrightarrow>
        exch ip (l1Port cc) (set_msg d (value_of d)) w = (r, w') \<Longrightarrow> coh w'"
    and set_l2: "coh w \<Longrightarrow> carried d \<Longrightarrow> value_of d \<noteq> [] \<Longrightarrow>
        exch ip (l2Port cc) (set_msg d (value_of d)) w = (r, w') \<Longrightarrow> coh w'"
    and fetch: "coh w \<Longrightarrow> carried d \<Longrightarrow> send exch (zc_leaderIp (zone cc)) (dataplanePort cc) d w = (r, w') \<Longrightarrow>
        coh w' \<and> dp_value r = value_of d"
    and pause_coh: "coh w \<Longrightarrow> pause w = (b, w') \<Longrightarrow> coh w'"
begin

lemma send_get:
  assumes "coh w" "carried d" "send exch ip port (get_msg d) w = (r, w')" "port = l1Port cc \<or> port = l2Port cc"
  shows "coh w' \<and> (isHit r \<longrightarrow> r = Some (value_of d))"
  using assms get_l1 [of w d ip r w'] get_l2 [of w d ip r w']
  by (auto simp: send_def isHit_def split: if_splits)

lemma send_set:
  assumes "coh w" "carried d" "value_of d \<noteq> []" "send exch ip port (set_msg d (value_of d)) w = (r, w')"
    "port = l1Port cc \<or> port = l2Port cc"
  shows "coh w'"
  using assms set_l1 [of w d ip r w'] set_l2 [of w d ip r w'] by (auto simp: send_def split: if_splits)

lemma fetched: "coh w \<Longrightarrow> carried d \<Longrightarrow> fetchFromDataPlane cc exch d w = (v, w') \<Longrightarrow> v = value_of d \<and> coh w'"
  using fetch by (auto simp: fetchFromDataPlane_def split: prod.splits)

lemma hit_value: "isHit (Some (value_of d)) \<Longrightarrow> value_of d \<noteq> []"
  by (auto simp: isHit_def)

lemma stored:
  assumes "coh w" "carried d" "fetch_and_store cc exch l2Ip l1Ip d w = (v, w')"
  shows "v = value_of d \<and> coh w'"
proof -
  obtain v1 w1 where f: "fetchFromDataPlane cc exch d w = (v1, w1)" by fastforce
  note f' = fetched [OF assms(1,2) f]
  show ?thesis
  proof (cases "isBlank v1")
    case True
    then show ?thesis using f f' assms(3) by (simp add: fetch_and_store_def)
  next
    case False
    then have ne: "value_of d \<noteq> []" using f' by auto
    obtain r2 w2 where s2: "send exch l2Ip (l2Port cc) (set_msg d v1) w1 = (r2, w2)" by fastforce
    obtain r3 w3 where s3: "send exch l1Ip (l1Port cc) (set_msg d v1) w2 = (r3, w3)" by fastforce
    have "coh w2" using send_set [OF _ assms(2) ne, of w1 l2Ip "l2Port cc" r2 w2] f' s2 by simp
    then have "coh w3" using send_set [OF _ assms(2) ne, of w2 l1Ip "l1Port cc" r3 w3] f' s3 by simp
    with False f f' s2 s3 assms(3) show ?thesis by (simp add: fetch_and_store_def)
  qed
qed

lemma hit_stored:
  assumes "coh w" "carried d" "send exch ip port (get_msg d) w = (r, w1)" "isHit r"
    "send exch l1Ip (l1Port cc) (set_msg d (the r)) w1 = (r2, w2)" "port = l1Port cc \<or> port = l2Port cc"
  shows "the r = value_of d \<and> coh w2"
proof -
  have g: "coh w1" "r = Some (value_of d)" using send_get [OF assms(1-3,6)] assms(4) by auto
  then have "value_of d \<noteq> []" using assms(4) hit_value by simp
  with g show ?thesis using send_set [OF g(1) assms(2) _ _ disjI1 [OF refl], of l1Ip r2 w2] assms(5) by simp
qed

lemma waited:
  assumes "coh w" "carried d" "waitForLease cc exch pause n l2Ip l1Ip d w = (v, w')"
  shows "v = value_of d \<and> coh w'"
  using assms
proof (induction n arbitrary: w)
  case 0
  then show ?case using fetched by simp
next
  case (Suc n)
  obtain b w1 where p: "pause w = (b, w1)" by fastforce
  have c1: "coh w1" using pause_coh [OF Suc.prems(1) p] .
  obtain r w2 where g: "send exch l2Ip (l2Port cc) (get_msg d) w1 = (r, w2)" by fastforce
  have c2: "coh w2" using send_get [OF c1 Suc.prems(2) g] by simp
  obtain r3 w3 where s: "send exch l1Ip (l1Port cc) (set_msg d (the r)) w2 = (r3, w3)" by fastforce
  consider "b" | "\<not> b" "isHit r" | "\<not> b" "\<not> isHit r" by blast
  then show ?case
  proof cases
    case 1
    then show ?thesis using Suc.prems p fetched [OF c1] by simp
  next
    case 2
    then show ?thesis using Suc.prems p g s hit_stored [OF c1 Suc.prems(2) g _ s] by simp
  next
    case 3
    then show ?thesis
      using Suc.prems Suc.IH [OF c2 Suc.prems(2)] p g fetched [OF c2] stored [OF c2]
      by (auto split: option.splits if_splits)
  qed
qed

lemma resolved:
  assumes "coh w" "carried d" "cache_resolve cc exch pause d w = (v, w')"
  shows "v = value_of d \<and> coh w'"
proof -
  let ?l1 = "selectServer cc (l1Servers (zone cc)) d" and ?l2 = "selectServer cc (l2Servers (zone cc)) d"
  obtain r1 w1 where g1: "send exch ?l1 (l1Port cc) (get_msg d) w = (r1, w1)" by fastforce
  have c1: "coh w1" "isHit r1 \<longrightarrow> r1 = Some (value_of d)" using send_get [OF assms(1,2) g1] by simp_all
  obtain r2 w2 where g2: "send exch ?l2 (l2Port cc) (get_msg d) w1 = (r2, w2)" by fastforce
  have c2: "coh w2" using send_get [OF c1(1) assms(2) g2] by simp
  obtain r3 w3 where s: "send exch ?l1 (l1Port cc) (set_msg d (the r2)) w2 = (r3, w3)" by fastforce
  consider "isHit r1" | "\<not> isHit r1" "isHit r2" | "\<not> isHit r1" "\<not> isHit r2" by blast
  then show ?thesis
  proof cases
    case 1
    then show ?thesis using assms(3) g1 c1 by (auto simp: cache_resolve_def Let_def)
  next
    case 2
    then show ?thesis
      using assms(3) g1 g2 s hit_stored [OF c1(1) assms(2) g2 _ s] by (simp add: cache_resolve_def Let_def)
  next
    case 3
    then have "fetch_and_store cc exch ?l2 ?l1 d w2 = (v, w') \<or>
        waitForLease cc exch pause LEASE_MAX_RETRIES ?l2 ?l1 d w2 = (v, w')"
      using assms(3) g1 g2 by (auto simp: cache_resolve_def Let_def split: if_splits option.splits)
    then show ?thesis using stored [OF c2 assms(2)] waited [OF c2 assms(2)] by blast
  qed
qed

end

section \<open>The hash\<close>

text \<open>One step of the hash on numbers.\<close>

lemma fnv_step: "uint ((h XOR of_nat (of_char c)) * FNV_PRIME) = (uint h XOR of_char c) * 1099511628211 mod 2 ^ 64"
proof -
  have "of_char c < (2 ^ 64 :: nat)" by (rule less_trans [OF nat_of_char_less_256]) simp
  then have "of_char c mod 2 ^ 64 = (of_char c :: nat)" by (rule mod_less)
  then have "uint (of_nat (of_char c) :: 64 word) = int (of_char c)" by (simp add: uint_nat unat_of_nat)
  then have "uint (of_nat (of_char c) :: 64 word) = of_char c" by (simp only: of_nat_of_char)
  then show ?thesis by (simp add: uint_word_ariths(3) unsigned_xor_eq FNV_PRIME_def)
qed

text \<open>
  Requests are spread within the configured servers. With servers configured, the one chosen
  for a name is one of them (the 64-bit hash wraps around and is read as a signed number, and the
  index is still in range); and the hash is the 64-bit FNV-1a hash of the characters as a reference
  computes it on unbounded numbers.
\<close>

theorem select_in_range:
  assumes "servers \<noteq> []"
  shows "selectServer cc servers key \<in> set servers
   \<and> uint (fnv_hash key) = foldl (\<lambda>h c. (h XOR of_char c) * 1099511628211 mod 2 ^ 64) 14695981039346656037 key"
proof
  have "0 \<le> sint (fnv_hash key) mod int (length servers)"
    "sint (fnv_hash key) mod int (length servers) < int (length servers)"
    using assms by simp_all
  then show "selectServer cc servers key \<in> set servers" using assms by (simp add: selectServer_def nat_less_iff)
  have "uint (fold (\<lambda>c hash. (hash XOR of_nat (of_char c)) * FNV_PRIME) ks h) =
      foldl (\<lambda>h c. (h XOR of_char c) * 1099511628211 mod 2 ^ 64) (uint h) ks" for ks and h :: "64 word"
  proof (induction ks arbitrary: h)
    case (Cons c ks)
    show ?case unfolding fold_simps foldl_Cons fnv_step [symmetric] Cons.IH [symmetric] by simp
  qed simp
  from this [of key FNV_OFFSET]
  show "uint (fnv_hash key) = foldl (\<lambda>h c. (h XOR of_char c) * 1099511628211 mod 2 ^ 64) 14695981039346656037 key"
    by (simp add: fnv_hash_def FNV_OFFSET_def)
qed

theorem select_in_range_witness:
  "selectServer \<lparr>zone = \<lparr>zc_leaderIp = [], l1Servers = [], l2Servers = []\<rparr>, l1Port = 8100, l2Port = 8200, dataplanePort = 8000\<rparr>
     [''a'', ''b'', ''c''] ''q.com'' \<in> {''a'', ''b'', ''c''}
   \<and> fnv_hash ''a'' = 0xaf63dc4c8601ec8c"
proof -
  have "fnv_hash ''a'' = 0xaf63dc4c8601ec8c" by code_simp
  then show ?thesis using select_in_range [of "[''a'', ''b'', ''c'']"] by simp
qed

end
