(* ===== verification/Front_Network.thy ===== *)
theory Front_Network
  imports Cache_Client L1_Cache L2_Cache Server
begin

text \<open>
  The services the Java client talks to are the programs of this repository: L1 and L2 cache
  servers by address, and the read port of a data-plane node. Between two actions of the client
  other clients send lines to the caches, cache servers are stopped and started again with nothing
  cached or leased, and time passes; what happens is a list in the state. The
  interpretation \<open>front\<close> shows that these services satisfy the contract \<open>coherent_services\<close>.
\<close>

section \<open>The servers and what happens around them\<close>

datatype other =
  L1Line string string
| L2Line string string
| Clock time
| L1Stop string
| L1Start string
| L2Stop string
| L2Start string

record world =
  l1_at :: "string \<rightharpoonup> l1_lru"
  l2_at :: "string \<rightharpoonup> l2_server"
  clock :: time
  agenda :: "other list list"

fun run_other :: "other \<Rightarrow> world \<Rightarrow> world" where
  "run_other (L1Line ip line) w =
     (case l1_at w ip of None \<Rightarrow> w
      | Some c \<Rightarrow> w\<lparr>l1_at := (l1_at w)(ip \<mapsto> snd (l1_process_command line c))\<rparr>)"
| "run_other (L2Line ip line) w =
     (case l2_at w ip of None \<Rightarrow> w
      | Some s \<Rightarrow> w\<lparr>l2_at := (l2_at w)(ip \<mapsto> snd (l2_process_command (clock w) line s))\<rparr>)"
| "run_other (Clock t) w = w\<lparr>clock := t\<rparr>"
| "run_other (L1Stop ip) w = w\<lparr>l1_at := (l1_at w)(ip := None)\<rparr>"
| "run_other (L1Start ip) w = (if l1_at w ip = None then w\<lparr>l1_at := (l1_at w)(ip \<mapsto> L1_CACHE)\<rparr> else w)"
| "run_other (L2Stop ip) w = w\<lparr>l2_at := (l2_at w)(ip := None)\<rparr>"
| "run_other (L2Start ip) w = (if l2_at w ip = None then w\<lparr>l2_at := (l2_at w)(ip \<mapsto> L2_START)\<rparr> else w)"

definition run_others :: "world \<Rightarrow> world" where
  "run_others w = (case agenda w of [] \<Rightarrow> w | es # rest \<Rightarrow> fold run_other es (w\<lparr>agenda := rest\<rparr>))"

text \<open>
  An exchange: \<^verbatim>\<open>println\<close> ends the message with a line feed, the server reads it line by line, and
  the client takes the first line of what comes back.
\<close>

definition message_events :: "string \<Rightarrow> conn_event list" where
  "message_events msg = map (\<lambda>l. Recv l True) (keep_lines (msg @ [NL]))"

definition first_reply :: "string list \<Rightarrow> string option" where
  "first_reply rs = (case rs of [] \<Rightarrow> None | r # _ \<Rightarrow> Some (takeWhile (\<lambda>c. c \<noteq> NL \<and> c \<noteq> CR) r))"

definition exchange :: "cache_client \<Rightarrow> (string \<Rightarrow> string option) \<Rightarrow> world exchange" where
  "exchange cc dp ip port msg w0 =
     (let w = run_others w0; es = message_events msg
      in if port = l1Port cc then
           (case l1_at w ip of None \<Rightarrow> (None, w)
            | Some c \<Rightarrow> let (rs, c') = l1_handle_client es c in (first_reply rs, w\<lparr>l1_at := (l1_at w)(ip \<mapsto> c')\<rparr>))
         else if port = l2Port cc then
           (case l2_at w ip of None \<Rightarrow> (None, w)
            | Some s \<Rightarrow> let (rs, s') = l2_handle_client (map (\<lambda>e. (clock w, e)) es) s
                in (first_reply rs, w\<lparr>l2_at := (l2_at w)(ip \<mapsto> s')\<rparr>))
         else if port = dataplanePort cc \<and> ip = zc_leaderIp (zone cc) then (dp msg, w)
         else (None, w))"

text \<open>The read port of a node, asked for one message; \<open>r\<close> is what the node reaches in turn.\<close>

definition ask_node :: "remote \<Rightarrow> node \<Rightarrow> string \<Rightarrow> string option" where
  "ask_node r n msg = first_reply (fst (handle_read (map (\<lambda>e. (r, e)) (message_events msg)) n))"

definition nap :: "(world \<Rightarrow> bool) \<Rightarrow> world \<Rightarrow> bool \<times> world" where
  "nap interrupted w = (interrupted w, run_others w)"

section \<open>Entries of a cache come from sets\<close>

lemma set_touch: "set (touch k v d) \<subseteq> insert (k, v) (set d)"
  by (auto simp: touch_def AList.delete_eq)

text \<open>A cache answers a read of a missing key with no value.\<close>

definition miss_replies :: "string set" where
  "miss_replies = {''N/A'', ''LEASE;GRANTED'', ''LEASE;WAITING''}"

lemma miss_not_hit: "r \<in> miss_replies \<Longrightarrow> \<not> isHit (first_reply [r @ [NL]])"
  by (auto simp: miss_replies_def isHit_def first_reply_def startswith_def)


locale answering_cache = cache_server cget cput citems ccap cwf exec store
  for cget :: "('c, string, string) getter" and cput :: "('c, string, string) putter"
    and citems ccap cwf and exec :: "time \<Rightarrow> string \<Rightarrow> 's \<Rightarrow> string \<times> 's" and store :: "'s \<Rightarrow> 'c" +
  assumes exec_miss: "cache_command line = Some (Get k) \<Longrightarrow> cwf (store s) \<Longrightarrow> map_of (citems (store s)) k = None
        \<Longrightarrow> fst (exec t line s) \<in> miss_replies"
begin

lemma get_reply:
  assumes "cwf (store s)" "cache_command line = Some (Get k)"
  shows "(k, fst (exec t line s)) \<in> set (citems (store s)) \<or> fst (exec t line s) \<in> miss_replies"
proof (cases "map_of (citems (store s)) k")
  case None
  then show ?thesis using assms exec_miss by blast
next
  case (Some v)
  then have "fst (exec t line s) = v" using exec_hit [OF assms(2)] get_value [OF assms(1)] by simp
  with Some show ?thesis by (simp add: map_of_SomeD)
qed

lemma exec_entries:
  assumes "cwf (store s)" "(x, y) \<in> set (citems (store (snd (exec t line s))))"
  shows "(x, y) \<in> set (citems (store s)) \<or> cache_command line = Some (Put x y)"
proof (cases "cache_command line")
  case None
  then show ?thesis using assms exec_bad by simp
next
  case (Some a)
  show ?thesis
  proof (cases a)
    case (Get k)
    with Some assms exec_store [OF Some, of t s] show ?thesis
      using set_touch by (fastforce simp: get_items split: option.splits dest: map_of_SomeD)
  next
    case (Put k v)
    with Some assms exec_store [OF Some, of t s] set_lastN set_touch show ?thesis
      by (fastforce simp: put_items)
  qed
qed

lemma exec_wf: "cwf (store s) \<Longrightarrow> cwf (store (snd (exec t line s)))"
  using serve_wf [of s "[(t, line)]"] by simp

end

interpretation l1a: answering_cache l1_get l1_set cache capacity l1_wf "\<lambda>t. l1_process_command" "\<lambda>c. c"
proof
  fix line k and s :: l1_lru
  assume c: "cache_command line = Some (Get k)" and m: "map_of (cache s) k = None"
  have "k = strip (drop 4 line)" "line \<noteq> []" "startswith (upper line) ''GET;''"
    using c by (auto simp: cache_command_def startswith_def upper_def split: if_splits list.splits)
  with m show "fst (l1_process_command line s) \<in> miss_replies"
    by (simp add: l1_process_command_def l1_get_miss Let_def miss_replies_def)
qed

interpretation l2a: answering_cache l2_get l2_set l2_cache l2_capacity l2_wf l2_process_command l2_CACHE
  by unfold_locales (auto simp: l2_exec_get miss_replies_def split: option.split)

section \<open>Coherence\<close>

text \<open>
  Names and values the line protocol carries unchanged. A cache is coherent when every entry is a value that
  counts as a hit and is what the data plane answers; the other clients may set only such values.
\<close>

definition plain :: "string \<Rightarrow> bool" where
  "plain d \<longleftrightarrow> d \<noteq> [] \<and> stripped d \<and> semi \<notin> set d \<and> NL \<notin> set d"

definition passes :: "string \<Rightarrow> bool" where
  "passes v \<longleftrightarrow> isHit (Some v) \<and> stripped v \<and> NL \<notin> set v \<and> CR \<notin> set v"

definition carried :: "(string \<Rightarrow> string option) \<Rightarrow> string \<Rightarrow> bool" where
  "carried dp d \<longleftrightarrow> plain d \<and> (dp_value (dp d) = [] \<or> passes (dp_value (dp d)))"

definition good :: "(string \<Rightarrow> string option) \<Rightarrow> string \<Rightarrow> string \<Rightarrow> bool" where
  "good dp k v \<longleftrightarrow> v = dp_value (dp k) \<and> isHit (Some v)"

definition good_line :: "(string \<Rightarrow> string option) \<Rightarrow> string \<Rightarrow> bool" where
  "good_line dp line \<longleftrightarrow> (\<forall>k v. cache_command line = Some (Put k v) \<longrightarrow> good dp k v)"

definition good_other :: "(string \<Rightarrow> string option) \<Rightarrow> other \<Rightarrow> bool" where
  "good_other dp e \<longleftrightarrow> (case e of L1Line ip line \<Rightarrow> good_line dp line | L2Line ip line \<Rightarrow> good_line dp line | _ \<Rightarrow> True)"

definition caches_ok :: "(string \<Rightarrow> string option) \<Rightarrow> world \<Rightarrow> bool" where
  "caches_ok dp w \<longleftrightarrow>
     (\<forall>ip c. l1_at w ip = Some c \<longrightarrow> l1_wf c \<and> (\<forall>(k, v) \<in> set (cache c). good dp k v)) \<and>
     (\<forall>ip s. l2_at w ip = Some s \<longrightarrow> l2_wf (l2_CACHE s) \<and> (\<forall>(k, v) \<in> set (l2_cache (l2_CACHE s)). good dp k v))"

definition others_ok :: "(string \<Rightarrow> string option) \<Rightarrow> world \<Rightarrow> bool" where
  "others_ok dp w \<longleftrightarrow> (\<forall>es \<in> set (agenda w). \<forall>e \<in> set es. good_other dp e)"

text \<open>The ports are distinct and the data plane has an address.\<close>

definition ports_ok :: "cache_client \<Rightarrow> bool" where
  "ports_ok cc \<longleftrightarrow> distinct [l1Port cc, l2Port cc, dataplanePort cc] \<and> \<not> isBlank (zc_leaderIp (zone cc))"

text \<open>Every configuration that loads gives that, with the default ports.\<close>

lemma loaded_zone_ok:
  "load_zone present json = Some z \<Longrightarrow> ports_ok \<lparr>zone = z, l1Port = 8100, l2Port = 8200, dataplanePort = 8000\<rparr>"
proof -
  assume "load_zone present json = Some z"
  then have "zc_leaderIp z = ''127.0.0.1''" by (auto simp: load_zone_def split: if_splits)
  moreover have "\<not> isBlank ''127.0.0.1''" by code_simp
  ultimately show ?thesis by (simp add: ports_ok_def)
qed

definition coherent :: "cache_client \<Rightarrow> (string \<Rightarrow> string option) \<Rightarrow> world \<Rightarrow> bool" where
  "coherent cc dp w \<longleftrightarrow> ports_ok cc \<and> caches_ok dp w \<and> others_ok dp w"

lemma caches_ok_l1:
  assumes "caches_ok dp w" "l1_at w ip = Some c" "good_line dp line"
  shows "caches_ok dp (w\<lparr>l1_at := (l1_at w)(ip \<mapsto> snd (l1_process_command line c))\<rparr>)"
  using assms l1a.exec_entries [of c _ _ line] l1a.exec_wf [of c line]
  by (fastforce simp: caches_ok_def good_line_def)

lemma caches_ok_l2:
  assumes "caches_ok dp w" "l2_at w ip = Some s" "good_line dp line"
  shows "caches_ok dp (w\<lparr>l2_at := (l2_at w)(ip \<mapsto> snd (l2_process_command t line s))\<rparr>)"
  using assms l2a.exec_entries [of s _ _ t line] l2a.exec_wf [of s t line]
  by (fastforce simp: caches_ok_def good_line_def)

lemma fresh_caches_ok:
  "l1_wf L1_CACHE" "cache L1_CACHE = []" "l2_wf (l2_CACHE L2_START)" "l2_cache (l2_CACHE L2_START) = []"
  using l1_wf_init [of 50000] l2_wf_init [of 100000]
  by (simp_all add: L1_CACHE_def L2_START_def) (simp_all add: l1_init_def l2_init_def)

lemma run_other_ok:
  "caches_ok dp w \<Longrightarrow> good_other dp e \<Longrightarrow> caches_ok dp (run_other e w) \<and> agenda (run_other e w) = agenda w"
proof (cases e)
  case (L1Line ip line)
  assume "caches_ok dp w" "good_other dp e"
  with L1Line show ?thesis using caches_ok_l1 by (auto simp: good_other_def split: option.split)
next
  case (L2Line ip line)
  assume "caches_ok dp w" "good_other dp e"
  with L2Line show ?thesis using caches_ok_l2 by (auto simp: good_other_def split: option.split)
qed (use fresh_caches_ok in \<open>auto simp: caches_ok_def\<close>)

lemma fold_other_ok:
  "caches_ok dp w \<Longrightarrow> \<forall>e \<in> set es. good_other dp e \<Longrightarrow>
     caches_ok dp (fold run_other es w) \<and> agenda (fold run_other es w) = agenda w"
  using run_other_ok by (induction es arbitrary: w) auto

lemma run_others_coherent: "coherent cc dp w \<Longrightarrow> coherent cc dp (run_others w)"
proof (cases "agenda w")
  case (Cons es rest)
  assume c: "coherent cc dp w"
  then have "caches_ok dp (w\<lparr>agenda := rest\<rparr>)" "\<forall>e \<in> set es. good_other dp e"
    using Cons by (auto simp: coherent_def others_ok_def caches_ok_def)
  from fold_other_ok [OF this] c Cons show ?thesis
    by (auto simp: coherent_def others_ok_def run_others_def)
qed (simp add: run_others_def)

section \<open>The contract holds\<close>

text \<open>A message without line feeds is one line, which the server sees without the final line feed.\<close>

lemma message_one: "NL \<notin> set msg \<Longrightarrow> message_events msg = [Recv (msg @ [NL]) True]"
  using keep_lines_line [of msg "[]"] by (simp add: message_events_def)

lemma rstrip_message: "msg \<noteq> [] \<Longrightarrow> \<not> py_isspace (last msg) \<Longrightarrow> rstrip (msg @ [NL]) = msg"
  by (simp add: rstrip_snoc rstrip_id)

lemma get_message:
  assumes "plain d"
  shows "NL \<notin> set (get_msg d)" "rstrip (get_msg d @ [NL]) = get_msg d" "cache_command (get_msg d) = Some (Get d)"
proof -
  have "get_msg d = get_line d" by (simp add: get_msg_def get_line_def)
  then show "NL \<notin> set (get_msg d)" "rstrip (get_msg d @ [NL]) = get_msg d" "cache_command (get_msg d) = Some (Get d)"
    using assms command_get_line [of d] rstrip_message [of "get_msg d"]
    by (auto simp: plain_def get_line_def stripped_def strip_id)
qed

lemma set_message:
  assumes "plain d" "passes v"
  shows "NL \<notin> set (set_msg d v)" "rstrip (set_msg d v @ [NL]) = set_msg d v"
    "cache_command (set_msg d v) = Some (Put d v)"
proof -
  have e: "set_msg d v = set_line d v" by (simp add: set_msg_def set_line_def)
  have "v \<noteq> []" using assms(2) by (auto simp: passes_def isHit_def)
  then show "NL \<notin> set (set_msg d v)" "rstrip (set_msg d v @ [NL]) = set_msg d v"
    "cache_command (set_msg d v) = Some (Put d v)"
    using assms command_set_line [of d v] rstrip_message [of "set_msg d v"]
    by (auto simp: e plain_def passes_def set_line_def stripped_def strip_id)
qed

lemma exchange_l1:
  assumes "NL \<notin> set msg" "rstrip (msg @ [NL]) = msg" "l1_at (run_others w) ip = Some c"
  shows "exchange cc dp ip (l1Port cc) msg w =
    (first_reply [fst (l1_process_command msg c) @ [NL]],
     (run_others w)\<lparr>l1_at := (l1_at (run_others w))(ip \<mapsto> snd (l1_process_command msg c))\<rparr>)"
  using assms by (simp add: exchange_def message_one Let_def split: prod.split)

lemma exchange_l2:
  assumes "NL \<notin> set msg" "rstrip (msg @ [NL]) = msg" "l2_at (run_others w) ip = Some s" "l2Port cc \<noteq> l1Port cc"
  shows "exchange cc dp ip (l2Port cc) msg w =
    (first_reply [fst (l2_process_command (clock (run_others w)) msg s) @ [NL]],
     (run_others w)\<lparr>l2_at := (l2_at (run_others w))(ip \<mapsto> snd (l2_process_command (clock (run_others w)) msg s))\<rparr>)"
  using assms by (simp add: exchange_def message_one Let_def split: prod.split)

lemma first_reply_value: "NL \<notin> set v \<Longrightarrow> CR \<notin> set v \<Longrightarrow> first_reply [v @ [NL]] = Some v"
  by (simp add: first_reply_def takeWhile_append takeWhile_eq_all_conv) auto

lemma good_reply:
  assumes "carried dp d" "good dp d v"
  shows "first_reply [v @ [NL]] = Some (dp_value (dp d))"
proof -
  have "passes v" using assms by (auto simp: carried_def good_def isHit_def)
  with assms(2) show ?thesis by (simp add: first_reply_value passes_def good_def)
qed

lemma get_good_line: "plain d \<Longrightarrow> good_line dp (get_msg d)"
  by (simp add: good_line_def get_message)

lemma set_good_line:
  assumes "carried dp d" "dp_value (dp d) \<noteq> []"
  shows "good_line dp (set_msg d (dp_value (dp d)))" "passes (dp_value (dp d))"
  using assms set_message [of d "dp_value (dp d)"]
  by (auto simp: good_line_def good_def carried_def passes_def)

lemma coherent_l1:
  assumes "coherent cc dp w" "NL \<notin> set msg" "rstrip (msg @ [NL]) = msg" "good_line dp msg"
    "exchange cc dp ip (l1Port cc) msg w = (r, w')"
  shows "coherent cc dp w' \<and> (case l1_at (run_others w) ip of None \<Rightarrow> r = None
      | Some c \<Rightarrow> r = first_reply [fst (l1_process_command msg c) @ [NL]])"
proof -
  note c = run_others_coherent [OF assms(1)]
  show ?thesis
  proof (cases "l1_at (run_others w) ip")
    case None
    then show ?thesis using assms(5) c by (auto simp: exchange_def Let_def)
  next
    case (Some s)
    then show ?thesis
      using assms(5) c caches_ok_l1 [OF _ Some assms(4)] exchange_l1 [OF assms(2,3) Some, of cc dp]
      by (auto simp: coherent_def others_ok_def)
  qed
qed

lemma coherent_l2:
  assumes "coherent cc dp w" "NL \<notin> set msg" "rstrip (msg @ [NL]) = msg" "good_line dp msg"
    "exchange cc dp ip (l2Port cc) msg w = (r, w')"
  shows "coherent cc dp w' \<and> (case l2_at (run_others w) ip of None \<Rightarrow> r = None
      | Some s \<Rightarrow> r = first_reply [fst (l2_process_command (clock (run_others w)) msg s) @ [NL]])"
proof -
  note c = run_others_coherent [OF assms(1)]
  have p: "l2Port cc \<noteq> l1Port cc" using assms(1) by (auto simp: coherent_def ports_ok_def)
  show ?thesis
  proof (cases "l2_at (run_others w) ip")
    case None
    then show ?thesis using assms(5) c p by (auto simp: exchange_def Let_def)
  next
    case (Some s)
    then show ?thesis
      using assms(5) c caches_ok_l2 [OF _ Some assms(4)] exchange_l2 [OF assms(2,3) Some p, of dp]
      by (auto simp: coherent_def others_ok_def)
  qed
qed

lemma reply_is_value:
  assumes "carried dp d" "(d, v) \<in> set kvs \<or> v \<in> miss_replies"
    "\<forall>(k, v) \<in> set kvs. good dp k v" "isHit (first_reply [v @ [NL]])"
  shows "first_reply [v @ [NL]] = Some (dp_value (dp d))"
proof -
  have "good dp d v" using assms(2-4) miss_not_hit by auto
  then show ?thesis by (rule good_reply [OF assms(1)])
qed

lemma get_l1_value:
  assumes "coherent cc dp w" "carried dp d" "exchange cc dp ip (l1Port cc) (get_msg d) w = (r, w')"
  shows "coherent cc dp w' \<and> (isHit r \<longrightarrow> r = Some (dp_value (dp d)))"
proof -
  have p: "plain d" using assms(2) by (simp add: carried_def)
  note x = coherent_l1 [OF assms(1) get_message(1,2) [OF p] get_good_line [OF p] assms(3)]
  show ?thesis
  proof (cases "l1_at (run_others w) ip")
    case (Some c)
    then have c: "l1_wf c" "\<forall>(k, v) \<in> set (cache c). good dp k v"
      using run_others_coherent [OF assms(1)] by (auto simp: coherent_def caches_ok_def)
    show ?thesis
      using x Some reply_is_value [OF assms(2) l1a.get_reply [OF c(1) get_message(3) [OF p]] c(2)]
      by simp
  qed (use x in \<open>simp add: isHit_def\<close>)
qed

lemma get_l2_value:
  assumes "coherent cc dp w" "carried dp d" "exchange cc dp ip (l2Port cc) (get_msg d) w = (r, w')"
  shows "coherent cc dp w' \<and> (isHit r \<longrightarrow> r = Some (dp_value (dp d)))"
proof -
  have p: "plain d" using assms(2) by (simp add: carried_def)
  note x = coherent_l2 [OF assms(1) get_message(1,2) [OF p] get_good_line [OF p] assms(3)]
  show ?thesis
  proof (cases "l2_at (run_others w) ip")
    case (Some s)
    then have c: "l2_wf (l2_CACHE s)" "\<forall>(k, v) \<in> set (l2_cache (l2_CACHE s)). good dp k v"
      using run_others_coherent [OF assms(1)] by (auto simp: coherent_def caches_ok_def)
    show ?thesis
      using x Some reply_is_value [OF assms(2) l2a.get_reply [OF c(1) get_message(3) [OF p]] c(2)]
      by simp
  qed (use x in \<open>simp add: isHit_def\<close>)
qed

interpretation front: coherent_services cc "exchange cc dp" "nap interrupted" "coherent cc dp" "carried dp"
  "\<lambda>d. dp_value (dp d)" for cc dp interrupted
proof
  fix w d ip r w' b
  show "coherent cc dp w' \<and> (isHit r \<longrightarrow> r = Some (dp_value (dp d)))"
    if "coherent cc dp w" "carried dp d" "exchange cc dp ip (l1Port cc) (get_msg d) w = (r, w')"
    using that by (rule get_l1_value)
  show "coherent cc dp w' \<and> (isHit r \<longrightarrow> r = Some (dp_value (dp d)))"
    if "coherent cc dp w" "carried dp d" "exchange cc dp ip (l2Port cc) (get_msg d) w = (r, w')"
    using that by (rule get_l2_value)
  show "coherent cc dp w'"
    if "coherent cc dp w" "carried dp d" "dp_value (dp d) \<noteq> []"
      "exchange cc dp ip (l1Port cc) (set_msg d (dp_value (dp d))) w = (r, w')"
  proof -
    have p: "plain d" using that(2) by (simp add: carried_def)
    note g = set_good_line [OF that(2,3)]
    show ?thesis using coherent_l1 [OF that(1) set_message(1,2) [OF p g(2)] g(1) that(4)] by simp
  qed
  show "coherent cc dp w'"
    if "coherent cc dp w" "carried dp d" "dp_value (dp d) \<noteq> []"
      "exchange cc dp ip (l2Port cc) (set_msg d (dp_value (dp d))) w = (r, w')"
  proof -
    have p: "plain d" using that(2) by (simp add: carried_def)
    note g = set_good_line [OF that(2,3)]
    show ?thesis using coherent_l2 [OF that(1) set_message(1,2) [OF p g(2)] g(1) that(4)] by simp
  qed
  show "coherent cc dp w' \<and> dp_value r = dp_value (dp d)"
    if "coherent cc dp w" "carried dp d"
      "send (exchange cc dp) (zc_leaderIp (zone cc)) (dataplanePort cc) d w = (r, w')"
    using that run_others_coherent [OF that(1)]
    by (auto simp: coherent_def ports_ok_def send_def exchange_def Let_def split: if_splits)
  show "coherent cc dp w'" if "coherent cc dp w" "nap interrupted w = (b, w')"
    using that run_others_coherent by (auto simp: nap_def)
qed

section \<open>Properties\<close>

text \<open>
  C13: the caches never change an answer. Whatever is cached or leased, whether the caches are up
  or down, whichever of them are stopped or restarted empty in between, and whatever lines other
  clients send in between (as long as they store what the data plane answers), \<^verbatim>\<open>resolve\<close> ends and returns for a name the value the data plane has for it, the
  empty text if it has none; and the caches still hold only values of the data plane.
\<close>

theorem resolve_returns_data_plane_value:
  assumes "coherent cc dp w" and "carried dp d"
  shows "fst (cache_resolve cc (exchange cc dp) (nap interrupted) d w) = dp_value (dp d)
    \<and> coherent cc dp (snd (cache_resolve cc (exchange cc dp) (nap interrupted) d w))"
  using front.resolved [OF assms, of interrupted] by (metis prod.collapse)

definition example_client :: cache_client where
  "example_client = \<lparr>zone = \<lparr>zc_leaderIp = ''127.0.0.1'', l1Servers = [''127.0.0.1''], l2Servers = [''127.0.0.1'']\<rparr>,
     l1Port = 8100, l2Port = 8200, dataplanePort = 8000\<rparr>"

definition example_world :: world where
  "example_world = \<lparr>l1_at = [''127.0.0.1'' \<mapsto> L1_CACHE], l2_at = [''127.0.0.1'' \<mapsto> L2_START], clock = 0,
     agenda = [[], [L2Line ''127.0.0.1'' ''GET;q.com''], [Clock 2, L1Stop ''127.0.0.1''],
       [L2Stop ''127.0.0.1'', L2Start ''127.0.0.1'', L1Start ''127.0.0.1''], [L2Line ''127.0.0.1'' ''SET;q.com;5.5.5.5'']]\<rparr>"

definition example_dp :: "string \<Rightarrow> string option" where
  "example_dp d = Some (if d = ''q.com'' then ''5.5.5.5'' else ''N/A'')"

theorem resolve_returns_data_plane_value_witness:
  "fst (cache_resolve example_client (exchange example_client example_dp) (nap (\<lambda>_. False)) ''q.com'' example_world) = ''5.5.5.5''"
proof -
  have v: "dp_value (example_dp ''q.com'') = ''5.5.5.5''" by code_simp
  have cmd: "cache_command ''GET;q.com'' = Some (Get ''q.com'')" "cache_command ''SET;q.com;5.5.5.5'' = Some (Put ''q.com'' ''5.5.5.5'')"
    by code_simp+
  have hit: "isHit (Some ''5.5.5.5'')" "stripped ''5.5.5.5''" "stripped ''q.com''" "\<not> isBlank ''127.0.0.1''" by code_simp+
  have "carried example_dp ''q.com''" by (simp add: carried_def plain_def passes_def v hit)
  moreover have "caches_ok example_dp example_world"
    by (simp add: caches_ok_def example_world_def fresh_caches_ok)
  moreover have "others_ok example_dp example_world"
    by (simp add: others_ok_def example_world_def good_other_def good_line_def good_def cmd v hit)
  moreover have "ports_ok example_client" by (simp add: ports_ok_def example_client_def hit)
  ultimately show ?thesis
    using resolve_returns_data_plane_value [of example_client example_dp example_world "''q.com''" "\<lambda>_. False"] v
    by (simp add: coherent_def)
qed

end
