(* ===== verification/Dns_Server.thy ===== *)
theory Dns_Server
  imports Dns_Codec Rate_Limiter Acl Front_Network
begin

text \<open>
  The request pipeline of the Java control plane (\<^verbatim>\<open>DnsServer.java\<close>): \<^verbatim>\<open>handleRequest\<close>, which puts
  rate limiter, parser, access list, cache client and response builder together, and what a worker
  does with a UDP datagram and with a TCP connection. The components without state and the
  services are the record \<open>front_end\<close>; the state is the limiter and the services' state.
\<close>

record 'w front_end =
  fe_charset :: charset
  fe_getByName :: host_lookup
  fe_acl :: acl_manager
  fe_client :: cache_client
  fe_exchange :: "'w exchange"
  fe_pause :: "'w \<Rightarrow> bool \<times> 'w"

definition handleRequest ::
    "'w front_end \<Rightarrow> instant \<Rightarrow> byte list \<Rightarrow> string \<Rightarrow> rate_limiter \<times> 'w \<Rightarrow> byte list option \<times> rate_limiter \<times> 'w"
where
  "handleRequest fe now query clientIp fs =
     (case fs of (rl, w) \<Rightarrow>
        let (limited, rl') = isRateLimited now clientIp rl
        in if limited then (None, rl', w)
           else (case parseDomain (fe_charset fe) query of
                   None \<Rightarrow> (buildResponse (fe_getByName fe) query None, rl', w)
                 | Some domain \<Rightarrow>
                     if isBlank domain then (buildResponse (fe_getByName fe) query None, rl', w)
                     else let (ipAddress, w') =
                                (if isInternalRequest (fe_acl fe) (Some clientIp) then (''192.168.1.1'', w)
                                 else cache_resolve (fe_client fe) (fe_exchange fe) (fe_pause fe) domain w);
                              resolvedIp = (if isBlank ipAddress then None else Some ipAddress)
                       in (buildResponse (fe_getByName fe) query resolvedIp, rl', w')))"

text \<open>A datagram is received into a buffer of 512 bytes; the response, if any, is sent back.\<close>

definition handle_datagram ::
    "'w front_end \<Rightarrow> instant \<Rightarrow> byte list \<Rightarrow> string \<Rightarrow> rate_limiter \<times> 'w \<Rightarrow> byte list option \<times> rate_limiter \<times> 'w"
where
  "handle_datagram fe now datagram clientIp fs = handleRequest fe now (take 512 datagram) clientIp fs"

text \<open>
  A TCP connection: the input up to its end, and what is written. A stream that ends early raises,
  and nothing is written.
\<close>

definition readUnsignedShort :: "byte list \<Rightarrow> (nat \<times> byte list) option" where
  "readUnsignedShort bs = (case bs of a # b # rest \<Rightarrow> Some (256 * unat a + unat b, rest) | _ \<Rightarrow> None)"

definition handleTcpClient ::
    "'w front_end \<Rightarrow> instant \<Rightarrow> byte list \<Rightarrow> string \<Rightarrow> rate_limiter \<times> 'w \<Rightarrow> byte list \<times> rate_limiter \<times> 'w"
where
  "handleTcpClient fe now inp clientIp fs =
     (case readUnsignedShort inp of
        None \<Rightarrow> ([], fs)
      | Some (msgLen, rest) \<Rightarrow>
          if msgLen = 0 then ([], fs)
          else if length rest < msgLen then ([], fs)
          else (case handleRequest fe now (take msgLen rest) clientIp fs of
                  (None, fs') \<Rightarrow> ([], fs')
                | (Some response, fs') \<Rightarrow> (writeShort (length response) @ response, fs')))"

section \<open>Answers\<close>

lemma isWhitespace_isspace: "isWhitespace c \<Longrightarrow> py_isspace c"
  by (auto simp: isWhitespace_def py_isspace_def Let_def)

lemma plain_not_blank: "plain d \<Longrightarrow> \<not> isBlank d"
  by (cases d) (auto simp: plain_def isBlank_def stripped_def dest: isWhitespace_isspace)

lemma dp_value_not_blank: "dp_value r \<noteq> [] \<Longrightarrow> \<not> isBlank (dp_value r)"
  by (auto simp: dp_value_def split: option.splits if_splits)

text \<open>The response to a well-formed query, with the four or more bytes of an address or without.\<close>

definition reply_message :: "byte list \<Rightarrow> byte list list \<Rightarrow> nat \<Rightarrow> nat \<Rightarrow> byte list option \<Rightarrow> byte list" where
  "reply_message header ls qtype qclass addr =
     response_header header (addr \<noteq> None) @ encode_name ls @ writeShort qtype @ writeShort qclass
     @ (case addr of None \<Rightarrow> [] | Some a \<Rightarrow> answer_head @ a)"

lemma build_reply:
  assumes "length header = 12" "\<forall>l \<in> set ls. valid_label l" "is_found ip \<longrightarrow> gbn (the ip) = Some addr"
  shows "buildResponse gbn (encode_query header ls qtype qclass rest) ip =
    Some (reply_message header ls qtype qclass (if is_found ip then Some addr else None))"
  using assms(3) by (simp add: buildResponse_encode [OF assms(1,2)] reply_message_def Let_def)

lemma front_answer:
  assumes "coherent (fe_client fe) dp w" "fe_exchange fe = exchange (fe_client fe) dp" "fe_pause fe = nap i"
    and "ascii_compatible (fe_charset fe)"
    and "\<not> fst (isRateLimited now ip rl)" "\<not> isInternalRequest (fe_acl fe) (Some ip)"
    and "length header = 12" "ls \<noteq> []" "\<forall>l \<in> set ls. valid_label l"
    and d: "d = toLowerCase (domain_text ls)" and "carried dp d"
    and v: "v = dp_value (dp d)" "v \<noteq> [] \<longrightarrow> fe_getByName fe v = Some addr"
  shows "\<exists>w'. handleRequest fe now (encode_query header ls qtype qclass rest) ip (rl, w) =
      (Some (reply_message header ls qtype qclass (if v = [] then None else Some addr)), snd (isRateLimited now ip rl), w')
    \<and> coherent (fe_client fe) dp w'"
proof -
  obtain rl' where l: "isRateLimited now ip rl = (False, rl')" using assms(5) by (cases "isRateLimited now ip rl") simp
  have p: "parseDomain (fe_charset fe) (encode_query header ls qtype qclass rest) = Some d"
    using parseDomain_encode [OF assms(7-9,4)] by (simp add: encode_query_def d)
  have nb: "\<not> isBlank d" using assms(11) plain_not_blank by (simp add: carried_def)
  obtain u w' where r: "cache_resolve (fe_client fe) (exchange (fe_client fe) dp) (nap i) d w = (u, w')" by fastforce
  then have u: "u = v" "coherent (fe_client fe) dp w'" using front.resolved [OF assms(1,11), of i] v(1) by auto
  let ?ip = "if isBlank v then None else Some v"
  have f: "is_found ?ip \<longleftrightarrow> v \<noteq> []" using dp_value_not_blank [of "dp d"] v(1) by (auto simp: is_found_def)
  have "buildResponse (fe_getByName fe) (encode_query header ls qtype qclass rest) ?ip =
      Some (reply_message header ls qtype qclass (if v = [] then None else Some addr))"
    using build_reply [OF assms(7,9), of ?ip "fe_getByName fe" addr qtype qclass rest] f v(2)
    by (auto simp: is_found_def split: if_splits)
  then show ?thesis
    using l p nb r u assms(2,3,6) by (simp add: handleRequest_def)
qed

lemma toLowerCase_no_P: "CHR ''P'' \<notin> set (toLowerCase s)"
  using lower_latin_not_capital by (fastforce simp: toLowerCase_def)

lemma ask_node_answers:
  assumes "cluster ips N L" "connected ips N L r d" "plain d" "\<not> startswith d ''PEER:''" "owner \<in> set ips"
    "lower_char (hd d) \<in> selfRecords (st (N owner))" "recordResponse d ''A'' (st (N owner)) = v"
    "passes v" "length v < 4096" "m \<in> set ips"
  shows "ask_node r (N m) d = Some v"
proof -
  have d: "stripped d" "d \<noteq> []" "NL \<notin> set d" using assms(3) by (simp_all add: plain_def)
  have v: "reply_ok v" "NL \<notin> set v" "CR \<notin> set v" using assms(8,9) by (auto simp: passes_def reply_ok_def isHit_def)
  have "handle_read [(r, Recv (d @ [NL]) True)] (N m) = ([v @ [NL]], N m)"
    using assms(4-10) d v by (intro cluster_answers [OF assms(1,2)]) simp_all
  then show ?thesis using v by (simp add: ask_node_def message_one [OF d(3)] first_reply_value)
qed

lemma shard_query:
  assumes "cluster ips N L" and "connected ips N L r d" and "owner \<in> set ips" and "m \<in> set ips"
    and "lower_char (hd d) \<in> selfRecords (st (N owner))" and "recordResponse d ''A'' (st (N owner)) = v"
    and "passes v" and "length v < 4096" and "fe_getByName fe v = Some addr"
    and "coherent (fe_client fe) (ask_node r (N m)) w"
    and "fe_exchange fe = exchange (fe_client fe) (ask_node r (N m))" and "fe_pause fe = nap i"
    and "ascii_compatible (fe_charset fe)"
    and "\<not> fst (isRateLimited now ip rl)" and "\<not> isInternalRequest (fe_acl fe) (Some ip)"
    and "length header = 12" and "ls \<noteq> []" and "\<forall>l \<in> set ls. valid_label l"
    and "d = toLowerCase (domain_text ls)" and "plain d"
    and "length (encode_query header ls qtype qclass rest) \<le> 512"
  shows "fst (handle_datagram fe now (encode_query header ls qtype qclass rest) ip (rl, w)) =
    Some (reply_message header ls qtype qclass (Some addr))"
proof -
  have "\<not> startswith d ''PEER:''"
    using toLowerCase_no_P [of "domain_text ls"] assms(19)
    by (metis append_take_drop_id list.set_intros(1) set_append UnI1 startswith_def)
  then have a: "ask_node r (N m) d = Some v"
    using assms(3-8,20) by (intro ask_node_answers [OF assms(1,2)]) simp_all
  have hit: "dp_value (Some v) = v" "v \<noteq> []" using assms(7) by (auto simp: passes_def isHit_def dp_value_def)
  have "carried (ask_node r (N m)) d" using assms(7,20) a hit by (simp add: carried_def)
  from front_answer [OF assms(10-18) assms(19) this, of v addr qtype qclass rest] a hit assms(9,21)
  show ?thesis by (auto simp: handle_datagram_def)
qed

section \<open>Properties\<close>

text \<open>
  C12: a client's query is answered with the record the data plane stores. A well-formed UDP query
  of an external client within its rate, for a name whose record is in the shard of some member of
  a settled cluster, is answered with the query's identifier, its question and that record's
  address, whichever member the front end contacts, whatever the caches hold (as long as it came
  from the data plane), whether they are up or not, and whatever other front ends do meanwhile.
\<close>

theorem query_answered_from_shard:
  assumes "cluster ips N L" and "connected ips N L r d" and "owner \<in> set ips" and "m \<in> set ips"
    and "lower_char (hd d) \<in> selfRecords (st (N owner))" and "recordResponse d ''A'' (st (N owner)) = v"
    and "passes v" and "length v < 4096" and "fe_getByName fe v = Some addr"
    and "coherent (fe_client fe) (ask_node r (N m)) w"
    and "fe_exchange fe = exchange (fe_client fe) (ask_node r (N m))" and "fe_pause fe = nap i"
    and "ascii_compatible (fe_charset fe)"
    and "\<not> fst (isRateLimited now ip rl)" and "\<not> isInternalRequest (fe_acl fe) (Some ip)"
    and "length header = 12" and "ls \<noteq> []" and "\<forall>l \<in> set ls. valid_label l"
    and "d = toLowerCase (domain_text ls)" and "plain d"
    and "length (encode_query header ls qtype qclass rest) \<le> 512"
  shows "fst (handle_datagram fe now (encode_query header ls qtype qclass rest) ip (rl, w)) =
    Some (reply_message header ls qtype qclass (Some addr))"
  using assms by (rule shard_query)

text \<open>
  Split DNS. An internal client within its rate gets the private address for every well-formed
  query, and neither the caches nor the data plane are contacted.
\<close>

theorem internal_client_gets_private_address:
  assumes "isInternalRequest (fe_acl fe) (Some ip)" and "\<not> fst (isRateLimited now ip rl)"
    and "ascii_compatible (fe_charset fe)" and "fe_getByName fe ''192.168.1.1'' = Some addr"
    and "length header = 12" and "ls \<noteq> []" and "\<forall>l \<in> set ls. valid_label l"
    and "\<not> isBlank (toLowerCase (domain_text ls))"
  shows "handleRequest fe now (encode_query header ls qtype qclass rest) ip (rl, w) =
    (Some (reply_message header ls qtype qclass (Some addr)), snd (isRateLimited now ip rl), w)"
proof -
  have "\<not> isBlank ''192.168.1.1''" by code_simp
  then have "is_found (Some ''192.168.1.1'')" by (simp add: is_found_def)
  then have "buildResponse (fe_getByName fe) (encode_query header ls qtype qclass rest) (Some ''192.168.1.1'') =
      Some (reply_message header ls qtype qclass (Some addr))"
    using build_reply [OF assms(5,7), of "Some ''192.168.1.1''" "fe_getByName fe" addr qtype qclass rest] assms(4) by simp
  then show ?thesis
    using assms(1,2,8) parseDomain_encode [OF assms(5-7,3)] \<open>\<not> isBlank ''192.168.1.1''\<close>
    by (cases "isRateLimited now ip rl") (simp add: handleRequest_def encode_query_def)
qed

text \<open>A sequence of requests, and the clients that were sent a response, with the times.\<close>

fun answered :: "'w front_end \<Rightarrow> (instant \<times> string \<times> byte list) list \<Rightarrow> rate_limiter \<times> 'w \<Rightarrow> query list" where
  "answered fe [] fs = []"
| "answered fe ((now, ip, q) # reqs) fs =
     (case handleRequest fe now q ip fs of
        (response, fs') \<Rightarrow> (if response = None then [] else [(now, ip)]) @ answered fe reqs fs')"

lemma handleRequest_limiter:
  "fst (snd (handleRequest fe now q ip (rl, w))) = snd (isRateLimited now ip rl)"
  "fst (isRateLimited now ip rl) \<Longrightarrow> handleRequest fe now q ip (rl, w) = (None, snd (isRateLimited now ip rl), w)"
  by (auto simp: handleRequest_def Let_def split: prod.split option.split)

lemma answered_accepted:
  "queries_in ip a b (answered fe reqs (rl, w)) \<le> queries_in ip a b (accepted (map (\<lambda>(t, ip, q). (t, ip)) reqs) rl)"
proof (induction reqs arbitrary: rl w)
  case (Cons req reqs)
  obtain now ip' q where req: "req = (now, ip', q)" by (cases req)
  obtain resp rl' w' where h: "handleRequest fe now q ip' (rl, w) = (resp, rl', w')" by (metis prod.collapse)
  have "rl' = snd (isRateLimited now ip' rl)" "fst (isRateLimited now ip' rl) \<longrightarrow> resp = None"
    using handleRequest_limiter [where fe = fe and now = now and q = q and ip = ip' and rl = rl and w = w] h by auto
  with Cons [of rl' w'] show ?case by (auto simp: req h queries_in_def)
qed (simp add: queries_in_def)

text \<open>
  C20: no client draws more than its share. Over any sequence of requests of any clients, with a
  clock that does not go backwards, a client is sent at most \<^verbatim>\<open>maxQueries\<close> responses in any interval
  of \<^verbatim>\<open>windowSeconds\<close>; and a query over the limit reaches neither parser, caches nor data plane.
\<close>

theorem responses_rate_bounded:
  assumes "windowMap rl = Map.empty" and "0 \<le> windowSeconds rl" and "0 \<le> maxQueries rl"
    and "sorted (map fst reqs)"
  shows "int (queries_in ip a (a + window rl) (answered fe reqs (rl, w))) \<le> maxQueries rl
    \<and> (fst (isRateLimited now ip rl') \<longrightarrow> handleRequest fe now q ip (rl', w) = (None, snd (isRateLimited now ip rl'), w))"
proof -
  have "sorted (map fst (map (\<lambda>(t, ip, q). (t, ip)) reqs))"
    using assms(4) by (simp add: comp_def case_prod_beta)
  from rate_bound [OF assms(1-3) this, of ip a]
  have "int (queries_in ip a (a + window rl) (answered fe reqs (rl, w))) \<le> maxQueries rl"
    using answered_accepted [of ip a "a + window rl" fe reqs rl w] by simp
  then show ?thesis by (intro conjI impI) (simp_all only: handleRequest_limiter(2))
qed

text \<open>
  C23: framing over TCP. A query of 1 to 65535 bytes sent with its length in front is handled like a
  datagram, whatever follows it on the connection; the response, if there is one, comes back with
  its length in front, from which a client reads exactly the response.
\<close>

theorem tcp_roundtrip:
  assumes "q \<noteq> []" and "length q < 65536" and "handleRequest fe now q ip fs = (resp, fs')"
    and "\<forall>r. resp = Some r \<longrightarrow> length r < 65536"
  shows "snd (handleTcpClient fe now (writeShort (length q) @ q @ extra) ip fs) = fs'
    \<and> (case resp of None \<Rightarrow> fst (handleTcpClient fe now (writeShort (length q) @ q @ extra) ip fs) = []
       | Some r \<Rightarrow> readUnsignedShort (fst (handleTcpClient fe now (writeShort (length q) @ q @ extra) ip fs)) = Some (length r, r))"
proof -
  have "readUnsignedShort (writeShort n @ s) = Some (n, s)" if "n < 65536" for n s
    using that by (simp add: readUnsignedShort_def writeShort_def unat_of_nat)
  then show ?thesis
    using assms by (simp add: handleTcpClient_def split: option.split)
qed

section \<open>A name with a line feed is two commands\<close>

text \<open>
  A label may contain any byte. Here one contains a line feed and, behind it, a command of the
  cache protocol.
\<close>

definition evil_label :: "byte list" where
  "evil_label = map (\<lambda>c. of_nat (of_char c)) (''x'' @ [NL] @ ''SET;b.com;6.6.6.6'')"

definition evil_name :: string where
  "evil_name = ''x'' @ [NL] @ ''set;b.com;6.6.6.6''"

lemma evil_label_valid: "valid_label evil_label"
  by code_simp

lemma evil_parsed: "toLowerCase (domain_text [evil_label]) = evil_name"
  by code_simp

lemma evil_events:
  "message_events (get_msg evil_name) = [Recv (''GET;x'' @ [NL]) True, Recv (''set;b.com;6.6.6.6'' @ [NL]) True]"
  by code_simp

lemma evil_commands:
  "rstrip (''GET;x'' @ [NL]) = ''GET;x''" "rstrip (''set;b.com;6.6.6.6'' @ [NL]) = ''set;b.com;6.6.6.6''"
  "cache_command ''GET;x'' = Some (Get ''x'')" "cache_command ''set;b.com;6.6.6.6'' = Some (Put ''b.com'' ''6.6.6.6'')"
  by code_simp+

lemma l1_exec_put: "cache_command line = Some (Put k v) \<Longrightarrow> l1_process_command line c = (''OK'', l1_set c k v)"
  using l1s.exec_put [of line k v c] l1s.exec_store [of line "Put k v" c] by (metis prod.collapse run_accesses.simps)

lemma l1_exec_get_miss:
  assumes "cache_command line = Some (Get k)" "map_of (cache c) k = None"
  shows "l1_process_command line c = (''N/A'', c)"
proof -
  have "k = strip (drop 4 line)" "line \<noteq> []" "startswith (upper line) ''GET;''"
    using assms(1) by (auto simp: cache_command_def startswith_def upper_def split: if_splits list.splits)
  with assms(2) show ?thesis by (simp add: l1_process_command_def l1_get_miss Let_def)
qed

lemma evil_l1:
  "l1_handle_client (message_events (get_msg evil_name)) L1_CACHE =
     ([''N/A'' @ [NL], ''OK'' @ [NL]], l1_set L1_CACHE ''b.com'' ''6.6.6.6'')"
proof -
  have "l1_process_command ''GET;x'' L1_CACHE = (''N/A'', L1_CACHE)"
    by (rule l1_exec_get_miss [OF evil_commands(3)]) (simp add: L1_CACHE_def l1_init_def)
  then show ?thesis
    unfolding evil_events using l1_exec_put [OF evil_commands(4), of L1_CACHE]
    by (simp add: evil_commands [simplified])
qed

lemma evil_l2: "\<exists>s. l2_handle_client (map (\<lambda>e. (t, e)) (message_events (get_msg evil_name))) L2_START =
     ([''LEASE;GRANTED'' @ [NL], ''OK'' @ [NL]], s)"
proof -
  have "fst (l2_process_command t ''GET;x'' L2_START) = ''LEASE;GRANTED''"
    using l2_exec_get [OF evil_commands(3), of t L2_START] by (simp add: L2_START_def l2_init_def)
  then obtain s where "l2_process_command t ''GET;x'' L2_START = (''LEASE;GRANTED'', s)" by (metis prod.collapse)
  then show ?thesis
    unfolding evil_events using l2_exec_put [OF evil_commands(4), of t s]
    by (simp add: evil_commands [simplified])
qed

text \<open>The deployment of the repository: one server of each kind on the local host, just started.\<close>

definition fresh_world :: world where
  "fresh_world = \<lparr>l1_at = [''127.0.0.1'' \<mapsto> L1_CACHE], l2_at = [''127.0.0.1'' \<mapsto> L2_START], clock = 0, agenda = []\<rparr>"

lemma example_select [simp]:
  "selectServer example_client (l1Servers (zone example_client)) d = ''127.0.0.1''"
  "selectServer example_client (l2Servers (zone example_client)) d = ''127.0.0.1''"
  by (simp_all add: selectServer_def example_client_def)

lemma local_host: "\<not> isBlank ''127.0.0.1''"
  by code_simp

lemma evil_resolved:
  assumes "dp_value (dp evil_name) = []"
  shows "\<exists>w'. cache_resolve example_client (exchange example_client dp) pause evil_name fresh_world = ([], w')
    \<and> agenda w' = [] \<and> l1_at w' ''127.0.0.1'' = Some (l1_set L1_CACHE ''b.com'' ''6.6.6.6'')"
proof -
  let ?cc = example_client and ?x = "exchange example_client dp" and ?c = "l1_set L1_CACHE ''b.com'' ''6.6.6.6''"
  have p: "l1Port ?cc = 8100" "l2Port ?cc = 8200" "dataplanePort ?cc = 8000" "zc_leaderIp (zone ?cc) = ''127.0.0.1''"
    by (simp_all add: example_client_def)
  define w1 where "w1 = fresh_world\<lparr>l1_at := [''127.0.0.1'' \<mapsto> ?c]\<rparr>"
  have x1: "send ?x ''127.0.0.1'' 8100 (get_msg evil_name) fresh_world = (Some ''N/A'', w1)"
    using local_host by (simp add: send_def exchange_def evil_l1 p run_others_def fresh_world_def first_reply_def w1_def)
  obtain s where s: "l2_handle_client (map (\<lambda>e. (0, e)) (message_events (get_msg evil_name))) L2_START =
      ([''LEASE;GRANTED'' @ [NL], ''OK'' @ [NL]], s)" using evil_l2 by blast
  define w2 where "w2 = w1\<lparr>l2_at := [''127.0.0.1'' \<mapsto> s]\<rparr>"
  have x2: "send ?x ''127.0.0.1'' 8200 (get_msg evil_name) w1 = (Some ''LEASE;GRANTED'', w2)"
    using local_host s
    by (simp add: send_def exchange_def p run_others_def fresh_world_def first_reply_def w1_def w2_def)
  have "fetch_and_store ?cc ?x ''127.0.0.1'' ''127.0.0.1'' evil_name w2 = ([], w2)"
    using local_host assms
    by (simp add: fetch_and_store_def fetchFromDataPlane_def send_def exchange_def p run_others_def w1_def w2_def fresh_world_def)
  then have "cache_resolve ?cc ?x pause evil_name fresh_world = ([], w2)"
    using x1 x2 by (simp add: cache_resolve_def p isHit_def startswith_def)
  then show ?thesis by (simp add: w1_def w2_def fresh_world_def)
qed

lemma poisoned_answer:
  assumes "agenda w = []" "l1_at w ''127.0.0.1'' = Some (l1_set L1_CACHE ''b.com'' ''6.6.6.6'')"
  shows "fst (cache_resolve example_client (exchange example_client dp) pause ''b.com'' w) = ''6.6.6.6''"
proof -
  let ?c = "l1_set L1_CACHE ''b.com'' ''6.6.6.6''"
  have "cache ?c = lastN 50000 (touch ''b.com'' ''6.6.6.6'' [])"
    using l1_set_cache [OF l1_wf_init, of 50000 "''b.com''" "''6.6.6.6''"] by (simp add: L1_CACHE_def) (simp add: l1_init_def)
  then have "fst (l1_get ?c ''b.com'') = Some ''6.6.6.6''"
    by (simp add: l1_get_hit lastN_id touch_def)
  moreover have g: "get_msg ''b.com'' = ''GET;b.com''" "rstrip (''GET;b.com'' @ [NL]) = ''GET;b.com''"
    "cache_command ''GET;b.com'' = Some (Get ''b.com'')" by code_simp+
  ultimately have "fst (l1_process_command ''GET;b.com'' ?c) = ''6.6.6.6''" using l1s.exec_hit by simp
  then have "exchange example_client dp ''127.0.0.1'' (l1Port example_client) (get_msg ''b.com'') w =
      (Some ''6.6.6.6'', w\<lparr>l1_at := (l1_at w)(''127.0.0.1'' \<mapsto> snd (l1_process_command ''GET;b.com'' ?c))\<rparr>)"
    using exchange_l1 [of "get_msg ''b.com''" w "''127.0.0.1''" ?c example_client dp] g assms
    by (simp add: run_others_def first_reply_def)
  moreover have "isHit (Some ''6.6.6.6'')" by code_simp
  ultimately show ?thesis using local_host by (simp add: cache_resolve_def send_def)
qed

text \<open>
  C27: one crafted query poisons the caches. The name of a query is copied into the lines sent to
  the caches without looking for line feeds, so a label with a line feed carries a second command.
  After one such query of any external client, for which the data plane knows nothing, against
  freshly started caches, the front end resolves the name \<^verbatim>\<open>b.com\<close> to the address the attacker chose,
  whatever the data plane has stored for it.
\<close>

theorem crafted_query_poisons_cache:
  assumes "dp_value (dp evil_name) = []" and "\<not> fst (isRateLimited now ip rl)"
    and "\<not> isInternalRequest (fe_acl fe) (Some ip)" and "ascii_compatible (fe_charset fe)"
    and "fe_client fe = example_client" and "fe_exchange fe = exchange example_client dp"
    and "length header = 12"
  shows "\<exists>response rl' w'. handleRequest fe now (encode_query header [evil_label] 1 1 []) ip (rl, fresh_world) = (response, rl', w')
    \<and> fst (cache_resolve example_client (exchange example_client dp) (fe_pause fe) ''b.com'' w') = ''6.6.6.6''"
proof -
  obtain w' where w': "cache_resolve example_client (exchange example_client dp) (fe_pause fe) evil_name fresh_world = ([], w')"
    "agenda w' = []" "l1_at w' ''127.0.0.1'' = Some (l1_set L1_CACHE ''b.com'' ''6.6.6.6'')"
    using evil_resolved [of dp] assms(1) by blast
  obtain rl' where l: "isRateLimited now ip rl = (False, rl')" using assms(2) by (cases "isRateLimited now ip rl") simp
  have p: "parseDomain (fe_charset fe) (encode_query header [evil_label] 1 1 []) = Some evil_name"
    using parseDomain_encode [OF assms(7) _ _ assms(4), of "[evil_label]"] evil_label_valid evil_parsed
    by (simp add: encode_query_def)
  have "\<not> isBlank evil_name" by code_simp
  then have "snd (snd (handleRequest fe now (encode_query header [evil_label] 1 1 []) ip (rl, fresh_world))) = w'"
    using l p w'(1) assms(3,5,6) by (simp add: handleRequest_def)
  then show ?thesis using poisoned_answer [OF w'(2,3)] by (metis prod.collapse)
qed

section \<open>Concrete runs\<close>

definition example_front :: "(string \<Rightarrow> string option) \<Rightarrow> world front_end" where
  "example_front dp = \<lparr>fe_charset = latin1,
     fe_getByName = (\<lambda>s. if s = ''5.5.5.5'' then Some [5, 5, 5, 5] else if s = ''192.168.1.1'' then Some [192, 168, 1, 1] else None),
     fe_acl = acl_default, fe_client = example_client, fe_exchange = exchange example_client dp, fe_pause = nap (\<lambda>_. False)\<rparr>"

lemma example_front_sel [simp]:
  "fe_charset (example_front dp) = latin1" "fe_acl (example_front dp) = acl_default"
  "fe_client (example_front dp) = example_client" "fe_exchange (example_front dp) = exchange example_client dp"
  "fe_pause (example_front dp) = nap (\<lambda>_. False)"
  "fe_getByName (example_front dp) ''5.5.5.5'' = Some [5, 5, 5, 5]"
  "fe_getByName (example_front dp) ''192.168.1.1'' = Some [192, 168, 1, 1]"
  by (simp_all add: example_front_def)

lemma fresh_limiter: "\<not> fst (isRateLimited 0 ip default_limiter)"
  by (simp add: isRateLimited_def default_limiter_def Let_def)

lemma fresh_world_coherent: "coherent example_client dp fresh_world"
proof -
  have "caches_ok dp fresh_world"
    by (simp add: caches_ok_def fresh_world_def L1_CACHE_def L2_START_def l1_wf_init l2_wf_init)
      (simp add: l1_init_def l2_init_def)
  moreover have "ports_ok example_client" using local_host by (simp add: ports_ok_def example_client_def)
  ultimately show ?thesis by (simp add: coherent_def others_ok_def) (simp add: fresh_world_def)
qed

definition q_labels :: "byte list list" where
  "q_labels = [[0x71], [0x63, 0x6F, 0x6D]]"

lemma q_labels_ok: "\<forall>l \<in> set q_labels. valid_label l" "q_labels \<noteq> []" "toLowerCase (domain_text q_labels) = ''q.com''"
  by code_simp+

lemma clients:
  "\<not> isInternalRequest acl_default (Some ''8.8.8.8'')" "isInternalRequest acl_default (Some ''192.168.10.3'')"
  by code_simp+

theorem query_answered_from_shard_witness:
  "fst (handle_datagram (example_front (ask_node example_remote (example_node ''10.0.0.3''))) 0
       (encode_query example_header q_labels 1 1 []) ''8.8.8.8'' (default_limiter, fresh_world)) =
     Some (reply_message example_header q_labels 1 1 (Some [5, 5, 5, 5]))"
proof (rule query_answered_from_shard [OF example_cluster example_connected, where owner = "''10.0.0.9''"])
  show "passes ''5.5.5.5''" "plain ''q.com''" by code_simp+
  show "length (encode_query example_header q_labels 1 1 []) \<le> 512" by code_simp
  show "coherent (fe_client (example_front (ask_node example_remote (example_node ''10.0.0.3''))))
      (ask_node example_remote (example_node ''10.0.0.3'')) fresh_world"
    by (simp add: fresh_world_coherent)
  show "lower_char (hd ''q.com'') \<in> selfRecords (st (example_node ''10.0.0.9''))"
    unfolding example_name by (rule example_owner)
qed (simp_all add: example_record fresh_limiter clients q_labels_ok example_query_parts latin1_compatible)

theorem internal_client_gets_private_address_witness:
  "handleRequest (example_front example_dp) 0 (encode_query example_header q_labels 1 1 []) ''192.168.10.3'' (default_limiter, fresh_world) =
     (Some (reply_message example_header q_labels 1 1 (Some [192, 168, 1, 1])),
      snd (isRateLimited 0 ''192.168.10.3'' default_limiter), fresh_world)"
proof (rule internal_client_gets_private_address)
  show "\<not> isBlank (toLowerCase (domain_text q_labels))" unfolding q_labels_ok by code_simp
qed (simp_all add: fresh_limiter clients q_labels_ok example_query_parts latin1_compatible)

theorem responses_rate_bounded_witness:
  "int (queries_in ''8.8.8.8'' 0 10000000000
     (answered (example_front example_dp) [(0, ''8.8.8.8'', []), (1, ''8.8.8.8'', []), (2, ''8.8.8.8'', [])]
        (default_limiter, fresh_world))) \<le> 2"
  using responses_rate_bounded [of default_limiter "[(0, ''8.8.8.8'', []), (1, ''8.8.8.8'', []), (2, ''8.8.8.8'', [])]"
      "''8.8.8.8''" 0 "example_front example_dp" fresh_world]
  by (simp add: default_limiter_def window_def)

theorem tcp_roundtrip_witness:
  "readUnsignedShort (fst (handleTcpClient (example_front example_dp) 0
       (writeShort (length (encode_query example_header q_labels 1 1 [])) @ encode_query example_header q_labels 1 1 [] @ [9])
       ''192.168.10.3'' (default_limiter, fresh_world))) =
     Some (length (reply_message example_header q_labels 1 1 (Some [192, 168, 1, 1])),
       reply_message example_header q_labels 1 1 (Some [192, 168, 1, 1]))"
proof -
  have "length (encode_query example_header q_labels 1 1 []) \<le> 512" "1 \<le> length (encode_query example_header q_labels 1 1 [])"
    by code_simp+
  moreover have "length (reply_message example_header q_labels 1 1 (Some [192, 168, 1, 1])) = 39"
    by (simp add: reply_message_def response_header_def answer_head_def encode_name_def q_labels_def writeShort_def writeInt_def)
  ultimately have l: "encode_query example_header q_labels 1 1 [] \<noteq> []" "length (encode_query example_header q_labels 1 1 []) < 65536"
    "length (reply_message example_header q_labels 1 1 (Some [192, 168, 1, 1])) < 65536" by auto
  show ?thesis
    using tcp_roundtrip [OF l(1,2) internal_client_gets_private_address_witness, of "[9]"] l(3) by simp
qed

theorem crafted_query_poisons_cache_witness:
  "\<exists>response rl' w'. handleRequest (example_front example_dp) 0 (encode_query example_header [evil_label] 1 1 [])
       ''8.8.8.8'' (default_limiter, fresh_world) = (response, rl', w')
     \<and> fst (cache_resolve example_client (exchange example_client example_dp) (nap (\<lambda>_. False)) ''b.com'' w') = ''6.6.6.6''"
proof -
  have "dp_value (example_dp evil_name) = []" by code_simp
  from crafted_query_poisons_cache [of example_dp 0 "''8.8.8.8''" default_limiter "example_front example_dp" example_header, OF this]
  show ?thesis by (simp add: fresh_limiter clients latin1_compatible example_query_parts)
qed

end
