(* ===== verification/Name_Service.thy ===== *)
theory Name_Service
  imports Dns_Server Cluster_History
begin

text \<open>
  The whole service: from the record files the nodes of the data plane start with, through their
  election, the data plane's answers, the caches and the Java front end, to the datagram a client
  gets back; and what the caches do to a record that changes later.
\<close>

section \<open>From the record files to the client\<close>

text \<open>
  C14: a client gets what is on file. The nodes of the data plane start from a common directory over
  the record files and hear the heartbeat of the member with the greatest address; the front end
  contacts any of them, behind caches that were filled from it. Then a well-formed UDP query of an external
  client within its rate, for a lower-case name, is answered with its identifier, its question and
  the address on the last line stored for the name in the file of its first letter.
\<close>

theorem client_gets_what_is_on_file:
  assumes "directory env ips" and "started env ips dk order B" and "greatest ips g"
    and "beats_from ips B g beat" and "\<forall>k \<le> length ips. printable (int k)" and "serving_disk dk"
    and "connected ips (told t g beat B) g r d" and "m \<in> set ips" and "dp = ask_node r (told t g beat B m)"
    and "last_record (d, ''A'') (shard_lines dk (hd d)) = Some v" and "passes v" and "length v < 4096"
    and "plain d" and "lower d = d" and "hd d \<in> set ALPHABET"
    and "fe_getByName fe v = Some bytes" and "coherent (fe_client fe) dp w"
    and "fe_exchange fe = exchange (fe_client fe) dp" and "fe_pause fe = nap i"
    and "ascii_compatible (fe_charset fe)"
    and "\<not> fst (isRateLimited now ip rl)" and "\<not> isInternalRequest (fe_acl fe) (Some ip)"
    and "length header = 12" and "ls \<noteq> []" and "\<forall>l \<in> set ls. valid_label l" and "d = toLowerCase (domain_text ls)"
    and "length (encode_query header ls qtype qclass rest) \<le> 512"
  shows "fst (handle_datagram fe now (encode_query header ls qtype qclass rest) ip (rl, w)) =
    Some (reply_message header ls qtype qclass (Some bytes))"
proof -
  have d: "stripped d" "d \<noteq> []" using assms(13) by (simp_all add: plain_def)
  obtain owner where o: "owner \<in> set ips" "lower_char (hd d) \<in> selfRecords (st (told t g beat B owner))"
    "recordResponse d ''A'' (st (told t g beat B owner)) = v"
    using booted_owner [OF assms(1-6) d(1) assms(14) d(2) assms(15,10)] by blast
  show ?thesis
    using shard_query [OF booted_cluster(1) [OF assms(1-5)] assms(7) o(1) assms(8) o(2,3) assms(11,12,16)]
      assms(9,13,17-27) by simp
qed

section \<open>From a write to the client\<close>

text \<open>
  C9: a client gets what was written last. After any history of writes at the members of a settled
  cluster on a shared volume, an external client's well-formed UDP query, within its rate, for a lower-case name is
  answered with the address of the last write of this name, if the caches hold what the data plane
  now answers (or nothing).
\<close>

theorem client_gets_last_write:
  assumes "volume_cluster (length ws) ips dk N L" and "writes_ok ips ws" and "owner \<in> set ips"
    and "lower_char (hd d) \<in> selfRecords (st (N owner))" and "lower d = d"
    and "connected ips (history ws N) L r d" and "m \<in> set ips" and "dp = ask_node r (history ws N m)"
    and "latest (d, ''A'') (map snd ws) = Some v" and "passes v" and "length v < 4096" and "plain d"
    and "fe_getByName fe v = Some bytes" and "coherent (fe_client fe) dp w"
    and "fe_exchange fe = exchange (fe_client fe) dp" and "fe_pause fe = nap i"
    and "ascii_compatible (fe_charset fe)"
    and "\<not> fst (isRateLimited now ip rl)" and "\<not> isInternalRequest (fe_acl fe) (Some ip)"
    and "length header = 12" and "ls \<noteq> []" and "\<forall>l \<in> set ls. valid_label l" and "d = toLowerCase (domain_text ls)"
    and "length (encode_query header ls qtype qclass rest) \<le> 512"
  shows "fst (handle_datagram fe now (encode_query header ls qtype qclass rest) ip (rl, w)) =
    Some (reply_message header ls qtype qclass (Some bytes))"
proof -
  have d: "stripped d" "d \<noteq> []" using assms(12) by (simp_all add: plain_def)
  note h = history_answers [OF assms(1-4) d assms(5)]
  have "recordResponse d ''A'' (st (history ws N owner)) = v" using h(3) assms(9) by simp
  from shard_query [OF h(1) assms(6,3,7) h(2) this assms(10,11,13)] assms(8,12,14-24) show ?thesis by simp
qed

section \<open>Records that change\<close>

text \<open>
  The answers of the front end to repeated questions for one name, with what the data plane would
  answer at the time of each.
\<close>

fun resolve_all :: "cache_client \<Rightarrow> (world \<Rightarrow> bool) \<Rightarrow> string \<Rightarrow> (string \<Rightarrow> string option) list \<Rightarrow> world \<Rightarrow> string list" where
  "resolve_all cc i d [] w = []"
| "resolve_all cc i d (dp # dps) w =
     (let (v, w') = cache_resolve cc (exchange cc dp) (nap i) d w in v # resolve_all cc i d dps w')"

text \<open>
  What the L1 server at \<open>ip\<close> is asked between two questions, and when that leaves an entry for \<open>d\<close>
  in place that was the one used last: the server is not stopped, nobody stores the name \<open>d\<close> there,
  and fewer other names than the capacity \<open>n\<close> are looked up or stored there. What happens at other
  servers is arbitrary.
\<close>

fun l1_accesses :: "string \<Rightarrow> other list \<Rightarrow> (string, string) access list" where
  "l1_accesses ip [] = []"
| "l1_accesses ip (L1Line ip' line # es) =
     (if ip' = ip then (case cache_command line of None \<Rightarrow> [] | Some a \<Rightarrow> [a]) else []) @ l1_accesses ip es"
| "l1_accesses ip (e # es) = l1_accesses ip es"

definition keeps_entry :: "string \<Rightarrow> string \<Rightarrow> nat \<Rightarrow> other list \<Rightarrow> bool" where
  "keeps_entry ip d n es \<longleftrightarrow> L1Stop ip \<notin> set es \<and> (\<forall>a \<in> set (l1_accesses ip es). \<not> is_put_of d a)
     \<and> card (access_key ` set (l1_accesses ip es) - {d}) < n"

text \<open>The L1 server at \<open>ip\<close>, of capacity \<open>n\<close>, holds \<open>v\<close> for \<open>d\<close> and used this entry last.\<close>

definition l1_recent :: "string \<Rightarrow> string \<Rightarrow> string \<Rightarrow> nat \<Rightarrow> world \<Rightarrow> bool" where
  "l1_recent ip d v n w \<longleftrightarrow> (\<exists>c xs. l1_at w ip = Some c \<and> l1_wf c \<and> capacity c = n \<and> cache c = xs @ [(d, v)])"

lemma run_accesses_append:
  "run_accesses get put c (as @ bs) = run_accesses get put (run_accesses get put c as) bs"
proof (induction as arbitrary: c)
  case (Cons a as)
  then show ?case by (cases a) simp_all
qed simp

lemma line_access:
  "snd (l1_process_command line c) =
     run_accesses l1_get l1_set c (case cache_command line of None \<Rightarrow> [] | Some a \<Rightarrow> [a])"
proof (cases "cache_command line")
  case None
  then show ?thesis using l1s.exec_bad [OF None, of c] by simp
next
  case (Some a)
  then show ?thesis using l1s.exec_store [OF Some, of c] by simp
qed

lemma others_at_server:
  assumes "l1_at w ip = Some c" and "L1Stop ip \<notin> set es"
  shows "l1_at (fold run_other es w) ip = Some (run_accesses l1_get l1_set c (l1_accesses ip es))
    \<and> agenda (fold run_other es w) = agenda w"
  using assms
proof (induction es arbitrary: w c)
  case (Cons e es)
  show ?case
  proof (cases e)
    case (L1Line ip' line)
    then show ?thesis
      using Cons.prems Cons.IH [of "run_other e w" "if ip' = ip then snd (l1_process_command line c) else c"]
      by (auto simp: line_access run_accesses_append split: option.splits)
  next
    case (L2Line ip' line)
    then show ?thesis using Cons.prems Cons.IH [of "run_other e w" c] by (simp split: option.splits)
  next
    case (L1Start ip')
    then show ?thesis using Cons.prems Cons.IH [of "run_other e w" c] by (cases "ip' = ip") auto
  qed (use Cons.prems Cons.IH [of "run_other e w" c] in auto)
qed simp

lemma others_keep_entry:
  assumes "l1_recent ip d v n w" and "\<forall>es \<in> set (agenda w). keeps_entry ip d n es" and "0 < n"
  shows "\<exists>c. l1_at (run_others w) ip = Some c \<and> l1_wf c \<and> capacity c = n \<and> map_of (cache c) d = Some v
    \<and> set (agenda (run_others w)) \<subseteq> set (agenda w)"
proof -
  obtain c xs where c: "l1_at w ip = Some c" "l1_wf c" "capacity c = n" "cache c = xs @ [(d, v)]"
    using assms(1) by (auto simp: l1_recent_def)
  define es where "es = (case agenda w of [] \<Rightarrow> [] | es # _ \<Rightarrow> es)"
  have k: "keeps_entry ip d n es"
    using assms(2,3) by (auto simp: es_def keeps_entry_def split: list.split)
  have w: "run_others w = fold run_other es (w\<lparr>agenda := tl (agenda w)\<rparr>)"
    by (simp add: run_others_def es_def split: list.split)
  let ?c = "run_accesses l1_get l1_set c (l1_accesses ip es)" and ?T = "access_key ` set (l1_accesses ip es) - {d}"
  have "l1.holds_with d v ?T c"
    unfolding l1.holds_with_def by (rule exI [of _ xs], rule exI [of _ "[]"]) (simp add: c(4))
  then have h: "l1.holds_with d v ?T ?c"
    using k c by (intro l1.run_holds) (auto simp: keeps_entry_def)
  have wf: "l1_wf ?c" and cap: "capacity ?c = n" using c l1.run_wf l1.run_cap by auto
  have "map_of (cache ?c) d = Some v" using l1.holds_lookup [OF wf h] l1.get_value [OF wf] by simp
  moreover have "l1_at (run_others w) ip = Some ?c" "agenda (run_others w) = tl (agenda w)"
    using others_at_server [of "w\<lparr>agenda := tl (agenda w)\<rparr>" ip c es] c(1) k
    by (simp_all add: w keeps_entry_def)
  moreover have "set (tl (agenda w)) \<subseteq> set (agenda w)" by (cases "agenda w") auto
  ultimately show ?thesis using wf cap by (intro exI [of _ ?c]) simp
qed

lemma hit_resolved:
  assumes "l1_at (run_others w) ip = Some c" and "l1_wf c" and "capacity c = n" and "map_of (cache c) d = Some v"
    and "ip = selectServer cc (l1Servers (zone cc)) d" and "\<not> isBlank ip" and "plain d" and "passes v"
  shows "\<exists>w'. cache_resolve cc (exchange cc dp) pause d w = (v, w') \<and> agenda w' = agenda (run_others w)
    \<and> l1_recent ip d v n w'"
proof -
  have k: "cache_command (get_msg d) = Some (Get d)" using get_message(3) [OF assms(7)] .
  let ?c = "snd (l1_process_command (get_msg d) c)"
  have "fst (l1_process_command (get_msg d) c) = v" using l1s.exec_hit [OF k] l1.get_value [OF assms(2)] assms(4) by simp
  moreover have "first_reply [v @ [NL]] = Some v" "isHit (Some v)"
    using assms(8) by (simp_all add: passes_def first_reply_value)
  ultimately have "cache_resolve cc (exchange cc dp) pause d w =
      (v, (run_others w)\<lparr>l1_at := (l1_at (run_others w))(ip \<mapsto> ?c)\<rparr>)"
    using exchange_l1 [OF get_message(1,2) [OF assms(7)] assms(1), of cc dp] assms(5,6)
    by (simp add: cache_resolve_def send_def)
  moreover have "?c = snd (l1_get c d)" using line_access [of "get_msg d" c] k by simp
  moreover have "cache (snd (l1_get c d)) = ddel d (cache c) @ [(d, v)]"
    using assms(2,4) by (simp add: l1.get_items touch_def)
  ultimately show ?thesis
    using l1.get_wf [OF assms(2), of d] l1.get_cap [of c d] assms(3) by (auto simp: l1_recent_def)
qed

text \<open>
  C30: a cached answer is not renewed while it stays cached. Suppose the L1 server responsible for a
  name holds an address for it as its most recently used entry. Then the front end answers this
  address to every later question for the name, whatever the data plane answers meanwhile and
  however much time passes (the responses carry a time to live of 60 seconds), provided that
  between any two of these questions the server is not stopped, nobody stores the name there, and
  fewer other names than the server's capacity are looked up or stored there, so that the entry is
  not evicted. Other names may be asked and stored, and other servers used, in any way.
\<close>

theorem cached_answers_not_renewed:
  assumes "ip = selectServer cc (l1Servers (zone cc)) d" and "\<not> isBlank ip" and "plain d" and "passes v"
    and "l1_recent ip d v n w" and "0 < n" and "\<forall>es \<in> set (agenda w). keeps_entry ip d n es"
  shows "resolve_all cc i d dps w = replicate (length dps) v"
  using assms(5,7)
proof (induction dps arbitrary: w)
  case (Cons dp dps)
  obtain c where c: "l1_at (run_others w) ip = Some c" "l1_wf c" "capacity c = n" "map_of (cache c) d = Some v"
    "set (agenda (run_others w)) \<subseteq> set (agenda w)"
    using others_keep_entry [OF Cons.prems assms(6)] by blast
  obtain w' where w': "cache_resolve cc (exchange cc dp) (nap i) d w = (v, w')" "agenda w' = agenda (run_others w)"
    "l1_recent ip d v n w'"
    using hit_resolved [OF c(1-4) assms(1-4)] by blast
  then show ?case using Cons.IH [OF w'(3)] Cons.prems(2) c(5) by auto
qed simp

section \<open>Concrete runs\<close>

definition a_labels :: "byte list list" where
  "a_labels = [[0x61], [0x63, 0x6F, 0x6D]]"

lemma a_labels_ok: "\<forall>l \<in> set a_labels. valid_label l" "a_labels \<noteq> []" "toLowerCase (domain_text a_labels) = ''a.com''"
  "length (encode_query example_header a_labels 1 1 []) \<le> 512"
  by code_simp+

definition a_front :: "(string \<Rightarrow> string option) \<Rightarrow> world front_end" where
  "a_front dp = (example_front dp)\<lparr>fe_getByName := \<lambda>_. Some [2, 2, 2, 2]\<rparr>"

theorem client_gets_what_is_on_file_witness:
  "\<exists>r beat. fst (handle_datagram (a_front (ask_node r
        (told 1 ''10.0.0.7'' beat (boot_all example_env [''10.0.0.7'', ''10.0.0.3''] example_disk) ''10.0.0.3''))) 0
       (encode_query example_header a_labels 1 1 []) ''8.8.8.8'' (default_limiter, fresh_world)) =
     Some (reply_message example_header a_labels 1 1 (Some [2, 2, 2, 2]))"
proof -
  note s = boot_all_started [OF example_directory example_serving]
  obtain r beat where n: "beats_from example_ips (boot_all example_env example_ips example_disk) ''10.0.0.7'' beat"
    "connected example_ips (told 1 ''10.0.0.7'' beat (boot_all example_env example_ips example_disk)) ''10.0.0.7'' r ''a.com''"
    by (rule example_network)
  let ?dp = "ask_node r (told 1 ''10.0.0.7'' beat (boot_all example_env example_ips example_disk) ''10.0.0.3'')"
  have "fst (handle_datagram (a_front ?dp) 0 (encode_query example_header a_labels 1 1 []) ''8.8.8.8'' (default_limiter, fresh_world)) =
     Some (reply_message example_header a_labels 1 1 (Some [2, 2, 2, 2]))"
  proof (rule client_gets_what_is_on_file [OF example_directory s example_greatest n(1) example_ranks example_serving n(2) _ refl
        example_a_record])
    show "passes ''2.2.2.2''" "plain ''a.com''" by code_simp+
    show "length (encode_query example_header a_labels 1 1 []) \<le> 512" by (rule a_labels_ok)
    show "coherent (fe_client (a_front ?dp)) ?dp fresh_world" by (simp add: a_front_def fresh_world_coherent)
  qed (use example_a_name(2,3) in \<open>simp_all add: a_front_def fresh_limiter clients a_labels_ok example_query_parts latin1_compatible\<close>)
  then show ?thesis by blast
qed

definition q_front :: "(string \<Rightarrow> string option) \<Rightarrow> world front_end" where
  "q_front dp = (example_front dp)\<lparr>fe_getByName := \<lambda>_. Some [8, 8, 8, 8]\<rparr>"

theorem client_gets_last_write_witness:
  "\<exists>r. fst (handle_datagram (q_front (ask_node r (history q_writes example_node ''10.0.0.3''))) 0
       (encode_query example_header q_labels 1 1 []) ''8.8.8.8'' (default_limiter, fresh_world)) =
     Some (reply_message example_header q_labels 1 1 (Some [8, 8, 8, 8]))"
proof -
  have v: "volume_cluster (length q_writes) example_pair example_disk example_node ''10.0.0.9''"
    using example_volume by (simp add: q_writes_ok)
  have own: "lower_char (hd ''q.com'') \<in> selfRecords (st (example_node ''10.0.0.9''))" using example_owner example_name(1) by simp
  have lo: "lower ''q.com'' = ''q.com''" by code_simp
  have "cluster example_pair (history q_writes example_node) ''10.0.0.9''"
    by (rule history_answers(1) [OF v q_writes_ok(1) _ own example_name(2) _ lo]) simp_all
  then obtain r where r: "connected example_pair (history q_writes example_node) ''10.0.0.9'' r ''q.com''"
    using network_exists [OF _ example_name(2) _ example_name(4)] by blast
  let ?dp = "ask_node r (history q_writes example_node ''10.0.0.3'')"
  have "fst (handle_datagram (q_front ?dp) 0 (encode_query example_header q_labels 1 1 []) ''8.8.8.8'' (default_limiter, fresh_world)) =
     Some (reply_message example_header q_labels 1 1 (Some [8, 8, 8, 8]))"
  proof (rule client_gets_last_write [OF v q_writes_ok(1) _ own lo r _ refl q_writes_ok(3)])
    show "passes ''8.8.8.8''" "plain ''q.com''" by code_simp+
    show "length (encode_query example_header q_labels 1 1 []) \<le> 512" by code_simp
    show "coherent (fe_client (q_front ?dp)) ?dp fresh_world" by (simp add: q_front_def fresh_world_coherent)
  qed (simp_all add: q_front_def fresh_limiter clients q_labels_ok example_query_parts latin1_compatible)
  then show ?thesis by blast
qed

definition cached_world :: world where
  "cached_world = fresh_world\<lparr>l1_at := [''127.0.0.1'' \<mapsto> l1_set L1_CACHE ''q.com'' ''5.5.5.5''],
     agenda := [[L1Line ''127.0.0.1'' ''SET;a.com;1.1.1.1'', Clock 7, L1Line ''127.0.0.1'' ''GET;b.com'', L2Stop ''127.0.0.1''],
       [L1Line ''127.0.0.1'' ''GET;a.com'', Clock 3600, L1Line ''127.0.0.1'' ''SET;b.com;2.2.2.2'']]\<rparr>"

theorem cached_answers_not_renewed_witness:
  "resolve_all example_client (\<lambda>_. False) ''q.com'' [\<lambda>_. Some ''6.6.6.6'', \<lambda>_. None] cached_world = [''5.5.5.5'', ''5.5.5.5'']"
proof -
  let ?c = "l1_set L1_CACHE ''q.com'' ''5.5.5.5''"
  have "cache ?c = lastN 50000 (touch ''q.com'' ''5.5.5.5'' [])"
    using l1_set_cache [OF l1_wf_init, of 50000 "''q.com''" "''5.5.5.5''"] by (simp add: L1_CACHE_def) (simp add: l1_init_def)
  moreover have "l1_wf ?c" "capacity ?c = 50000"
    using l1.put_wf [OF l1_wf_init] by (simp_all add: L1_CACHE_def l1.put_cap) (simp add: l1_init_def)
  ultimately have r: "l1_recent ''127.0.0.1'' ''q.com'' ''5.5.5.5'' 50000 cached_world"
    by (auto simp: l1_recent_def cached_world_def lastN_id touch_def)
  have cmd: "cache_command ''SET;a.com;1.1.1.1'' = Some (Put ''a.com'' ''1.1.1.1'')" "cache_command ''GET;b.com'' = Some (Get ''b.com'')"
    "cache_command ''SET;b.com;2.2.2.2'' = Some (Put ''b.com'' ''2.2.2.2'')" "cache_command ''GET;a.com'' = Some (Get ''a.com'')"
    "passes ''5.5.5.5''" "plain ''q.com''" by code_simp+
  have k: "\<forall>es \<in> set (agenda cached_world). keeps_entry ''127.0.0.1'' ''q.com'' 50000 es"
    by (simp add: cached_world_def keeps_entry_def cmd)
  have "selectServer example_client (l1Servers (zone example_client)) ''q.com'' = ''127.0.0.1''" "\<not> isBlank ''127.0.0.1''"
    using local_host by simp_all
  then show ?thesis
    using cached_answers_not_renewed [OF _ _ cmd(6,5) r _ k, of example_client "\<lambda>_. False"
        "[\<lambda>_. Some ''6.6.6.6'', \<lambda>_. None]"]
    by (simp del: resolve_all.simps)
qed

end
