(* ===== verification/Spec2Isabelle.thy ===== *)
theory Spec2Isabelle
  imports Process_Start Refresh Collect Write_Races Cluster_Refresh Name_Service
begin

text \<open>
  Verification of the ds-dns distributed name service: the Java front end, the two cache servers,
  the Python data plane and the refresh program.

  \<^bold>\<open>The program.\<close> A client's DNS query reaches the Java front end (the control plane), which limits
  the rate per client, gives internal clients a private address, and for others asks an L1 cache,
  then an L2 cache that hands out leases so that one client at a time fetches a missing name, and
  then a node of the data plane. The data plane is a set of nodes that discover each
  other through address files, divide the letters of the alphabet among themselves (shards),
  elect the node with the highest address as leader by heartbeats, answer reads from their shard
  files, forward or fan out reads they cannot answer, and replicate writes from the node that
  receives them to the others. A refresh pass in every node, and a stand-alone program, send
  writes for records whose live address has changed.

  \<^bold>\<open>Theories and source files\<close> (all under \<^verbatim>\<open>src/\<close>; \<^verbatim>\<open>J/\<close> is
  \<^verbatim>\<open>dns-control-plane/src/main/java/com/dns/\<close>):
  \<^item> \<open>Py_Prelude\<close>: the parts of Python the code uses (text functions, \<^verbatim>\<open>int\<close> and \<^verbatim>\<open>str\<close>, text
    files as lines, ordered dictionaries, exceptions as values, what a connection delivers) and
    the lemmas on them that all components share; \<open>Java_Base\<close>: the same for Java.
  \<^item> \<open>Lru_Spec\<close>, \<open>Cache_Protocol\<close>: the contracts of a least-recently-used store and of a server
    that speaks the cache protocol over one, as the locales \<open>lru_store\<close> and \<open>cache_server\<close>.
  \<^item> \<open>L1_Cache\<close> (\<^verbatim>\<open>caches/l1_cache.py\<close>) and \<open>L2_Cache\<close> (\<^verbatim>\<open>caches/l2_cache.py\<close>): the classes
    \<^verbatim>\<open>LRUCache\<close>, the function \<^verbatim>\<open>process_command\<close> (with the clock as an argument where leases
    need it) and the connection loop, each shown to be an instance of both locales.
  \<^item> \<open>Sessions\<close>: servers with many clients as a step relation (\<open>reaches\<close>): a client connects, or the
    next line of some client is handled; the locale \<open>shared_server\<close> lifts an invariant of the
    lines to all reachable states. \<open>Cache_Clients\<close> (\<^verbatim>\<open>main\<close> of both caches) is an instance.
  \<^item> \<open>Ipv4\<close>: the parser and order of \<^verbatim>\<open>ipaddress.IPv4Address\<close>, which decide elections.
  \<^item> \<open>Node_State\<close> (\<^verbatim>\<open>data_plane/state.py\<close>): class \<^verbatim>\<open>States\<close>, as the record \<open>states\<close> with one
    function per method; the locale \<open>sharded\<close> says what other components rely on, that every
    letter has exactly one owner. \<open>Node_State_Dyn\<close> (\<^verbatim>\<open>data_plane/state_dynamic.py\<close>): the variant
    whose nodes write their own address files.
  \<^item> \<open>Raft\<close> (\<^verbatim>\<open>data_plane/raft/_raft.py\<close>): class \<^verbatim>\<open>Raft\<close> over the record \<open>core\<close> (shared
    state, coordinator fields, packets sent): the heartbeat handler, one round of the heart
    thread, failover, and the sending side.
  \<^item> \<open>Election\<close>: a network of such nodes as a step relation: rounds of their heart threads, with
    heartbeats that are due and promotions after a time-out, and deliveries of heartbeats in any
    order, repeated or never; a list of events can be executed.
  \<^item> \<open>Reader\<close> (\<^verbatim>\<open>data_plane/read/_read.py\<close>): the disk, loading of the shard files, look-up, and
    the table of records a file stands for.
  \<^item> \<open>Record_Store\<close>: the contract \<open>record_store\<close> of a store of updates: its table changes by
    \<open>replace\<close>; last write wins, order per domain and correction are proved once there.
  \<^item> \<open>Writer\<close> (\<^verbatim>\<open>data_plane/write/_writer.py\<close>): class \<^verbatim>\<open>Writer\<close>, the four message types and the
    commit to the shard file; a node with its disk is an instance of \<open>record_store\<close>.
    \<open>Write_Threads\<close>: the same writes statement by statement (\<open>wpc\<close>, \<open>wstep\<close>), for any number of
    threads under any schedule, since the writer takes no lock, and the races that lose data;
    \<open>Write_Races\<close>: what holds under every schedule.
  \<^item> \<open>Server\<close> (\<^verbatim>\<open>data_plane/server.py\<close>): the read, write and heartbeat handlers on a connection,
    and reads in a cluster of nodes that answer each other. \<open>Cluster_Writes\<close>: a write at one member,
    the delivery of its packets to the others. \<open>Cluster_History\<close>: sequences of such writes on the
    volume the nodes share, as a table of the last writes (another instance of \<open>record_store\<close>), over
    restarts, and with writes that cross.
  \<^item> \<open>Batch\<close> (\<^verbatim>\<open>data_plane/batch/_batch.py\<close>) and \<open>Refresh\<close> (\<^verbatim>\<open>control_plane/process.py\<close>): the
    two refreshers. \<open>Cluster_Refresh\<close>: a pass in a cluster.
  \<^item> \<open>Collect\<close> (\<^verbatim>\<open>records/parse.py\<close>): the script that filled the record files; it restarts itself
    recursively after long runs of failures.
  \<^item> \<open>Node_Main\<close> (\<^verbatim>\<open>data_plane/main.py\<close>): the start-up of a node, and the theorem that puts
    start-up, election, reader and servers together. \<open>Node_Threads\<close> (\<^verbatim>\<open>start\<close> and \<^verbatim>\<open>_serve\<close> of
    \<^verbatim>\<open>server.py\<close>): the complete loop iterations of all threads of a node, in any order, as a step
    relation on its shared objects. \<open>Failover\<close>: the
    loss of a leader in a cluster, from the time-out of a follower to the heartbeats it sends.
  \<^item> \<open>Process_Start\<close> (\<^verbatim>\<open>get_advertised_ip\<close> of both state classes, \<^verbatim>\<open>main.py\<close> with \<^verbatim>\<open>Server.start\<close>, the
    command lines of the caches): how the processes come up, and what fails without stopping them.
  \<^item> \<open>Rate_Limiter\<close> (\<^verbatim>\<open>J/dns/RateLimiter.java\<close>), \<open>Acl\<close> (\<^verbatim>\<open>J/acl/AclManager.java\<close>), \<open>Dns_Codec\<close>
    (\<^verbatim>\<open>J/dns/DnsRequestParser.java\<close>, \<^verbatim>\<open>J/dns/DnsResponseBuilder.java\<close>): the parts of the front end
    that work on their own.
  \<^item> \<open>Cache_Client\<close> (\<^verbatim>\<open>J/cache/CacheClient.java\<close>, \<^verbatim>\<open>J/config/ZoneFileLoader.java\<close>,
    \<^verbatim>\<open>J/model/ZoneConfig.java\<close>): the client of caches and data plane, over any services; the locale
    \<open>coherent_services\<close> says what it needs of them. \<open>Front_Network\<close> shows that the cache servers and
    a node of the data plane give it that, while other clients use the caches and cache servers
    are stopped and restarted.
  \<^item> \<open>Dns_Server\<close> (\<^verbatim>\<open>J/dns/DnsServer.java\<close>): the request pipeline over UDP and TCP, and the theorems
    on whole queries. \<open>Name_Service\<close>: the whole system, from the record files to the client, and what
    the caches do to records that change.

  \<^bold>\<open>What the lemmas show.\<close> Caches: under any interleaving of clients the contents are the most
  recently used entries up to the capacity and every client gets the replies to its own lines;
  what was set is read back until enough other keys were used; leases on a key are
  spaced by the time-out, and a key is never both cached and leased. State: start-up and
  membership changes partition the alphabet evenly, with prepared address files or with files the
  nodes write themselves. Coordinator: the member with the highest
  address is never deposed, whatever heartbeats are late or lost and whoever times out, and it is
  the only leader as long as the others hear heartbeats in time; a silent leader is replaced, a heartbeat installs the leader's
  view, after a failover the survivors divide the alphabet
  anew, and they are a settled cluster again if they noticed the loss together. Writes: a write is numbered, logged, replicated and committed; the files implement a
  table in which the last write of a domain wins; writes survive restarts; followers store and
  acknowledge; in a cluster the last write of a name wins at every member and after restarts. Statement by statement,
  writes that do not overlap are the handler's; overlapping ones damage at most the shards they write
  to, a commit is not disturbed by writes to other shards, and files and packets keep complete
  lines. Reads: any member of a settled cluster answers any name from its owner. Threads:
  whatever comes in on its ports, a node stays well formed over complete loop iterations of its threads
  in any order, and a write that no other write interrupts never damages other records. Refresh:
  a pass and the writes it causes leave only live addresses, on file and at every member. Collection: it ends, and stores what
  it resolved up to the last full hundred. Front end: queries survive encoding and parsing,
  responses carry the question and the address, the limiter is exact and bounds what a client is
  sent, the access list is an address range, the caches never change an answer of the data plane,
  and a query is answered from the shard that stores its name, in the end from its record file. Some theorems pin down behaviour
  that contradicts the program's own documentation or intent: records lost after a file without
  final line feed, names with upper-case letters or digits that cannot be looked up, a fresh
  leader that cannot learn names, a write that kills its connection, a stale snapshot after
  failover to one node, followers that stay with a dead leader after a failover, stored names that a
  failover loses, concurrent writes that erase a shard or make an acknowledged write vanish, writes at two
  members that leave memory and file apart, a node without heartbeat port that leads for ever, cached
  addresses that are not renewed while they stay cached, a unit test of the access list that expects
  another subnet, and a query whose name carries a command that poisons the caches.

  \<^bold>\<open>Modelling choices.\<close> A component's operation is a function on its state that returns the new
  state, and, where the code can raise, how it ended; what was changed before an exception stays
  changed. Concurrency is interleaving of loop iterations: in the caches the event loop switches
  between lines; in a node the threads switch between lines of a connection, rounds of the heart
  thread and lines of the refresh pass; in front of the caches other clients act, and cache
  servers stop and start, between any two exchanges of a front end. Switches within an iteration of a node's thread are modelled for writes only (\<open>Write_Threads\<close>), where
  threads compete for the log, the log number and the shard files. Clock readings, name resolution,
  the answers of other processes, directory listings and file contents are arguments. Sending is
  fire-and-forget in the data plane (exceptions are swallowed), so it only records the packet. Opening
  a file for reading or writing may raise any exception; a write that opens succeeds entirely.
  A file that is read is read entirely when it is opened; the refresh pass reads line by line, which
  differs only if the file is rewritten during the pass.
  A Python set is a set, and where the code iterates over one, the order is an argument.
  Python's integers are unbounded; the limit of 4300 digits of Python's \<^verbatim>\<open>int\<close> and \<^verbatim>\<open>str\<close> appears as the predicate
  \<open>printable\<close> on log numbers and ranks (a log number above it makes the write raise; for the ranks
  in heartbeats the receiver rejects them). Java's bytes and the hash are words of their width; text in
  Java has characters up to U+00FF. Loops run over lists or positions; the endless loops of the program (heart
  thread, accept loops) are modelled by their rounds. Only the recursion of the collection script
  needs fuel, and fuel above the number of lines ranked above its start is proved to be enough;
  the wait for a lease has the 30 attempts of the code.

  \<^bold>\<open>Not modelled.\<close> Thread pools and the framework that starts the front end, the JSON parsers,
  printing and logging, and deployment files: they hold none of the program's own logic. What is left
  of the Python files beyond the mapped lines are comments, imports, constants for coloured output,
  code that is commented out, and constructors that only store their arguments.
\<close>

end
